(* ===== verification/Prelude.thy ===== *)
theory Prelude
  imports Main "HOL-Library.Word" "HOL-Library.Signed_Division"
begin

text \<open>
  Shared vocabulary of the development: the machine integer types of the C++ sources, the
  result type used where the code throws or asserts, and generic lemmas on little-endian digit
  lists that the fixed-width arithmetic and the serialisation theories use.
\<close>

unbundle bit_operations_syntax

section \<open>Machine types\<close>

type_synonym byte = "8 word"
type_synonym uint32_t = "32 word"
type_synonym uint64_t = "64 word"

text \<open>
  \<open>assert\<close> aborts the process and \<open>throw\<close> unwinds it: both are values of this type, with the
  reason the source gives.
\<close>

datatype failure = AssertFail string | Throw string

type_synonym 'a result = "failure + 'a"

section \<open>Collections of facts\<close>

named_theorems len_simps \<open>lengths of the arrays the operations return\<close>
named_theorems val_simps \<open>integer values of multi-limb operations\<close>
named_theorems view_simps \<open>what a coins view answers after an operation\<close>

section \<open>Digit lists\<close>

text \<open>
  The value of a list of 32-bit limbs, least significant limb first. The base is a constant of
  its own, so that the simplifier does not turn it into a numeral.
\<close>

definition limb_base :: nat where
  "limb_base = 2 ^ 32"

lemma limb_base_gt1 [simp]: "1 < limb_base" "0 < limb_base" "limb_base \<noteq> 0"
  by (simp_all add: limb_base_def)

lemma limb_base_power: "limb_base ^ n = 2 ^ (32 * n)"
  by (simp add: limb_base_def power_mult)

definition limbs_val :: "uint32_t list \<Rightarrow> nat" where
  "limbs_val ws = horner_sum unat limb_base ws"

lemma limbs_val_Nil [simp]: "limbs_val [] = 0"
  by (simp add: limbs_val_def)

lemma limbs_val_Cons [simp]: "limbs_val (w # ws) = unat w + limb_base * limbs_val ws"
  by (simp add: limbs_val_def)

lemma limbs_val_append:
  "limbs_val (xs @ ys) = limbs_val xs + limb_base ^ length xs * limbs_val ys"
  by (induction xs) (simp_all add: algebra_simps)

lemma unat32_less [simp]: "unat (w :: uint32_t) < limb_base"
  using unsigned_less [of w] by (simp add: limb_base_def)

lemma limbs_val_less: "limbs_val ws < limb_base ^ length ws"
proof (induction ws)
  case Nil
  then show ?case by simp
next
  case (Cons w ws)
  have "unat w + limb_base * limbs_val ws < limb_base * (limbs_val ws + 1)"
    by simp
  also have "\<dots> \<le> limb_base * limb_base ^ length ws"
    using Cons by (intro mult_le_mono) simp_all
  finally show ?case by simp
qed

lemma limbs_val_inj: "length xs = length ys \<Longrightarrow> limbs_val xs = limbs_val ys \<Longrightarrow> xs = ys"
proof (induction xs ys rule: list_induct2)
  case Nil
  then show ?case by simp
next
  case (Cons x xs y ys)
  have eq: "unat x + limb_base * limbs_val xs = unat y + limb_base * limbs_val ys"
    using Cons.prems by simp
  have "unat x = unat y"
    using arg_cong [OF eq, of "\<lambda>n. n mod limb_base"] by simp
  moreover have "limbs_val xs = limbs_val ys"
    using eq \<open>unat x = unat y\<close> by simp
  ultimately show ?case
    using Cons.IH by (simp add: word_unat_eq_iff)
qed

lemma limbs_val_eq_0_iff: "limbs_val ws = 0 \<longleftrightarrow> (\<forall>w \<in> set ws. w = 0)"
  by (induction ws) (auto simp: unat_eq_0)

lemma limbs_val_replicate_0 [simp]: "limbs_val (replicate n 0) = 0"
  by (induction n) simp_all

text \<open>One limb of a result: low part here, the rest carried on.\<close>

lemma limb_step:
  fixes n v :: nat
  shows "n mod limb_base + limb_base * ((n div limb_base + v) mod limb_base ^ m)
       = (n + limb_base * v) mod limb_base ^ Suc m"
proof -
  have "(n + limb_base * v) mod (limb_base * limb_base ^ m)
      = limb_base * ((n + limb_base * v) div limb_base mod limb_base ^ m)
        + (n + limb_base * v) mod limb_base"
    by (rule mod_mult2_eq)
  then show ?thesis by (simp add: add.commute)
qed

lemma unat_low_limb:
  fixes n :: uint64_t
  shows "unat (ucast (n AND 0xffffffff) :: uint32_t) = unat n mod limb_base"
proof -
  have "n AND 0xffffffff = take_bit 32 n"
    by (simp add: take_bit_eq_mask mask_eq_exp_minus_1)
  then have "unat (ucast (n AND 0xffffffff) :: uint32_t) = take_bit 32 (take_bit 32 (unat n))"
    by (simp only: unsigned_ucast_eq unsigned_take_bit_eq) simp
  then show ?thesis
    by (simp add: limb_base_def take_bit_eq_mod)
qed

lemma unat_high_limb:
  fixes n :: uint64_t
  shows "unat (drop_bit 32 n) = unat n div limb_base"
  by (simp add: limb_base_def unsigned_drop_bit_eq drop_bit_eq_div take_bit_nat_eq_self unat_div)

lemma unat_ucast_64 [simp]: "unat (ucast (w :: uint32_t) :: uint64_t) = unat w"
  using unat32_less [of w]
  by (simp add: unsigned_ucast_eq take_bit_nat_eq_self limb_base_def)

text \<open>Shifts of words, read as numbers.\<close>

lemma unat_drop_bit: "unat (drop_bit n w) = unat w div 2 ^ n"
  by (metis drop_bit_eq_div unat_drop_bit_eq)

lemma unat_push_bit: "unat (push_bit n (w :: 'a::len word)) = unat w * 2 ^ n mod 2 ^ LENGTH('a)"
proof -
  have "unat (push_bit n w) = take_bit LENGTH('a) (push_bit n (unat w))"
    by (rule unsigned_push_bit_eq)
  then show ?thesis by (simp only: push_bit_eq_mult take_bit_eq_mod)
qed

lemma unat_ucast_32: "unat (ucast (b :: uint64_t) :: uint32_t) = unat b mod limb_base"
  by (simp add: unsigned_ucast_eq take_bit_eq_mod limb_base_def)

lemma pow256: "(256 :: nat) ^ n = 2 ^ (8 * n)"
  by (simp add: power_mult)

section \<open>Byte strings\<close>

text \<open>A \<open>uint256\<close> is its 32 data bytes; \<open>bytes_val\<close> reads bytes least significant first.\<close>

type_synonym uint256 = "byte list"

definition bytes_val :: "byte list \<Rightarrow> nat" where
  "bytes_val bs = horner_sum unat 256 bs"

lemma bytes_val_simps [simp]: "bytes_val [] = 0" "bytes_val (b # bs) = unat b + 256 * bytes_val bs"
  by (simp_all add: bytes_val_def)

lemma bytes_val_append: "bytes_val (xs @ ys) = bytes_val xs + 256 ^ length xs * bytes_val ys"
  by (induction xs) (simp_all add: algebra_simps)

lemma bytes_val_less: "bytes_val bs < 256 ^ length bs"
proof (induction bs)
  case Nil
  then show ?case by simp
next
  case (Cons b bs)
  have "unat b < 256" using unsigned_less [of b] by simp
  then show ?case using Cons by simp
qed

end
