(* ===== verification/Arith256.thy ===== *)
theory Arith256
  imports Prelude
begin

text \<open>
  The fixed-width big integers of \<^verbatim>\<open>src/arith_uint256.h\<close> and \<^verbatim>\<open>src/arith_uint256.cpp\<close>. A
  \<open>base_uint<BITS>\<close> is its array \<open>pn\<close> of 32-bit limbs, least significant first; the template
  parameter \<open>WIDTH\<close> is the length of the list, and \<open>arith_uint256\<close> is the instance of length 8.
  Loops over the limbs are recursions over the list, with the 64-bit intermediate values of the
  source kept at their width. The lemmas show that every operation computes the arithmetic
  operation on the values of its arguments, modulo \<open>2 ^ (32 * WIDTH)\<close>.
\<close>

unbundle bit_operations_syntax

type_synonym base_uint = "uint32_t list"

abbreviation (input) WIDTH :: "base_uint \<Rightarrow> nat" where
  "WIDTH pn \<equiv> length pn"

section \<open>The operations\<close>

definition base_uint_zero :: "nat \<Rightarrow> base_uint" where
  "base_uint_zero width = replicate width 0"

text \<open>Assignment and construction from a \<open>uint64_t\<close>: the two low limbs, zero above.\<close>

definition base_uint_of_u64 :: "nat \<Rightarrow> uint64_t \<Rightarrow> base_uint" where
  "base_uint_of_u64 width b = ucast b # ucast (drop_bit 32 b) # replicate (width - 2) 0"

fun base_uint_is_zero :: "base_uint \<Rightarrow> bool" where
  "base_uint_is_zero [] = True"
| "base_uint_is_zero (p # pn) = (if p \<noteq> 0 then False else base_uint_is_zero pn)"

definition base_uint_not :: "base_uint \<Rightarrow> base_uint" where
  "base_uint_not pn = map NOT pn"

text \<open>Prefix increment: carry on while the incremented limb wraps to zero.\<close>

fun base_uint_incr :: "base_uint \<Rightarrow> base_uint" where
  "base_uint_incr [] = []"
| "base_uint_incr (p # pn) = (if p + 1 = 0 then (p + 1) # base_uint_incr pn else (p + 1) # pn)"

fun base_uint_decr :: "base_uint \<Rightarrow> base_uint" where
  "base_uint_decr [] = []"
| "base_uint_decr (p # pn) = (if p - 1 = - 1 then (p - 1) # base_uint_decr pn else (p - 1) # pn)"

definition base_uint_neg :: "base_uint \<Rightarrow> base_uint" where
  "base_uint_neg pn = base_uint_incr (map NOT pn)"

definition base_uint_xor :: "base_uint \<Rightarrow> base_uint \<Rightarrow> base_uint" where
  "base_uint_xor a b = map2 (XOR) a b"

definition base_uint_and :: "base_uint \<Rightarrow> base_uint \<Rightarrow> base_uint" where
  "base_uint_and a b = map2 (AND) a b"

definition base_uint_or :: "base_uint \<Rightarrow> base_uint \<Rightarrow> base_uint" where
  "base_uint_or a b = map2 (OR) a b"

fun base_uint_add_loop :: "uint64_t \<Rightarrow> base_uint \<Rightarrow> base_uint \<Rightarrow> base_uint" where
  "base_uint_add_loop carry (p # pn) (q # bn) =
     (let n = carry + ucast p + ucast q
      in ucast (n AND 0xffffffff) # base_uint_add_loop (drop_bit 32 n) pn bn)"
| "base_uint_add_loop carry _ _ = []"

definition base_uint_add :: "base_uint \<Rightarrow> base_uint \<Rightarrow> base_uint" where
  "base_uint_add a b = base_uint_add_loop 0 a b"

definition base_uint_sub :: "base_uint \<Rightarrow> base_uint \<Rightarrow> base_uint" where
  "base_uint_sub a b = base_uint_add a (base_uint_neg b)"

definition base_uint_add_u64 :: "base_uint \<Rightarrow> uint64_t \<Rightarrow> base_uint" where
  "base_uint_add_u64 a b64 = base_uint_add a (base_uint_of_u64 (WIDTH a) b64)"

definition base_uint_sub_u64 :: "base_uint \<Rightarrow> uint64_t \<Rightarrow> base_uint" where
  "base_uint_sub_u64 a b64 = base_uint_add a (base_uint_neg (base_uint_of_u64 (WIDTH a) b64))"

text \<open>
  The shifts write limb \<open>i + k\<close> and limb \<open>i + k + 1\<close> (left) or \<open>i - k\<close> and \<open>i - k - 1\<close> (right)
  for each source limb \<open>i\<close>, or-ing into an array cleared beforehand.
\<close>

definition base_uint_shl_step ::
  "base_uint \<Rightarrow> nat \<Rightarrow> nat \<Rightarrow> base_uint \<Rightarrow> nat \<Rightarrow> base_uint" where
  "base_uint_shl_step a k shift pn i =
     (let pn1 = (if i + k + 1 < WIDTH a \<and> shift \<noteq> 0
                 then pn[i + k + 1 := (pn ! (i + k + 1)) OR drop_bit (32 - shift) (a ! i)] else pn)
      in if i + k < WIDTH a then pn1[i + k := (pn1 ! (i + k)) OR push_bit shift (a ! i)] else pn1)"

definition base_uint_shl :: "base_uint \<Rightarrow> nat \<Rightarrow> base_uint" where
  "base_uint_shl a shift =
     foldl (base_uint_shl_step a (shift div 32) (shift mod 32)) (replicate (WIDTH a) 0) [0..<WIDTH a]"

definition base_uint_shr_step ::
  "base_uint \<Rightarrow> nat \<Rightarrow> nat \<Rightarrow> base_uint \<Rightarrow> nat \<Rightarrow> base_uint" where
  "base_uint_shr_step a k shift pn i =
     (let pn1 = (if k + 1 \<le> i \<and> shift \<noteq> 0
                 then pn[i - k - 1 := (pn ! (i - k - 1)) OR push_bit (32 - shift) (a ! i)] else pn)
      in if k \<le> i then pn1[i - k := (pn1 ! (i - k)) OR drop_bit shift (a ! i)] else pn1)"

definition base_uint_shr :: "base_uint \<Rightarrow> nat \<Rightarrow> base_uint" where
  "base_uint_shr a shift =
     foldl (base_uint_shr_step a (shift div 32) (shift mod 32)) (replicate (WIDTH a) 0) [0..<WIDTH a]"

fun base_uint_mul32_loop :: "uint64_t \<Rightarrow> uint32_t \<Rightarrow> base_uint \<Rightarrow> base_uint" where
  "base_uint_mul32_loop carry b32 [] = []"
| "base_uint_mul32_loop carry b32 (p # pn) =
     (let n = carry + ucast b32 * ucast p
      in ucast (n AND 0xffffffff) # base_uint_mul32_loop (drop_bit 32 n) b32 pn)"

definition base_uint_mul32 :: "base_uint \<Rightarrow> uint32_t \<Rightarrow> base_uint" where
  "base_uint_mul32 a b32 = base_uint_mul32_loop 0 b32 a"

text \<open>
  Schoolbook multiplication. Row \<open>j\<close> adds \<open>a.pn[j] * b\<close> into the limbs from \<open>j\<close> upwards and
  drops what goes past the last limb; \<open>base_uint_mul_row\<close> is the inner loop on those limbs.
\<close>

fun base_uint_mul_row :: "uint64_t \<Rightarrow> uint32_t \<Rightarrow> base_uint \<Rightarrow> base_uint \<Rightarrow> base_uint" where
  "base_uint_mul_row carry aj (p # pn) (q # bn) =
     (let n = carry + ucast p + ucast aj * ucast q
      in ucast (n AND 0xffffffff) # base_uint_mul_row (drop_bit 32 n) aj pn bn)"
| "base_uint_mul_row carry aj _ _ = []"

definition base_uint_mul :: "base_uint \<Rightarrow> base_uint \<Rightarrow> base_uint" where
  "base_uint_mul a b =
     foldl (\<lambda>pn j. take j pn @ base_uint_mul_row 0 (a ! j) (drop j pn) b)
       (replicate (WIDTH a) 0) [0..<WIDTH a]"

text \<open>\<open>CompareTo\<close> looks at the limbs from the most significant one down.\<close>

fun base_uint_compare_loop :: "nat \<Rightarrow> base_uint \<Rightarrow> base_uint \<Rightarrow> int" where
  "base_uint_compare_loop 0 pn bn = 0"
| "base_uint_compare_loop (Suc i) pn bn =
     (if pn ! i < bn ! i then - 1
      else if pn ! i > bn ! i then 1
      else base_uint_compare_loop i pn bn)"

definition base_uint_compare :: "base_uint \<Rightarrow> base_uint \<Rightarrow> int" where
  "base_uint_compare a b = base_uint_compare_loop (WIDTH a) a b"

definition base_uint_equal_u64 :: "base_uint \<Rightarrow> uint64_t \<Rightarrow> bool" where
  "base_uint_equal_u64 pn b =
     (if list_ex (\<lambda>p. p \<noteq> 0) (drop 2 pn) then False
      else if ucast (pn ! 1) \<noteq> drop_bit 32 b then False
      else if ucast (pn ! 0) \<noteq> b AND 0xffffffff then False
      else True)"

text \<open>\<open>bits()\<close>: the position of the highest set bit plus one.\<close>

fun limb_bits :: "nat \<Rightarrow> uint32_t \<Rightarrow> nat" where
  "limb_bits 0 w = 1"
| "limb_bits (Suc k) w = (if w AND push_bit (Suc k) 1 \<noteq> 0 then Suc k + 1 else limb_bits k w)"

fun base_uint_bits_loop :: "nat \<Rightarrow> base_uint \<Rightarrow> nat" where
  "base_uint_bits_loop 0 pn = 0"
| "base_uint_bits_loop (Suc pos) pn =
     (if pn ! pos \<noteq> 0 then 32 * pos + limb_bits 31 (pn ! pos) else base_uint_bits_loop pos pn)"

definition base_uint_bits :: "base_uint \<Rightarrow> nat" where
  "base_uint_bits pn = base_uint_bits_loop (WIDTH pn) pn"

definition base_uint_low64 :: "base_uint \<Rightarrow> uint64_t" where
  "base_uint_low64 pn = ucast (pn ! 0) OR push_bit 32 (ucast (pn ! 1))"

text \<open>
  Division: align the divisor with the numerator, then one subtract-and-shift step per bit. The
  first argument of the loop is \<open>shift + 1\<close>, so the loop ends when the source's \<open>shift\<close> is
  negative. The second component of the result is the remainder the source leaves in \<open>num\<close>.
\<close>

definition limb_set_bit :: "base_uint \<Rightarrow> nat \<Rightarrow> base_uint" where
  "limb_set_bit q n = q[n div 32 := (q ! (n div 32)) OR push_bit (n mod 32) 1]"

fun base_uint_div_loop ::
  "nat \<Rightarrow> base_uint \<Rightarrow> base_uint \<Rightarrow> base_uint \<Rightarrow> base_uint \<times> base_uint" where
  "base_uint_div_loop 0 q num dv = (q, num)"
| "base_uint_div_loop (Suc shift) q num dv =
     (if base_uint_compare num dv \<ge> 0
      then base_uint_div_loop shift
             (limb_set_bit q shift) (base_uint_sub num dv) (base_uint_shr dv 1)
      else base_uint_div_loop shift q num (base_uint_shr dv 1))"

definition base_uint_div :: "base_uint \<Rightarrow> base_uint \<Rightarrow> base_uint result" where
  "base_uint_div a b =
     (let num_bits = base_uint_bits a; div_bits = base_uint_bits b
      in if div_bits = 0 then Inl (Throw ''Division by zero'')
         else if div_bits > num_bits then Inr (base_uint_zero (WIDTH a))
         else let shift = num_bits - div_bits
              in Inr (fst (base_uint_div_loop (Suc shift) (base_uint_zero (WIDTH a)) a
                             (base_uint_shl b shift))))"

section \<open>The compact format\<close>

text \<open>
  \<open>SetCompact\<close> returns the number with the two flags the source reports through its pointer
  arguments. \<open>GetCompact\<close> ends with two assertions; a failing one is an \<open>Inl\<close>.
\<close>

definition SetCompact :: "uint32_t \<Rightarrow> base_uint \<times> bool \<times> bool" where
  "SetCompact nCompact =
     (let nSize = unat (drop_bit 24 nCompact);
          nWord0 = nCompact AND 0x007fffff;
          nWord = (if nSize \<le> 3 then drop_bit (8 * (3 - nSize)) nWord0 else nWord0);
          v = (if nSize \<le> 3 then base_uint_of_u64 8 (ucast nWord)
               else base_uint_shl (base_uint_of_u64 8 (ucast nWord)) (8 * (nSize - 3)));
          fNegative = (nWord \<noteq> 0 \<and> nCompact AND 0x00800000 \<noteq> 0);
          fOverflow = (nWord \<noteq> 0 \<and> (nSize > 34 \<or> nWord > 0xff \<and> nSize > 33
                                       \<or> nWord > 0xffff \<and> nSize > 32))
      in (v, fNegative, fOverflow))"

definition GetCompact :: "base_uint \<Rightarrow> bool \<Rightarrow> uint32_t result" where
  "GetCompact a fNegative =
     (let nSize0 = (base_uint_bits a + 7) div 8;
          nCompact0 = (if nSize0 \<le> 3 then ucast (push_bit (8 * (3 - nSize0)) (base_uint_low64 a))
                       else ucast (base_uint_low64 (base_uint_shr a (8 * (nSize0 - 3)))));
          signed = (nCompact0 AND 0x00800000 \<noteq> 0);
          nCompact = (if signed then drop_bit 8 nCompact0 else nCompact0);
          nSize = (if signed then nSize0 + 1 else nSize0)
      in if nCompact AND NOT 0x007fffff \<noteq> 0 then Inl (AssertFail ''mantissa'')
         else if \<not> nSize < 256 then Inl (AssertFail ''nSize < 256'')
         else let c = nCompact OR push_bit 24 (of_nat nSize)
              in Inr (c OR (if fNegative \<and> c AND 0x007fffff \<noteq> 0 then 0x00800000 else 0)))"

section \<open>Conversion from and to the byte representation\<close>

definition ReadLE32 :: "byte list \<Rightarrow> uint32_t" where
  "ReadLE32 ptr = of_nat (bytes_val (take 4 ptr))"

definition WriteLE32 :: "uint32_t \<Rightarrow> byte list" where
  "WriteLE32 x = [ucast x, ucast (drop_bit 8 x), ucast (drop_bit 16 x), ucast (drop_bit 24 x)]"

definition ArithToUint256 :: "base_uint \<Rightarrow> uint256" where
  "ArithToUint256 a = concat (map WriteLE32 a)"

definition UintToArith256 :: "uint256 \<Rightarrow> base_uint" where
  "UintToArith256 a = map (\<lambda>x. ReadLE32 (drop (x * 4) a)) [0..<8]"

section \<open>Meaning of the compact format\<close>

text \<open>
  The documented meaning of a compact number, as a natural number: mantissa times
  \<open>256 ^ (exponent - 3)\<close>, rounded down when the exponent is below 3.
\<close>

definition compact_mant :: "uint32_t \<Rightarrow> nat" where
  "compact_mant nc = unat nc mod 2 ^ 23"

definition compact_size :: "uint32_t \<Rightarrow> nat" where
  "compact_size nc = unat nc div 2 ^ 24"

definition compact_value :: "uint32_t \<Rightarrow> nat" where
  "compact_value nc = compact_mant nc * 256 ^ compact_size nc div 256 ^ 3"

section \<open>Addition, subtraction, multiplication\<close>

lemma length_add_loop [len_simps]:
  "length a = length b \<Longrightarrow> length (base_uint_add_loop c a b) = length a"
  by (induction c a b rule: base_uint_add_loop.induct) (simp_all add: Let_def)

lemma val_add_loop:
  "length a = length b \<Longrightarrow> unat c < limb_base \<Longrightarrow>
   limbs_val (base_uint_add_loop c a b) = (unat c + limbs_val a + limbs_val b) mod limb_base ^ length a"
proof (induction c a b rule: base_uint_add_loop.induct)
  case (1 carry p pn q bn)
  define n where "n = carry + ucast p + (ucast q :: uint64_t)"
  have N: "unat n = unat carry + unat p + unat q"
    using "1.prems" unat32_less [of p] unat32_less [of q]
    by (simp add: n_def unat_word_ariths limb_base_def)
  have "unat (drop_bit 32 n) < limb_base"
    using N "1.prems" unat32_less [of p] unat32_less [of q]
    by (simp add: unat_high_limb limb_base_def)
  with 1 have "limbs_val (base_uint_add_loop (drop_bit 32 n) pn bn)
      = (unat n div limb_base + (limbs_val pn + limbs_val bn)) mod limb_base ^ length pn"
    by (simp add: unat_high_limb add.assoc n_def)
  then have "limbs_val (base_uint_add_loop carry (p # pn) (q # bn))
      = (unat n + limb_base * (limbs_val pn + limbs_val bn)) mod limb_base ^ Suc (length pn)"
    by (simp add: Let_def n_def [symmetric] unat_low_limb limb_step del: power_Suc)
  then show ?case
    by (simp add: N algebra_simps)
qed simp_all

lemma val_add [val_simps]:
  "length a = length b \<Longrightarrow>
   limbs_val (base_uint_add a b) = (limbs_val a + limbs_val b) mod limb_base ^ length a"
  by (simp add: base_uint_add_def val_add_loop)

lemma length_add [len_simps]: "length a = length b \<Longrightarrow> length (base_uint_add a b) = length a"
  by (simp add: base_uint_add_def len_simps)

lemma length_incr [len_simps]: "length (base_uint_incr a) = length a"
  by (induction a) simp_all

lemma unat_plus_1: "p + 1 \<noteq> 0 \<Longrightarrow> unat (p + 1 :: uint32_t) = unat p + 1"
  using unatSuc [of p] by (simp add: add.commute)

lemma plus_1_eq_0:
  assumes "p + 1 = (0 :: uint32_t)"
  shows "unat p + 1 = limb_base"
proof -
  from assms have "p = - 1" by (simp add: add_eq_0_iff2)
  then show ?thesis by (simp add: limb_base_def unsigned_minus_1_eq_mask mask_eq_exp_minus_1)
qed

lemma unat_NOT: "unat (NOT p :: uint32_t) + unat p = limb_base - 1"
proof -
  have "NOT p = - 1 - p" by (simp add: not_eq_complement)
  moreover have "p \<le> - 1" by simp
  ultimately have "unat (NOT p) = unat (- 1 :: uint32_t) - unat p" and "unat p \<le> unat (- 1 :: uint32_t)"
    by (simp_all only: unat_sub word_le_nat_alt)
  then show ?thesis
    by (simp add: unsigned_minus_1_eq_mask mask_eq_exp_minus_1 limb_base_def)
qed

lemma val_incr [val_simps]: "limbs_val (base_uint_incr a) = (limbs_val a + 1) mod limb_base ^ length a"
proof (induction a)
  case Nil
  then show ?case by simp
next
  case (Cons p pn)
  show ?case
  proof (cases "p + 1 = 0")
    case True
    then have "limbs_val (p # pn) + 1 = limb_base * (limbs_val pn + 1)"
      using plus_1_eq_0 [OF True] by (simp add: algebra_simps)
    moreover have "limbs_val (base_uint_incr (p # pn)) = limb_base * ((limbs_val pn + 1) mod limb_base ^ length pn)"
      using True Cons by simp
    ultimately show ?thesis by (simp only: mult_mod_right) simp
  next
    case False
    then have "limbs_val (base_uint_incr (p # pn)) = limbs_val (p # pn) + 1"
      by (simp add: unat_plus_1)
    then show ?thesis
      using limbs_val_less [of "base_uint_incr (p # pn)"]
      by (simp add: len_simps del: base_uint_incr.simps limbs_val_Cons)
  qed
qed

lemma val_NOT: "limbs_val (map NOT a) + limbs_val a = limb_base ^ length a - 1"
proof (induction a)
  case Nil
  then show ?case by simp
next
  case (Cons p pn)
  have "limbs_val (map NOT (p # pn)) + limbs_val (p # pn)
      = (unat (NOT p) + unat p) + limb_base * (limbs_val (map NOT pn) + limbs_val pn)"
    by (simp add: algebra_simps)
  also have "\<dots> = (limb_base - 1) + limb_base * (limb_base ^ length pn - 1)"
    by (simp only: Cons unat_NOT)
  also have "\<dots> = limb_base ^ length (p # pn) - 1"
  proof -
    have "limb_base * 1 \<le> limb_base * limb_base ^ length pn"
      by (intro mult_le_mono) (simp_all add: Suc_le_eq)
    then show ?thesis
      by (simp add: diff_mult_distrib2) (use limb_base_gt1 in linarith)
  qed
  finally show ?case .
qed

lemma length_neg [len_simps]: "length (base_uint_neg a) = length a"
  by (simp add: base_uint_neg_def len_simps)

lemma val_neg [val_simps]:
  "limbs_val (base_uint_neg a) = (limb_base ^ length a - limbs_val a) mod limb_base ^ length a"
proof -
  have "limbs_val (map NOT a) + 1 = limb_base ^ length a - limbs_val a"
    using val_NOT [of a] limbs_val_less [of a] by linarith
  then show ?thesis by (simp add: base_uint_neg_def val_incr)
qed

lemma length_sub [len_simps]: "length a = length b \<Longrightarrow> length (base_uint_sub a b) = length a"
  by (simp add: base_uint_sub_def len_simps)

lemma val_sub [val_simps]:
  assumes "length a = length b"
  shows "limbs_val (base_uint_sub a b)
       = (limbs_val a + (limb_base ^ length a - limbs_val b)) mod limb_base ^ length a"
  using assms by (simp add: base_uint_sub_def val_simps len_simps mod_add_right_eq)

lemma val_sub_no_borrow:
  assumes "length a = length b" and "limbs_val b \<le> limbs_val a"
  shows "limbs_val (base_uint_sub a b) = limbs_val a - limbs_val b"
proof -
  have "limbs_val a + (limb_base ^ length a - limbs_val b)
      = (limbs_val a - limbs_val b) + limb_base ^ length a"
    using assms limbs_val_less [of b] by simp
  then have "limbs_val (base_uint_sub a b) = (limbs_val a - limbs_val b) mod limb_base ^ length a"
    using assms(1) by (simp only: val_sub) simp
  then show ?thesis using limbs_val_less [of a] by simp
qed

lemma length_mul32_loop [len_simps]: "length (base_uint_mul32_loop c b a) = length a"
  by (induction c b a rule: base_uint_mul32_loop.induct) (simp_all add: Let_def)

text \<open>A limb product plus two limbs fits 64 bits.\<close>

lemma limb_mac_bound:
  assumes "x < limb_base" "y < limb_base" "a < limb_base" "b < limb_base"
  shows "x + y + a * b < limb_base * limb_base"
proof -
  have "a * b \<le> (limb_base - 1) * (limb_base - 1)"
    using assms by (intro mult_le_mono) simp_all
  then have "x + y + a * b \<le> (limb_base - 1) + (limb_base - 1) + (limb_base - 1) * (limb_base - 1)"
    using assms by linarith
  also have "\<dots> < limb_base * limb_base" by (simp add: limb_base_def)
  finally show ?thesis .
qed

lemma unat_mac:
  fixes c p :: uint64_t and a q :: uint32_t
  assumes "unat c < limb_base" "unat p < limb_base"
  shows "unat (c + p + ucast a * ucast q) = unat c + unat p + unat a * unat q"
    and "unat (drop_bit 32 (c + p + ucast a * ucast q)) < limb_base"
proof -
  have B: "unat c + unat p + unat a * unat q < limb_base * limb_base"
    using assms by (intro limb_mac_bound) simp_all
  then show eq: "unat (c + p + ucast a * ucast q) = unat c + unat p + unat a * unat q"
    by (simp add: unat_word_ariths limb_base_def)
  show "unat (drop_bit 32 (c + p + ucast a * ucast q)) < limb_base"
    using B by (simp add: unat_high_limb eq div_less_iff_less_mult)
qed

lemma val_mul32_loop:
  "unat c < limb_base \<Longrightarrow>
   limbs_val (base_uint_mul32_loop c b a) = (unat c + unat b * limbs_val a) mod limb_base ^ length a"
proof (induction c b a rule: base_uint_mul32_loop.induct)
  case (1 carry b32)
  then show ?case by simp
next
  case (2 carry b32 p pn)
  define n where "n = carry + ucast b32 * (ucast p :: uint64_t)"
  have N: "unat n = unat carry + unat b32 * unat p" and C: "unat (drop_bit 32 n) < limb_base"
    using unat_mac [of carry 0 b32 p] "2.prems" by (simp_all add: n_def)
  from 2 C have "limbs_val (base_uint_mul32_loop (drop_bit 32 n) b32 pn)
      = (unat n div limb_base + unat b32 * limbs_val pn) mod limb_base ^ length pn"
    by (simp add: unat_high_limb n_def)
  then have "limbs_val (base_uint_mul32_loop carry b32 (p # pn))
      = (unat n + limb_base * (unat b32 * limbs_val pn)) mod limb_base ^ Suc (length pn)"
    by (simp add: Let_def n_def [symmetric] unat_low_limb limb_step del: power_Suc)
  then show ?case
    by (simp add: N algebra_simps)
qed

lemma val_mul32 [val_simps]:
  "limbs_val (base_uint_mul32 a b) = (unat b * limbs_val a) mod limb_base ^ length a"
  by (simp add: base_uint_mul32_def val_mul32_loop)

lemma length_mul_row [len_simps]:
  "length p \<le> length b \<Longrightarrow> length (base_uint_mul_row c aj p b) = length p"
  by (induction c aj p b rule: base_uint_mul_row.induct) (simp_all add: Let_def)

lemma val_mul_row:
  "length p \<le> length b \<Longrightarrow> unat c < limb_base \<Longrightarrow>
   limbs_val (base_uint_mul_row c aj p b)
     = (unat c + limbs_val p + unat aj * limbs_val b) mod limb_base ^ length p"
proof (induction c aj p b rule: base_uint_mul_row.induct)
  case (1 carry aj p pn q bn)
  define n where "n = carry + ucast p + ucast aj * (ucast q :: uint64_t)"
  have N: "unat n = unat carry + unat p + unat aj * unat q" and C: "unat (drop_bit 32 n) < limb_base"
    using unat_mac [of carry "ucast p" aj q] "1.prems" by (simp_all add: n_def)
  from 1 C have "limbs_val (base_uint_mul_row (drop_bit 32 n) aj pn bn)
      = (unat n div limb_base + (limbs_val pn + unat aj * limbs_val bn)) mod limb_base ^ length pn"
    by (simp add: unat_high_limb n_def add.assoc)
  then have "limbs_val (base_uint_mul_row carry aj (p # pn) (q # bn))
      = (unat n + limb_base * (limbs_val pn + unat aj * limbs_val bn)) mod limb_base ^ Suc (length pn)"
    by (simp add: Let_def n_def [symmetric] unat_low_limb limb_step del: power_Suc)
  then show ?case
    by (simp add: N algebra_simps)
qed simp_all

abbreviation mul_row_at :: "base_uint \<Rightarrow> base_uint \<Rightarrow> base_uint \<Rightarrow> nat \<Rightarrow> base_uint" where
  "mul_row_at a b pn j \<equiv> take j pn @ base_uint_mul_row 0 (a ! j) (drop j pn) b"

lemma val_mul_row_at:
  assumes "length pn = length b" "j < length pn"
  shows "length (mul_row_at a b pn j) = length pn"
    and "limbs_val (mul_row_at a b pn j)
       = (limbs_val pn + limb_base ^ j * unat (a ! j) * limbs_val b) mod limb_base ^ length pn"
proof -
  have le: "length (drop j pn) \<le> length b" using assms by simp
  then show "length (mul_row_at a b pn j) = length pn"
    using assms by (simp add: len_simps)
  have split: "limbs_val pn = limbs_val (take j pn) + limb_base ^ j * limbs_val (drop j pn)"
    using limbs_val_append [of "take j pn" "drop j pn"] assms by simp
  have small: "limbs_val (take j pn) < limb_base ^ j"
    using limbs_val_less [of "take j pn"] assms by simp
  have pw: "limb_base ^ length pn = limb_base ^ j * limb_base ^ (length pn - j)"
    using assms by (simp flip: power_add)
  let ?x = "limbs_val (drop j pn) + unat (a ! j) * limbs_val b"
  have "limbs_val (mul_row_at a b pn j)
      = limbs_val (take j pn) + limb_base ^ j * (?x mod limb_base ^ (length pn - j))"
    using assms le by (simp add: limbs_val_append val_mul_row)
  also have "\<dots> = (limbs_val (take j pn) + limb_base ^ j * ?x) mod limb_base ^ length pn"
    unfolding pw mod_mult2_eq [of "limbs_val (take j pn) + limb_base ^ j * ?x"]
    using small by simp
  also have "limbs_val (take j pn) + limb_base ^ j * ?x
      = limbs_val pn + limb_base ^ j * unat (a ! j) * limbs_val b"
    by (simp add: split algebra_simps)
  finally show "limbs_val (mul_row_at a b pn j)
       = (limbs_val pn + limb_base ^ j * unat (a ! j) * limbs_val b) mod limb_base ^ length pn" .
qed

lemma mul_rows:
  assumes "length a = length b" "m \<le> length a"
  shows "length (foldl (mul_row_at a b) (replicate (length a) 0) [0..<m]) = length a
       \<and> limbs_val (foldl (mul_row_at a b) (replicate (length a) 0) [0..<m])
         = (limbs_val (take m a) * limbs_val b) mod limb_base ^ length a"
  using assms(2)
proof (induction m)
  case 0
  then show ?case by simp
next
  case (Suc m)
  let ?pn = "foldl (mul_row_at a b) (replicate (length a) 0) [0..<m]"
  have IH: "length ?pn = length a"
    "limbs_val ?pn = (limbs_val (take m a) * limbs_val b) mod limb_base ^ length a"
    using Suc by simp_all
  have m: "m < length ?pn" "length ?pn = length b" using IH Suc.prems assms by simp_all
  have "limbs_val (take (Suc m) a) = limbs_val (take m a) + limb_base ^ m * unat (a ! m)"
    using Suc.prems by (simp add: take_Suc_conv_app_nth limbs_val_append)
  then show ?case
    using val_mul_row_at [OF m(2,1), of a] IH
    by (simp add: mod_add_left_eq mod_add_right_eq algebra_simps)
qed

lemma length_mul [len_simps]: "length a = length b \<Longrightarrow> length (base_uint_mul a b) = length a"
  unfolding base_uint_mul_def using mul_rows [of a b "length a"] by simp

lemma val_mul [val_simps]:
  "length a = length b \<Longrightarrow>
   limbs_val (base_uint_mul a b) = (limbs_val a * limbs_val b) mod limb_base ^ length a"
  unfolding base_uint_mul_def using mul_rows [of a b "length a"] by simp

section \<open>Shifts\<close>

text \<open>Bits of a limb list.\<close>

lemma bit_limbs_val: "bit (limbs_val ws) n \<longleftrightarrow> n div 32 < length ws \<and> bit (ws ! (n div 32)) (n mod 32)"
proof (induction ws arbitrary: n)
  case Nil
  then show ?case by simp
next
  case (Cons w ws)
  have "limbs_val (w # ws) = unat w OR push_bit 32 (limbs_val ws)"
  proof -
    have "limbs_val (w # ws) = unat w + push_bit 32 (limbs_val ws)"
      by (simp add: push_bit_eq_mult limb_base_def)
    also have "\<dots> = unat w OR push_bit 32 (limbs_val ws)"
      by (rule disjunctive_add) (auto simp: bit_eq_iff bit_simps dest: bit_imp_le_length)
    finally show ?thesis .
  qed
  then have "bit (limbs_val (w # ws)) n
      \<longleftrightarrow> bit (unat w) n \<or> 32 \<le> n \<and> bit (limbs_val ws) (n - 32)"
    by (simp add: bit_simps)
  moreover have "bit (unat w) n \<longleftrightarrow> n < 32 \<and> bit w n"
    by (auto simp: bit_simps dest: bit_imp_le_length)
  moreover have "n div 32 = Suc ((n - 32) div 32)" "(n - 32) mod 32 = n mod 32" if "32 \<le> n"
    using that by (simp_all add: le_div_geq le_mod_geq)
  ultimately show ?case
    using Cons.IH [of "n - 32"] by (cases "n < 32") (auto simp del: limbs_val_Cons)
qed

lemma length_shl_step [len_simps]: "length (base_uint_shl_step a k s pn i) = length pn"
  by (simp add: base_uint_shl_step_def Let_def)

lemma nth_shl_step:
  "length pn = length a \<Longrightarrow> j < length a \<Longrightarrow> base_uint_shl_step a k s pn i ! j =
     pn ! j OR (if j = i + k then push_bit s (a ! i) else 0)
            OR (if s \<noteq> 0 \<and> j = i + k + 1 then drop_bit (32 - s) (a ! i) else 0)"
  by (auto simp: base_uint_shl_step_def Let_def nth_list_update)

lemma length_shl_fold [len_simps]: "length (foldl (base_uint_shl_step a k s) pn is) = length pn"
  by (induction "is" arbitrary: pn) (simp_all add: len_simps)

lemma nth_shl_fold:
  "j < length a \<Longrightarrow>
   foldl (base_uint_shl_step a k s) (replicate (length a) 0) [0..<m] ! j =
      (if k \<le> j \<and> j < m + k then push_bit s (a ! (j - k)) else 0)
      OR (if s \<noteq> 0 \<and> k + 1 \<le> j \<and> j < m + k + 1 then drop_bit (32 - s) (a ! (j - k - 1)) else 0)"
proof (induction m)
  case 0
  then show ?case by auto
next
  case (Suc m)
  then show ?case
    by (auto simp: nth_shl_step len_simps less_Suc_eq or.assoc or.commute)
qed

lemma length_shl [len_simps]: "length (base_uint_shl a n) = length a"
  by (simp add: base_uint_shl_def len_simps)

lemma nth_shl:
  "j < length a \<Longrightarrow> base_uint_shl a n ! j =
      (if n div 32 \<le> j then push_bit (n mod 32) (a ! (j - n div 32)) else 0)
      OR (if n mod 32 \<noteq> 0 \<and> n div 32 + 1 \<le> j then drop_bit (32 - n mod 32) (a ! (j - n div 32 - 1)) else 0)"
  by (simp add: base_uint_shl_def nth_shl_fold)

lemma bit_push_bit_limb: "r < 32 \<Longrightarrow> bit (push_bit s w :: uint32_t) r \<longleftrightarrow> s \<le> r \<and> bit w (r - s)"
  by (simp add: bit_simps)

lemma bit_drop_bit_limb:
  "s < 32 \<Longrightarrow> s \<noteq> 0 \<Longrightarrow> bit (drop_bit (32 - s) w :: uint32_t) r \<longleftrightarrow> r < s \<and> bit w (32 - s + r)"
  by (auto simp: bit_simps dest: bit_imp_le_length)

lemma bit_shl:
  "bit (limbs_val (base_uint_shl a n)) i \<longleftrightarrow> i < 32 * length a \<and> n \<le> i \<and> bit (limbs_val a) (i - n)"
proof (cases "i div 32 < length a")
  case False
  then show ?thesis by (auto simp: bit_limbs_val len_simps)
next
  case True
  define k s j r where "k = n div 32" and "s = n mod 32" and "j = i div 32" and "r = i mod 32"
  have n: "n = 32 * k + s" "s < 32" and i: "i = 32 * j + r" "r < 32"
    by (simp_all add: k_def s_def j_def r_def)
  have "bit (limbs_val (base_uint_shl a n)) i \<longleftrightarrow>
      k \<le> j \<and> s \<le> r \<and> bit (a ! (j - k)) (r - s) \<or>
      s \<noteq> 0 \<and> k + 1 \<le> j \<and> r < s \<and> bit (a ! (j - k - 1)) (32 - s + r)"
    using True n i
    by (simp add: bit_limbs_val len_simps nth_shl k_def [symmetric] s_def [symmetric]
        j_def [symmetric] r_def [symmetric] bit_or_iff bit_push_bit_limb bit_drop_bit_limb)
  moreover have "n \<le> i \<longleftrightarrow> k < j \<or> k = j \<and> s \<le> r"
    using n i by auto
  moreover have "(i - n) div 32 = j - k \<and> (i - n) mod 32 = r - s" if "k \<le> j" "s \<le> r"
  proof -
    have "i - n = 32 * (j - k) + (r - s)" using n i that by simp
    then show ?thesis using i by simp
  qed
  moreover have "(i - n) div 32 = j - k - 1 \<and> (i - n) mod 32 = 32 - s + r" if "k < j" "r < s"
  proof -
    have "i - n = 32 * (j - k - 1) + (32 - s + r)" "32 - s + r < 32" using n i that by simp_all
    then show ?thesis by (simp only: div_mult_self4 mod_mult_self4 div_less mod_less) simp
  qed
  ultimately show ?thesis
    using True n i unfolding bit_limbs_val j_def [symmetric] r_def [symmetric]
    by (cases "s \<le> r") (auto simp: not_le)
qed

lemma limbs_val_shl [val_simps]:
  "limbs_val (base_uint_shl a n) = (limbs_val a * 2 ^ n) mod limb_base ^ length a"
proof -
  have "limbs_val (base_uint_shl a n) = take_bit (32 * length a) (push_bit n (limbs_val a))"
    by (rule bit_eqI) (auto simp: bit_shl bit_simps)
  then show ?thesis by (simp add: push_bit_eq_mult take_bit_eq_mod limb_base_power)
qed

lemma length_shr_step [len_simps]: "length (base_uint_shr_step a k s pn i) = length pn"
  by (simp add: base_uint_shr_step_def Let_def)

lemma nth_shr_step:
  "length pn = length a \<Longrightarrow> i < length a \<Longrightarrow> j < length a \<Longrightarrow> base_uint_shr_step a k s pn i ! j =
     pn ! j OR (if i = j + k then drop_bit s (a ! i) else 0)
            OR (if s \<noteq> 0 \<and> i = j + k + 1 then push_bit (32 - s) (a ! i) else 0)"
  by (auto simp: base_uint_shr_step_def Let_def nth_list_update)

lemma length_shr_fold [len_simps]: "length (foldl (base_uint_shr_step a k s) pn is) = length pn"
  by (induction "is" arbitrary: pn) (simp_all add: len_simps)

lemma nth_shr_fold:
  "j < length a \<Longrightarrow> m \<le> length a \<Longrightarrow>
   foldl (base_uint_shr_step a k s) (replicate (length a) 0) [0..<m] ! j =
      (if j + k < m then drop_bit s (a ! (j + k)) else 0)
      OR (if s \<noteq> 0 \<and> j + k + 1 < m then push_bit (32 - s) (a ! (j + k + 1)) else 0)"
proof (induction m)
  case 0
  then show ?case by simp
next
  case (Suc m)
  then show ?case
    by (auto simp: nth_shr_step len_simps less_Suc_eq or.assoc or.commute)
qed

lemma length_shr [len_simps]: "length (base_uint_shr a n) = length a"
  by (simp add: base_uint_shr_def len_simps)

lemma nth_shr:
  "j < length a \<Longrightarrow> base_uint_shr a n ! j =
      (if j + n div 32 < length a then drop_bit (n mod 32) (a ! (j + n div 32)) else 0)
      OR (if n mod 32 \<noteq> 0 \<and> j + n div 32 + 1 < length a
          then push_bit (32 - n mod 32) (a ! (j + n div 32 + 1)) else 0)"
  by (simp add: base_uint_shr_def nth_shr_fold)

lemma bit_shr: "bit (limbs_val (base_uint_shr a n)) i \<longleftrightarrow> bit (limbs_val a) (n + i)"
proof (cases "i div 32 < length a")
  case False
  then have "\<not> (n + i) div 32 < length a"
    by (meson div_le_mono le_add2 le_less_trans)
  then show ?thesis using False by (simp add: bit_limbs_val len_simps)
next
  case True
  define k s j r where "k = n div 32" and "s = n mod 32" and "j = i div 32" and "r = i mod 32"
  have n: "n = 32 * k + s" "s < 32" and i: "i = 32 * j + r" "r < 32"
    by (simp_all add: k_def s_def j_def r_def)
  have "bit (limbs_val (base_uint_shr a n)) i \<longleftrightarrow>
      j + k < length a \<and> s + r < 32 \<and> bit (a ! (j + k)) (s + r) \<or>
      s \<noteq> 0 \<and> j + k + 1 < length a \<and> 32 - s \<le> r \<and> bit (a ! (j + k + 1)) (r - (32 - s))"
    using True n i
    by (auto simp: bit_limbs_val len_simps nth_shr k_def [symmetric] s_def [symmetric]
        j_def [symmetric] r_def [symmetric] bit_or_iff bit_push_bit_limb bit_drop_bit_eq
        dest: bit_imp_le_length)
  moreover have "(n + i) div 32 = j + k \<and> (n + i) mod 32 = s + r" if "s + r < 32"
  proof -
    have "n + i = 32 * (j + k) + (s + r)" using n i by simp
    then show ?thesis using that by (simp only: div_mult_self4 mod_mult_self4 div_less mod_less) simp
  qed
  moreover have "(n + i) div 32 = j + k + 1 \<and> (n + i) mod 32 = r - (32 - s)" if "\<not> s + r < 32"
  proof -
    have "n + i = 32 * (j + k + 1) + (r - (32 - s))" "r - (32 - s) < 32" using n i that by simp_all
    then show ?thesis by (simp only: div_mult_self4 mod_mult_self4 div_less mod_less) simp
  qed
  ultimately show ?thesis
    using n i unfolding bit_limbs_val j_def [symmetric] r_def [symmetric]
    by (cases "s + r < 32") auto
qed

lemma limbs_val_shr [val_simps]: "limbs_val (base_uint_shr a n) = limbs_val a div 2 ^ n"
proof -
  have "limbs_val (base_uint_shr a n) = drop_bit n (limbs_val a)"
    by (rule bit_eqI) (auto simp: bit_shr bit_simps)
  then show ?thesis by (simp add: drop_bit_eq_div)
qed

section \<open>Comparison and bit length\<close>

text \<open>The comparison decides the order of the values.\<close>

lemma limbs_val_take_Suc:
  "i < length a \<Longrightarrow> limbs_val (take (Suc i) a) = limbs_val (take i a) + limb_base ^ i * unat (a ! i)"
  by (simp add: take_Suc_conv_app_nth limbs_val_append)

lemma limbs_val_take_less: "i \<le> length a \<Longrightarrow> limbs_val (take i a) < limb_base ^ i"
  using limbs_val_less [of "take i a"] by simp

lemma digit_less:
  fixes x y :: nat
  assumes "x < B" "u < v"
  shows "x + B * u < y + B * v"
proof -
  have "x + B * u < B * (u + 1)" using assms by simp
  also have "\<dots> \<le> B * v" using assms by (intro mult_le_mono) simp_all
  finally show ?thesis by simp
qed

lemma compare_loop:
  "i \<le> length a \<Longrightarrow> length a = length b \<Longrightarrow>
   base_uint_compare_loop i a b = sgn (int (limbs_val (take i a)) - int (limbs_val (take i b)))"
proof (induction i)
  case 0
  then show ?case by simp
next
  case (Suc i)
  then have i: "i < length a" "i < length b" by simp_all
  note less = limbs_val_take_less [of i]
  consider (lt) "a ! i < b ! i" | (gt) "b ! i < a ! i" | (eq) "a ! i = b ! i"
    by (meson linorder_less_linear)
  then show ?case
  proof cases
    case lt
    then have "limbs_val (take (Suc i) a) < limbs_val (take (Suc i) b)"
      using i less [of a] by (simp add: limbs_val_take_Suc digit_less word_less_nat_alt)
    with lt show ?thesis by simp
  next
    case gt
    then have "limbs_val (take (Suc i) b) < limbs_val (take (Suc i) a)"
      using i less [of b] by (simp add: limbs_val_take_Suc digit_less word_less_nat_alt)
    with gt show ?thesis by simp
  next
    case eq
    then show ?thesis using Suc i by (simp add: limbs_val_take_Suc)
  qed
qed

lemma compare_sgn:
  "length a = length b \<Longrightarrow> base_uint_compare a b = sgn (int (limbs_val a) - int (limbs_val b))"
  by (simp add: base_uint_compare_def compare_loop)

lemma compare_ge: "length a = length b \<Longrightarrow> base_uint_compare a b \<ge> 0 \<longleftrightarrow> limbs_val b \<le> limbs_val a"
  by (auto simp: compare_sgn sgn_if)

lemma compare_gt: "length a = length b \<Longrightarrow> base_uint_compare a b > 0 \<longleftrightarrow> limbs_val b < limbs_val a"
  by (simp add: compare_sgn)

text \<open>\<open>bits\<close> is the bit length.\<close>

lemma limb_bits_correct:
  "w \<noteq> 0 \<Longrightarrow> unat w < 2 ^ Suc k \<Longrightarrow> k < 32 \<Longrightarrow>
   2 ^ (limb_bits k w - 1) \<le> unat w \<and> unat w < 2 ^ limb_bits k w \<and> 1 \<le> limb_bits k w" for w :: uint32_t
proof (induction k)
  case 0
  then show ?case by (simp add: Suc_le_eq unat_gt_0)
next
  case (Suc k)
  have bit: "w AND push_bit (Suc k) 1 \<noteq> 0 \<longleftrightarrow> bit w (Suc k)"
    using Suc.prems by (simp add: bit_iff_and_push_bit_not_eq_0)
  have le: "bit w (Suc k) \<longleftrightarrow> 2 ^ Suc k \<le> unat w"
  proof -
    have "bit w (Suc k) \<longleftrightarrow> bit (unat w) (Suc k)"
      using Suc.prems by (simp add: bit_unsigned_iff)
    then have "bit w (Suc k) \<longleftrightarrow> odd (unat w div 2 ^ Suc k)"
      by (simp only: bit_iff_odd)
    moreover have "unat w div 2 ^ Suc k < 2"
      using Suc.prems by (simp add: div_less_iff_less_mult)
    then have "odd (unat w div 2 ^ Suc k) \<longleftrightarrow> 0 < unat w div 2 ^ Suc k"
      by (auto simp: less_Suc_eq numeral_2_eq_2 simp del: power_Suc)
    ultimately show ?thesis by (simp add: div_greater_zero_iff del: power_Suc)
  qed
  show ?case
  proof (cases "bit w (Suc k)")
    case True
    then show ?thesis using bit le Suc.prems by simp
  next
    case False
    then show ?thesis using bit le Suc by simp
  qed
qed


lemma limb_bits_31:
  "w \<noteq> 0 \<Longrightarrow> 2 ^ (limb_bits 31 w - 1) \<le> unat w \<and> unat w < 2 ^ limb_bits 31 w \<and> 1 \<le> limb_bits 31 w"
  using limb_bits_correct [of w 31] unat32_less [of w] by (simp add: limb_base_def)

lemma bits_loop:
  "i \<le> length a \<Longrightarrow>
   (limbs_val (take i a) = 0 \<longleftrightarrow> base_uint_bits_loop i a = 0) \<and>
   limbs_val (take i a) < 2 ^ base_uint_bits_loop i a \<and>
   (limbs_val (take i a) \<noteq> 0 \<longrightarrow> 2 ^ (base_uint_bits_loop i a - 1) \<le> limbs_val (take i a))"
proof (induction i)
  case 0
  then show ?case by simp
next
  case (Suc i)
  then have i: "i < length a" by simp
  show ?case
  proof (cases "a ! i = 0")
    case True
    then show ?thesis using Suc i by (auto simp: limbs_val_take_Suc)
  next
    case False
    let ?l = "limb_bits 31 (a ! i)"
    have l: "2 ^ (?l - 1) \<le> unat (a ! i)" "unat (a ! i) < 2 ^ ?l" "1 \<le> ?l"
      using limb_bits_31 [OF False] by simp_all
    have v: "limbs_val (take (Suc i) a) = limbs_val (take i a) + 2 ^ (32 * i) * unat (a ! i)"
      using i by (simp add: limbs_val_take_Suc limb_base_power)
    have "limbs_val (take (Suc i) a) < 2 ^ (32 * i) * (unat (a ! i) + 1)"
      using v limbs_val_take_less [of i a] i by (simp add: limb_base_power)
    also have "\<dots> \<le> 2 ^ (32 * i) * 2 ^ ?l"
      using l by (intro mult_le_mono) simp_all
    finally have up: "limbs_val (take (Suc i) a) < 2 ^ (32 * i + ?l)" by (simp add: power_add)
    have "(2 :: nat) ^ (32 * i + ?l - 1) = 2 ^ (32 * i) * 2 ^ (?l - 1)"
      using l by (simp flip: power_add)
    also have "\<dots> \<le> 2 ^ (32 * i) * unat (a ! i)"
      using l by (intro mult_le_mono) simp_all
    also have "\<dots> \<le> limbs_val (take (Suc i) a)" using v by simp
    finally have lo: "2 ^ (32 * i + ?l - 1) \<le> limbs_val (take (Suc i) a)" .
    then have "limbs_val (take (Suc i) a) \<noteq> 0"
      by (metis le_zero_eq power_not_zero zero_neq_numeral)
    with up lo l False show ?thesis by simp
  qed
qed

lemma bits_eq_0_iff: "base_uint_bits a = 0 \<longleftrightarrow> limbs_val a = 0"
  using bits_loop [of "length a" a] by (simp add: base_uint_bits_def)

lemma bits_upper: "limbs_val a < 2 ^ base_uint_bits a"
  using bits_loop [of "length a" a] by (simp add: base_uint_bits_def)

lemma bits_lower: "limbs_val a \<noteq> 0 \<Longrightarrow> 2 ^ (base_uint_bits a - 1) \<le> limbs_val a"
  using bits_loop [of "length a" a] by (simp add: base_uint_bits_def)

lemma bits_le: "base_uint_bits a \<le> 32 * length a"
proof (cases "limbs_val a = 0")
  case True
  then show ?thesis using bits_eq_0_iff [of a] by simp
next
  case False
  have "(2 :: nat) ^ (base_uint_bits a - 1) < 2 ^ (32 * length a)"
    using le_less_trans [OF bits_lower [OF False] limbs_val_less] by (simp add: limb_base_power)
  then show ?thesis by simp
qed

lemma length_decr [len_simps]: "length (base_uint_decr a) = length a"
  by (induction a) simp_all

lemma val_decr [val_simps]:
  "limbs_val (base_uint_decr a) = (limbs_val a + limb_base ^ length a - 1) mod limb_base ^ length a"
proof (induction a)
  case Nil
  then show ?case by simp
next
  case (Cons p pn)
  let ?B = "limb_base ^ length pn"
  show ?case
  proof (cases "p = 0")
    case True
    have B: "1 \<le> ?B" by (simp add: Suc_le_eq)
    have m1: "unat (- 1 :: uint32_t) = limb_base - 1"
      by (simp add: unsigned_minus_1_eq_mask mask_eq_exp_minus_1 limb_base_def)
    have "limbs_val (base_uint_decr (p # pn))
        = (limb_base - 1) + limb_base * ((limbs_val pn + ?B - 1) mod ?B)"
      using True Cons m1 by simp
    also have "\<dots> = ((limb_base - 1) + limb_base * (limbs_val pn + ?B - 1)) mod limb_base ^ Suc (length pn)"
      using limb_step [of "limb_base - 1" "limbs_val pn + ?B - 1" "length pn"] by simp
    also have "(limb_base - 1) + limb_base * (limbs_val pn + ?B - 1)
        = limb_base * (limbs_val pn + ?B) - 1"
    proof -
      have "limb_base * 1 \<le> limb_base * (limbs_val pn + ?B)" using B by (intro mult_le_mono) simp_all
      then show ?thesis by (simp add: diff_mult_distrib2) (use limb_base_gt1 in linarith)
    qed
    finally show ?thesis using True by (simp add: algebra_simps)
  next
    case False
    then have "p - 1 \<noteq> - 1" by simp
    moreover have "unat (p - 1) = unat p - 1" and "1 \<le> unat p"
      using False by (simp_all add: unat_minus_one Suc_le_eq unat_gt_0)
    ultimately have "limbs_val (base_uint_decr (p # pn)) = limbs_val (p # pn) - 1" by simp
    moreover have "limbs_val (p # pn) + limb_base ^ length (p # pn) - 1
        = limbs_val (p # pn) - 1 + limb_base ^ length (p # pn)"
      using \<open>1 \<le> unat p\<close> by simp
    moreover have "limbs_val (p # pn) - 1 < limb_base ^ length (p # pn)"
      using limbs_val_less [of "p # pn"] by linarith
    ultimately show ?thesis by (simp only: mod_add_self2 mod_less)
  qed
qed

lemma is_zero_iff: "base_uint_is_zero a \<longleftrightarrow> limbs_val a = 0"
  by (induction a) (simp_all add: unat_eq_0)

lemma equal_u64_iff:
  assumes "2 \<le> length a"
  shows "base_uint_equal_u64 a b \<longleftrightarrow> limbs_val a = unat b"
proof -
  obtain p q r where a: "a = p # q # r"
    using assms by (metis Suc_le_length_iff numeral_2_eq_2)
  have r: "list_ex (\<lambda>p. p \<noteq> 0) r \<longleftrightarrow> limbs_val r \<noteq> 0"
    by (auto simp: list_ex_iff limbs_val_eq_0_iff)
  have "b AND 0xffffffff = take_bit 32 b"
    by (simp add: take_bit_eq_mask mask_eq_exp_minus_1)
  then have lo: "unat (b AND 0xffffffff) = unat b mod limb_base"
    by (simp only: unsigned_take_bit_eq) (simp add: take_bit_eq_mod limb_base_def)
  have "unat b div limb_base < limb_base"
    using unsigned_less [of b] by (simp add: limb_base_def div_less_iff_less_mult)
  moreover have split: "unat b = unat b mod limb_base + limb_base * (unat b div limb_base)"
    by simp
  ultimately have "limbs_val a = unat b \<longleftrightarrow> unat p = unat b mod limb_base \<and> unat q = unat b div limb_base \<and> limbs_val r = 0"
    (is "?l \<longleftrightarrow> ?r")
  proof -
    have "?l \<Longrightarrow> ?r"
    proof -
      assume l: ?l
      then have "unat p = unat b mod limb_base" and bd: "unat q + limb_base * limbs_val r = unat b div limb_base"
        by (simp_all add: a flip: l)
      moreover have "limbs_val r = 0"
        using bd \<open>unat b div limb_base < limb_base\<close> by (cases "limbs_val r") simp_all
      ultimately show ?r by simp
    qed
    then show ?thesis using split by (auto simp: a)
  qed
  then show ?thesis
    by (simp add: base_uint_equal_u64_def a r lo unat_high_limb word_unat_eq_iff [where 'a = 64] del: limbs_val_Cons)
qed

lemma val_bitwise [val_simps]:
  assumes "length a = length b"
  shows "limbs_val (base_uint_and a b) = limbs_val a AND limbs_val b"
    and "limbs_val (base_uint_or a b) = limbs_val a OR limbs_val b"
    and "limbs_val (base_uint_xor a b) = limbs_val a XOR limbs_val b"
  using assms
  by (auto intro!: bit_eqI simp: bit_limbs_val base_uint_and_def base_uint_or_def base_uint_xor_def
      bit_and_iff bit_or_iff bit_xor_iff)

section \<open>Division\<close>

lemma length_limb_set_bit [len_simps]: "length (limb_set_bit q n) = length q"
  by (simp add: limb_set_bit_def)

lemma bit_limb_set_bit:
  "n < 32 * length q \<Longrightarrow> bit (limbs_val (limb_set_bit q n)) i \<longleftrightarrow> bit (limbs_val q) i \<or> i = n"
proof -
  assume n: "n < 32 * length q"
  have eq: "i = n \<longleftrightarrow> i div 32 = n div 32 \<and> i mod 32 = n mod 32"
    by (metis div_mult_mod_eq)
  show ?thesis
    unfolding eq using n
    by (auto simp: bit_limbs_val limb_set_bit_def nth_list_update bit_or_iff bit_exp_iff
        less_mult_imp_div_less mult.commute)
qed

lemma val_limb_set_bit:
  assumes "n < 32 * length q" and "2 ^ Suc n dvd limbs_val q"
  shows "limbs_val (limb_set_bit q n) = limbs_val q + 2 ^ n"
proof -
  obtain c where c: "limbs_val q = 2 ^ Suc n * c" using assms(2) by (rule dvdE)
  have "\<not> bit (limbs_val q) n"
    by (simp add: c bit_iff_odd)
  then have "limbs_val q + 2 ^ n = limbs_val q OR 2 ^ n"
    by (intro disjunctive_add_eq_or bit_eqI) (auto simp: bit_simps)
  also have "\<dots> = limbs_val (limb_set_bit q n)"
    by (rule bit_eqI) (use assms(1) in \<open>auto simp: bit_limb_set_bit bit_simps\<close>)
  finally show ?thesis by simp
qed

lemma div_loop_correct:
  assumes "length num = length q" "length dv = length q" "0 < D" "n \<le> 32 * length q"
    and "n \<noteq> 0 \<Longrightarrow> limbs_val dv = D * 2 ^ (n - 1)" "limbs_val num < D * 2 ^ n" "2 ^ n dvd limbs_val q"
  shows "length (fst (base_uint_div_loop n q num dv)) = length q \<and>
         limbs_val (fst (base_uint_div_loop n q num dv)) = limbs_val q + limbs_val num div D \<and>
         limbs_val (snd (base_uint_div_loop n q num dv)) = limbs_val num mod D"
  using assms
proof (induction n arbitrary: q num dv)
  case 0
  then show ?case by simp
next
  case (Suc n)
  have dv: "limbs_val dv = D * 2 ^ n" using Suc.prems(5) by simp
  have dvd: "2 ^ n dvd limbs_val q" using Suc.prems(7) by (metis dvd_mult_right power_Suc)
  have dv': "n \<noteq> 0 \<Longrightarrow> limbs_val (base_uint_shr dv 1) = D * 2 ^ (n - 1)"
    by (cases n) (simp_all add: val_simps dv)
  show ?case
  proof (cases "limbs_val dv \<le> limbs_val num")
    case True
    have num: "limbs_val (base_uint_sub num dv) = limbs_val num - D * 2 ^ n"
      using True Suc.prems by (simp add: val_sub_no_borrow dv)
    have q: "limbs_val (limb_set_bit q n) = limbs_val q + 2 ^ n"
      using Suc.prems by (intro val_limb_set_bit) simp_all
    have eq: "limbs_val num = (limbs_val num - D * 2 ^ n) + 2 ^ n * D"
      using True dv by (simp add: mult.commute)
    have "length (fst (base_uint_div_loop n (limb_set_bit q n) (base_uint_sub num dv) (base_uint_shr dv 1))) = length (limb_set_bit q n) \<and>
        limbs_val (fst (base_uint_div_loop n (limb_set_bit q n) (base_uint_sub num dv) (base_uint_shr dv 1)))
          = limbs_val (limb_set_bit q n) + limbs_val (base_uint_sub num dv) div D \<and>
        limbs_val (snd (base_uint_div_loop n (limb_set_bit q n) (base_uint_sub num dv) (base_uint_shr dv 1)))
          = limbs_val (base_uint_sub num dv) mod D"
      using Suc.prems True dv' dvd
      by (intro Suc.IH) (simp_all add: len_simps num q dv less_diff_conv2)
    moreover have "limbs_val num div D = 2 ^ n + (limbs_val num - D * 2 ^ n) div D"
      "limbs_val num mod D = (limbs_val num - D * 2 ^ n) mod D"
      using \<open>0 < D\<close> arg_cong [OF eq, of "\<lambda>x. x div D"] arg_cong [OF eq, of "\<lambda>x. x mod D"] by simp_all
    ultimately show ?thesis
      using True Suc.prems by (simp add: compare_ge q num len_simps)
  next
    case False
    then show ?thesis
      using Suc.IH [of num q "base_uint_shr dv 1"] Suc.prems dv' dvd
      by (simp add: compare_ge len_simps dv)
  qed
qed

lemma div_by_zero: "limbs_val b = 0 \<Longrightarrow> base_uint_div a b = Inl (Throw ''Division by zero'')"
  by (simp add: base_uint_div_def bits_eq_0_iff)

lemma div_correct:
  assumes "length a = length b" "limbs_val b \<noteq> 0"
  obtains q where "base_uint_div a b = Inr q" "length q = length a" "limbs_val q = limbs_val a div limbs_val b"
proof (cases "base_uint_bits b > base_uint_bits a")
  case True
  have "limbs_val a < 2 ^ base_uint_bits a" by (rule bits_upper)
  also have "\<dots> \<le> 2 ^ (base_uint_bits b - 1)" using True by (intro power_increasing) simp_all
  also have "\<dots> \<le> limbs_val b" using assms(2) by (rule bits_lower)
  finally have "limbs_val a div limbs_val b = 0" by simp
  then show ?thesis
    using True that [of "replicate (length a) 0"] assms
    by (simp add: base_uint_div_def base_uint_zero_def bits_eq_0_iff)
next
  case False
  let ?s = "base_uint_bits a - base_uint_bits b"
  have b0: "base_uint_bits b \<noteq> 0" using assms by (simp add: bits_eq_0_iff)
  have "limbs_val b * 2 ^ ?s < 2 ^ base_uint_bits b * 2 ^ ?s"
    using bits_upper [of b] by simp
  also have "\<dots> = 2 ^ base_uint_bits a" using False by (simp flip: power_add)
  also have "\<dots> \<le> limb_base ^ length b"
    using bits_le [of a] assms by (simp add: limb_base_power)
  finally have shl: "limbs_val (base_uint_shl b ?s) = limbs_val b * 2 ^ ?s"
    by (simp add: val_simps)
  have "limbs_val a < 2 ^ base_uint_bits a" by (rule bits_upper)
  also have "\<dots> = 2 ^ (base_uint_bits b - 1) * 2 ^ Suc ?s"
    using False b0 by (simp flip: power_add power_Suc)
  also have "\<dots> \<le> limbs_val b * 2 ^ Suc ?s"
    using bits_lower [OF assms(2)] by (rule mult_le_mono1)
  finally have lt: "limbs_val a < limbs_val b * 2 ^ Suc ?s" .
  have "Suc ?s \<le> 32 * length a" using bits_le [of a] False b0 by simp
  then have "length (fst (base_uint_div_loop (Suc ?s) (base_uint_zero (length a)) a (base_uint_shl b ?s))) = length a \<and>
      limbs_val (fst (base_uint_div_loop (Suc ?s) (base_uint_zero (length a)) a (base_uint_shl b ?s)))
        = limbs_val a div limbs_val b"
    using div_loop_correct [of a "base_uint_zero (length a)" "base_uint_shl b ?s" "limbs_val b" "Suc ?s"]
      assms shl lt by (simp add: base_uint_zero_def len_simps)
  then show ?thesis
    using that [of "fst (base_uint_div_loop (Suc ?s) (base_uint_zero (length a)) a (base_uint_shl b ?s))"]
      False b0 by (simp add: base_uint_div_def Let_def)
qed

section \<open>The compact format is decoded and encoded as documented\<close>

lemma length_of_u64 [len_simps]: "2 \<le> width \<Longrightarrow> length (base_uint_of_u64 width b) = width"
  by (simp add: base_uint_of_u64_def)

lemma val_of_u64 [val_simps]: "limbs_val (base_uint_of_u64 width b) = unat b"
proof -
  have "unat b div limb_base < limb_base"
    using unsigned_less [of b] by (simp add: limb_base_def div_less_iff_less_mult)
  then show ?thesis
    by (simp add: base_uint_of_u64_def unat_ucast_32 unat_high_limb)
qed

lemma low64_val:
  assumes "2 \<le> length a"
  shows "unat (base_uint_low64 a) = limbs_val a mod 2 ^ 64"
proof -
  obtain p q r where a: "a = p # q # r"
    using assms by (metis Suc_le_length_iff numeral_2_eq_2)
  have "unat (base_uint_low64 a) = take_bit 64 (limbs_val a)"
  proof (rule bit_eqI)
    fix n
    show "bit (unat (base_uint_low64 a)) n \<longleftrightarrow> bit (take_bit 64 (limbs_val a)) n"
    proof (cases "n < 32")
      case True
      then show ?thesis
        by (simp add: base_uint_low64_def a bit_simps bit_limbs_val del: limbs_val_Cons)
    next
      case False
      then have "n < 64 \<Longrightarrow> n div 32 = 1 \<and> n mod 32 = n - 32"
        by (simp add: div_nat_eqI le_mod_geq)
      then show ?thesis using False
        by (auto simp: base_uint_low64_def a bit_simps bit_limbs_val simp del: limbs_val_Cons dest: bit_imp_le_length)
    qed
  qed
  then show ?thesis by (simp add: take_bit_eq_mod)
qed

lemma compact_mantissa: "unat (nc AND 0x007fffff) = unat nc mod 2 ^ 23" for nc :: uint32_t
proof -
  have "nc AND 0x007fffff = take_bit 23 nc" by (simp add: take_bit_eq_mask mask_eq_exp_minus_1)
  then show ?thesis by (simp only: unsigned_take_bit_eq) (simp add: take_bit_eq_mod)
qed

lemma compact_exponent: "unat (drop_bit 24 nc) = unat nc div 2 ^ 24" for nc :: uint32_t
  by (rule unat_drop_bit)

lemma compact_sign: "nc AND 0x00800000 \<noteq> 0 \<longleftrightarrow> odd (unat nc div 2 ^ 23)" for nc :: uint32_t
proof -
  have "nc AND 0x00800000 \<noteq> 0 \<longleftrightarrow> bit nc 23"
    using bit_iff_and_push_bit_not_eq_0 [of nc 23] by simp
  also have "\<dots> \<longleftrightarrow> bit (unat nc) 23" by (simp add: bit_unsigned_iff)
  also have "\<dots> \<longleftrightarrow> odd (unat nc div 2 ^ 23)" by (rule bit_iff_odd)
  finally show ?thesis .
qed

lemma compact_high: "nc AND NOT 0x007fffff \<noteq> 0 \<longleftrightarrow> 2 ^ 23 \<le> unat nc" for nc :: uint32_t
proof -
  have "nc AND NOT 0x007fffff = 0 \<longleftrightarrow> nc AND 0x007fffff = nc"
    by (auto simp: bit_eq_iff bit_simps)
  also have "\<dots> \<longleftrightarrow> unat nc mod 2 ^ 23 = unat nc"
    by (metis compact_mantissa word_unat_eq_iff)
  also have "\<dots> \<longleftrightarrow> unat nc < 2 ^ 23" by (metis mod_less mod_less_divisor zero_less_numeral zero_less_power)
  finally show ?thesis by (simp add: not_less)
qed


lemma compact_value_le3:
  "compact_size nc \<le> 3 \<Longrightarrow> compact_value nc = compact_mant nc div 256 ^ (3 - compact_size nc)"
proof -
  assume le: "compact_size nc \<le> 3"
  then have "(256 :: nat) ^ 3 = 256 ^ (3 - compact_size nc) * 256 ^ compact_size nc"
    by (simp flip: power_add)
  then show ?thesis by (metis compact_value_def div_mult_mult2 power_not_zero zero_neq_numeral)
qed

lemma compact_value_gt3:
  "3 < compact_size nc \<Longrightarrow> compact_value nc = compact_mant nc * 256 ^ (compact_size nc - 3)"
proof -
  assume "3 < compact_size nc"
  then have "(256 :: nat) ^ compact_size nc = 256 ^ (compact_size nc - 3) * 256 ^ 3"
    by (metis le_add_diff_inverse2 less_imp_le power_add)
  then show ?thesis by (simp only: compact_value_def) (simp flip: mult.assoc)
qed

text \<open>The overflow test of \<open>SetCompact\<close>, on the mantissa and exponent.\<close>

lemma compact_overflow_iff:
  fixes m s :: nat
  assumes "3 < s" "m < 2 ^ 23"
  shows "m * 256 ^ (s - 3) \<ge> 2 ^ 256 \<longleftrightarrow> m \<noteq> 0 \<and> (s > 34 \<or> m > 0xff \<and> s > 33 \<or> m > 0xffff \<and> s > 32)"
    (is "_ \<longleftrightarrow> ?ovf")
proof
  assume ovf: ?ovf
  have mono: "(2 :: nat) ^ k * 256 ^ (t - 3) \<le> m * 256 ^ (s - 3)" if "2 ^ k \<le> m" "t \<le> s" for k t
    using that by (intro mult_le_mono power_increasing diff_le_mono) simp_all
  from ovf show "m * 256 ^ (s - 3) \<ge> 2 ^ 256"
    using mono [of 0 35] mono [of 8 34] mono [of 16 33] by (auto simp: Suc_le_eq)
next
  assume le: "m * 256 ^ (s - 3) \<ge> 2 ^ 256"
  have mono: "m * 256 ^ (s - 3) < 2 ^ 256" if "m < 2 ^ k" "s \<le> t" "2 ^ k * 256 ^ (t - 3) \<le> (2 :: nat) ^ 256" for k t
  proof -
    have "m * 256 ^ (s - 3) < 2 ^ k * 256 ^ (s - 3)" using that by simp
    also have "\<dots> \<le> 2 ^ k * 256 ^ (t - 3)" using that by (intro mult_le_mono power_increasing diff_le_mono) simp_all
    finally show ?thesis using that by simp
  qed
  have m0: "m \<noteq> 0" using le by (intro notI) simp
  show ?ovf
  proof (rule ccontr)
    assume "\<not> ?ovf"
    then have "s \<le> 34" "m < 2 ^ 8 \<or> s \<le> 33" "m < 2 ^ 16 \<or> s \<le> 32" using m0 by auto
    then show False
      using le assms mono [of 8 34] mono [of 16 33] mono [of 23 32] by auto
  qed
qed

lemma SetCompact_correct:
  assumes "SetCompact nc = (v, fNegative, fOverflow)"
  shows "length v = 8" and "limbs_val v = compact_value nc mod 2 ^ 256"
    and "fOverflow \<longleftrightarrow> compact_value nc \<ge> 2 ^ 256"
    and "fNegative \<longleftrightarrow> compact_value nc \<noteq> 0 \<and> odd (unat nc div 2 ^ 23)"
proof -
  have size: "unat (drop_bit 24 nc) = compact_size nc" by (simp add: compact_exponent compact_size_def)
  have mant: "unat (nc AND 0x007fffff) = compact_mant nc" by (simp only: compact_mantissa compact_mant_def)
  have mlt: "compact_mant nc < 2 ^ 23" by (simp add: compact_mant_def)
  define w where "w = (if compact_size nc \<le> 3
     then drop_bit (8 * (3 - compact_size nc)) (nc AND 0x007fffff) else nc AND 0x007fffff)"
  have w: "unat w = (if compact_size nc \<le> 3 then compact_value nc else compact_mant nc)"
    by (cases "compact_size nc \<le> 3")
      (simp_all only: w_def if_True if_False unat_drop_bit mant compact_value_le3 pow256)
  have w0: "w \<noteq> 0 \<longleftrightarrow> compact_value nc \<noteq> 0"
    by (cases "compact_size nc \<le> 3") (auto simp: w compact_value_gt3 simp flip: unat_eq_0)
  note def = assms [unfolded SetCompact_def Let_def size, folded w_def]
  have v: "v = (if compact_size nc \<le> 3 then base_uint_of_u64 8 (ucast w)
               else base_uint_shl (base_uint_of_u64 8 (ucast w)) (8 * (compact_size nc - 3)))"
    and neg: "fNegative \<longleftrightarrow> w \<noteq> 0 \<and> nc AND 0x00800000 \<noteq> 0"
    and ovf: "fOverflow \<longleftrightarrow> w \<noteq> 0 \<and> (compact_size nc > 34 \<or> w > 0xff \<and> compact_size nc > 33
                                       \<or> w > 0xffff \<and> compact_size nc > 32)"
    using def by auto
  show "length v = 8" by (simp add: v len_simps)
  have small: "compact_value nc < 2 ^ 256" if "compact_size nc \<le> 3"
  proof -
    have "compact_value nc \<le> compact_mant nc" using that by (simp add: compact_value_le3)
    also have "\<dots> < 2 ^ 256" using mlt by simp
    finally show ?thesis .
  qed
  show "limbs_val v = compact_value nc mod 2 ^ 256"
    using small by (simp add: v val_simps w len_simps limb_base_power pow256 compact_value_gt3)
  show "fOverflow \<longleftrightarrow> compact_value nc \<ge> 2 ^ 256"
  proof (cases "compact_size nc \<le> 3")
    case True
    then show ?thesis using small ovf by auto
  next
    case False
    then show ?thesis
      using compact_overflow_iff [of "compact_size nc" "compact_mant nc"] mlt w
      by (simp add: ovf compact_value_gt3 word_less_nat_alt flip: unat_eq_0)
  qed
  show "fNegative \<longleftrightarrow> compact_value nc \<noteq> 0 \<and> odd (unat nc div 2 ^ 23)"
    by (simp add: neg w0 compact_sign)
qed

text \<open>The number of bytes of a value, as the code computes it from \<open>bits()\<close>.\<close>

definition byte_len :: "nat \<Rightarrow> nat \<Rightarrow> bool" where
  "byte_len V s \<longleftrightarrow> V < 256 ^ s \<and> (if V = 0 then s = 0 else 1 \<le> s \<and> 256 ^ (s - 1) \<le> V)"

lemma byte_len_unique:
  assumes "byte_len V s" "byte_len V t"
  shows "s = t"
proof -
  have le: "s \<le> t" if "byte_len V s" "byte_len V t" "V \<noteq> 0" for s t
  proof (rule ccontr)
    assume "\<not> s \<le> t"
    then have "(256 :: nat) ^ t \<le> 256 ^ (s - 1)" by (intro power_increasing) simp_all
    also have "\<dots> \<le> V" using that by (simp add: byte_len_def)
    finally show False using that by (simp add: byte_len_def)
  qed
  show ?thesis
    using le [of s t] le [of t s] assms by (cases "V = 0") (auto simp: byte_len_def)
qed

lemma byte_len_bits: "byte_len (limbs_val a) ((base_uint_bits a + 7) div 8)"
proof (cases "limbs_val a = 0")
  case True
  then show ?thesis using bits_eq_0_iff [of a] by (simp add: byte_len_def)
next
  case False
  let ?s = "(base_uint_bits a + 7) div 8"
  have b: "base_uint_bits a \<noteq> 0" using False by (simp add: bits_eq_0_iff)
  have "limbs_val a < 2 ^ base_uint_bits a" by (rule bits_upper)
  also have "\<dots> \<le> 2 ^ (8 * ?s)" by (intro power_increasing) simp_all
  finally have up: "limbs_val a < 256 ^ ?s" by (simp add: pow256)
  have "(256 :: nat) ^ (?s - 1) \<le> 2 ^ (base_uint_bits a - 1)"
    unfolding pow256 using b by (intro power_increasing) simp_all
  also have "\<dots> \<le> limbs_val a" using False by (rule bits_lower)
  finally show ?thesis using up b False by (simp add: byte_len_def)
qed

text \<open>The three leading bytes of a value of \<open>s\<close> bytes, and the mantissa and exponent chosen from them.\<close>

definition lead3 :: "nat \<Rightarrow> nat \<Rightarrow> nat" where
  "lead3 V s = (if s \<le> 3 then V * 256 ^ (3 - s) else V div 256 ^ (s - 3))"

definition compact_norm :: "nat \<Rightarrow> nat \<Rightarrow> nat \<times> nat" where
  "compact_norm V s = (if lead3 V s \<ge> 2 ^ 23 then (lead3 V s div 256, s + 1) else (lead3 V s, s))"

lemma lead3_less: "byte_len V s \<Longrightarrow> lead3 V s < 2 ^ 24"
proof (cases "s \<le> 3")
  case True
  assume "byte_len V s"
  then have "V * 256 ^ (3 - s) < 256 ^ s * 256 ^ (3 - s)" by (simp add: byte_len_def)
  also have "\<dots> = 256 ^ 3" using True by (simp flip: power_add)
  finally show ?thesis using True by (simp add: lead3_def)
next
  case False
  assume "byte_len V s"
  moreover have "(256 :: nat) ^ s = 256 ^ 3 * 256 ^ (s - 3)"
    using False by (metis le_add_diff_inverse nat_le_linear power_add)
  ultimately have "V < 256 ^ 3 * 256 ^ (s - 3)" by (simp add: byte_len_def)
  then show ?thesis using False by (simp add: lead3_def less_mult_imp_div_less)
qed

lemma GetCompact_lead3:
  assumes "length a = 8" and s0: "s0 = (base_uint_bits a + 7) div 8"
  shows "unat (if s0 \<le> 3 then ucast (push_bit (8 * (3 - s0)) (base_uint_low64 a)) :: uint32_t
               else ucast (base_uint_low64 (base_uint_shr a (8 * (s0 - 3))))) = lead3 (limbs_val a) s0"
proof -
  have bl: "byte_len (limbs_val a) s0" using s0 byte_len_bits by simp
  then have l24: "lead3 (limbs_val a) s0 < 2 ^ 24" by (rule lead3_less)
  show ?thesis
  proof (cases "s0 \<le> 3")
    case True
    then have le: "limbs_val a \<le> lead3 (limbs_val a) s0" by (simp add: lead3_def)
    have low: "unat (base_uint_low64 a) = limbs_val a"
      using assms l24 le by (simp add: low64_val)
    have "unat (push_bit (8 * (3 - s0)) (base_uint_low64 a)) = lead3 (limbs_val a) s0"
      using True l24 low by (simp add: unat_push_bit lead3_def pow256)
    then show ?thesis using True l24 by (simp add: unat_ucast_32 limb_base_def)
  next
    case False
    have "unat (base_uint_low64 (base_uint_shr a (8 * (s0 - 3)))) = lead3 (limbs_val a) s0 mod 2 ^ 64"
      using assms False by (simp add: low64_val len_simps val_simps lead3_def pow256)
    then show ?thesis using False l24 by (simp add: unat_ucast_32 limb_base_def)
  qed
qed

lemma compact_word:
  assumes "m < 2 ^ 23" "s < 256" "unat nc = m"
  shows "unat (nc OR push_bit 24 (of_nat s) :: uint32_t) = m + s * 2 ^ 24"
proof -
  have s: "unat (push_bit 24 (of_nat s) :: uint32_t) = s * 2 ^ 24"
    using assms by (simp add: unat_push_bit unat_of_nat)
  have "nc AND push_bit 24 (of_nat s) = 0"
  proof (rule bit_eqI)
    fix n
    have "\<not> bit nc n" if "24 \<le> n"
    proof -
      have "m < 2 ^ 23" by (rule assms(1))
      also have "\<dots> \<le> 2 ^ n" using that by (intro power_increasing) simp_all
      finally have "\<not> bit (unat nc) n" using assms(3) by (simp add: bit_iff_odd)
      then show ?thesis by (auto simp: bit_unsigned_iff dest: bit_imp_le_length)
    qed
    then show "bit (nc AND push_bit 24 (of_nat s)) n \<longleftrightarrow> bit 0 n" by (auto simp: bit_simps)
  qed
  then have "nc OR push_bit 24 (of_nat s) = nc + push_bit 24 (of_nat s)"
    by (simp add: disjunctive_add_eq_or)
  then show ?thesis using assms s by (simp add: unat_word_ariths)
qed


lemma compact_norm_bounds:
  assumes "byte_len V s" "compact_norm V s = (m, t)"
  shows "m < 2 ^ 23" and "t \<le> s + 1"
  using lead3_less [OF assms(1)] assms(2) by (auto simp: compact_norm_def split: if_splits)

lemma GetCompact_correct:
  assumes "length a = 8"
    and norm: "compact_norm (limbs_val a) ((base_uint_bits a + 7) div 8) = (m, s)"
  obtains c where "GetCompact a False = Inr c" "unat c = m + s * 2 ^ 24" "m < 2 ^ 23" "s < 256"
proof -
  define s0 where "s0 = (base_uint_bits a + 7) div 8"
  define nc0 where "nc0 = (if s0 \<le> 3 then ucast (push_bit (8 * (3 - s0)) (base_uint_low64 a)) :: uint32_t
               else ucast (base_uint_low64 (base_uint_shr a (8 * (s0 - 3)))))"
  have lead: "unat nc0 = lead3 (limbs_val a) s0"
    using GetCompact_lead3 [OF assms(1) s0_def] by (simp only: nc0_def)
  have bl: "byte_len (limbs_val a) s0" unfolding s0_def by (rule byte_len_bits)
  note l24 = lead3_less [OF bl]
  have "base_uint_bits a \<le> 256" using bits_le [of a] assms(1) by simp
  then have s0: "s0 \<le> 32" by (simp add: s0_def)
  have sign: "nc0 AND 0x00800000 \<noteq> 0 \<longleftrightarrow> 2 ^ 23 \<le> lead3 (limbs_val a) s0"
  proof -
    have "unat nc0 div 2 ^ 23 < 2" using l24 lead by (simp add: div_less_iff_less_mult)
    then have "odd (unat nc0 div 2 ^ 23) \<longleftrightarrow> 0 < unat nc0 div 2 ^ 23"
      by (auto simp: less_Suc_eq numeral_2_eq_2)
    then show ?thesis using lead by (simp only: compact_sign div_greater_zero_iff) auto
  qed
  define nc where "nc = (if nc0 AND 0x00800000 \<noteq> 0 then drop_bit 8 nc0 else nc0)"
  have ms: "m = (if 2 ^ 23 \<le> lead3 (limbs_val a) s0 then lead3 (limbs_val a) s0 div 256 else lead3 (limbs_val a) s0)"
    "s = (if 2 ^ 23 \<le> lead3 (limbs_val a) s0 then s0 + 1 else s0)"
    using norm unfolding s0_def [symmetric] by (auto simp: compact_norm_def split: if_splits)
  have nc: "unat nc = m"
    by (simp only: nc_def sign ms if_distrib [of unat] unat_drop_bit lead) simp
  have m: "m < 2 ^ 23" and s: "s < 256"
    using compact_norm_bounds [OF bl norm [folded s0_def]] s0 by simp_all
  have "GetCompact a False = Inr (nc OR push_bit 24 (of_nat s))"
  proof -
    have nn: "\<not> nc AND NOT 0x007fffff \<noteq> 0" using m nc by (simp only: compact_high not_le)
    have nC: "GetCompact a False =
        (if nc AND NOT 0x007fffff \<noteq> 0 then Inl (AssertFail ''mantissa'')
         else if \<not> (if nc0 AND 0x00800000 \<noteq> 0 then s0 + 1 else s0) < 256 then Inl (AssertFail ''nSize < 256'')
         else Inr (nc OR push_bit 24 (of_nat (if nc0 AND 0x00800000 \<noteq> 0 then s0 + 1 else s0))))"
      unfolding GetCompact_def Let_def s0_def [symmetric] nc0_def [symmetric] nc_def [symmetric]
      by simp
    show ?thesis
      unfolding nC sign ms(2) [symmetric] using nn s by simp
  qed
  then show ?thesis using that m s compact_word [OF m s nc] by blast
qed


text \<open>What the normal form keeps of the value.\<close>

lemma compact_norm_value:
  assumes "byte_len V s0" "compact_norm V s0 = (m, s)"
  shows "m * 256 ^ s div 256 ^ 3 = V div 256 ^ (s - 3) * 256 ^ (s - 3)"
proof -
  have p3: "(256 :: nat) ^ 3 = 16777216" by simp
  consider (small) "s \<le> 3" "m = V * 256 ^ (3 - s)" | (big) "3 < s" "m = V div 256 ^ (s - 3)"
  proof (cases "lead3 V s0 \<ge> 2 ^ 23")
    case False
    then show ?thesis using assms(2) that by (cases "s0 \<le> 3") (auto simp: compact_norm_def lead3_def)
  next
    case True
    then have m: "m = lead3 V s0 div 256" "s = s0 + 1" using assms(2) by (auto simp: compact_norm_def)
    show ?thesis
    proof (cases "s0 \<le> 2")
      case True
      then have "256 ^ (3 - s0) = (256 :: nat) ^ (3 - s) * 256" using m by (simp add: Suc_diff_le numeral_3_eq_3)
      then show ?thesis using that True m by (simp add: lead3_def)
    next
      case False
      then have "256 ^ (s - 3) = (256 :: nat) ^ (s0 - 3) * 256" using m by (simp flip: power_Suc2 add: Suc_diff_Suc Suc_diff_le numeral_3_eq_3)
      then show ?thesis using that False m by (auto simp: lead3_def div_mult2_eq)
    qed
  qed
  then show ?thesis
  proof cases
    case small
    then have "m * 256 ^ s = V * (256 ^ (3 - s) * 256 ^ s)" by (simp only: mult.assoc)
    also have "\<dots> = V * 256 ^ 3" using small by (simp flip: power_add)
    finally show ?thesis using small(1) by simp
  next
    case big
    then have "(256 :: nat) ^ s = 256 ^ (s - 3) * 256 ^ 3" by (metis le_add_diff_inverse2 less_imp_le power_add)
    then show ?thesis using big by (simp flip: mult.assoc)
  qed
qed

lemma compact_of_parts:
  assumes "unat c = m + s * 2 ^ 24" "m < 2 ^ 23"
  shows "compact_mant c = m" "compact_size c = s" "even (unat c div 2 ^ 23)"
proof -
  have "unat c = m + (2 * s) * 2 ^ 23" using assms by simp
  then have "unat c mod 2 ^ 23 = m" "unat c div 2 ^ 23 = 2 * s"
    using assms(2) by (simp_all only: mod_mult_self1 mod_less div_mult_self1 div_less)
  then show "compact_mant c = m" "even (unat c div 2 ^ 23)"
    by (simp_all only: compact_mant_def) simp_all
  have "unat c = m + 2 ^ 24 * s" "m < 2 ^ 24" using assms by simp_all
  then show "compact_size c = s" unfolding compact_size_def by simp
qed

lemma compact_norm_mant_large:
  assumes "byte_len V s0" "compact_norm V s0 = (m, s)" "3 < s"
  shows "2 ^ 15 \<le> m"
proof (cases "lead3 V s0 \<ge> 2 ^ 23")
  case True
  then have "m = lead3 V s0 div 2 ^ 8" using assms(2) by (auto simp: compact_norm_def)
  moreover have "2 ^ 23 div 2 ^ 8 \<le> lead3 V s0 div 2 ^ 8" using True by (rule div_le_mono)
  ultimately show ?thesis by simp
next
  case False
  then have m: "m = lead3 V s0" "s = s0" using assms(2) by (auto simp: compact_norm_def)
  then have "V \<noteq> 0" using assms by (auto simp: byte_len_def split: if_splits)
  then have "256 ^ (s - 1) \<le> V" using assms m by (simp add: byte_len_def)
  moreover have "s - 1 = 2 + (s - 3)" using assms(3) by simp
  then have "(256 :: nat) ^ (s - 1) = 256 ^ 2 * 256 ^ (s - 3)" by (simp only: power_add)
  ultimately have "256 ^ 2 \<le> V div 256 ^ (s - 3)" by (simp add: less_eq_div_iff_mult_less_eq)
  then show ?thesis using m assms(3) by (simp add: lead3_def)
qed

text \<open>Encoding the decoded value gives the same encoding again.\<close>

lemma compact_norm_idem:
  assumes "byte_len V s0" "compact_norm V s0 = (m, s)"
  shows "byte_len (V div 256 ^ (s - 3) * 256 ^ (s - 3)) s0"
    and "compact_norm (V div 256 ^ (s - 3) * 256 ^ (s - 3)) s0 = (m, s)"
proof -
  let ?k = "256 ^ (s - 3) :: nat"
  let ?W = "V div ?k * ?k"
  have "byte_len ?W s0 \<and> compact_norm ?W s0 = (m, s)"
  proof (cases "3 < s")
    case False
    then show ?thesis using assms by simp
  next
    case True
    note m15 = compact_norm_mant_large [OF assms True]
    have W: "?W = m * ?k"
    proof -
      have "(256 :: nat) ^ s = ?k * 256 ^ 3" using True by (metis le_add_diff_inverse2 less_imp_le power_add)
      then have "m * 256 ^ s div 256 ^ 3 = m * ?k" by (simp flip: mult.assoc)
      then show ?thesis using compact_norm_value [OF assms] by simp
    qed
    have "V < 256 ^ s0" using assms(1) by (simp add: byte_len_def)
    then have up: "?W < 256 ^ s0" by (rule le_less_trans [OF div_times_less_eq_dividend])
    consider (same) "s0 = s" "m = lead3 V s" "m < 2 ^ 23" | (shift) "s = Suc s0"
      using assms(2) by (auto simp: compact_norm_def split: if_splits)
    then show ?thesis
    proof cases
      case same
      have "V \<noteq> 0" using assms(1) same True by (auto simp: byte_len_def split: if_splits)
      have e: "s - 1 = 2 + (s - 3)" using True by simp
      have "256 ^ (s - 1) \<le> V" using \<open>V \<noteq> 0\<close> assms(1) same by (simp add: byte_len_def)
      then have "256 ^ 2 * ?k \<le> V" by (simp only: e power_add)
      then have "256 ^ 2 \<le> m" using same True by (simp add: lead3_def less_eq_div_iff_mult_less_eq)
      then have "256 ^ 2 * ?k \<le> m * ?k" by (rule mult_le_mono1)
      then have "256 ^ (s - 1) \<le> ?W" by (simp only: e power_add W)
      moreover have "?W \<noteq> 0" using W m15 by simp
      ultimately have "byte_len ?W s0" using up same True by (simp add: byte_len_def)
      moreover have "lead3 ?W s0 = m" using same True W by (simp add: lead3_def)
      ultimately show ?thesis using same by (simp add: compact_norm_def)
    next
      case shift
      have e: "s0 - 1 = 1 + (s - 3)" "s - 3 = 1 + (s - 4)" using True shift by simp_all
      have "256 ^ 1 * ?k \<le> m * ?k" using m15 by (intro mult_le_mono1) simp
      then have "256 ^ (s0 - 1) \<le> ?W" by (simp only: e(1) W power_add)
      moreover have "?W \<noteq> 0" using W m15 by simp
      ultimately have "byte_len ?W s0" using up shift True by (simp add: byte_len_def)
      moreover have "lead3 ?W s0 = m * 256"
      proof (cases "s0 = 3")
        case True
        then show ?thesis using W shift by (simp add: lead3_def)
      next
        case False
        then have e3: "s0 - 3 = s - 4" "\<not> s0 \<le> 3" using True shift by simp_all
        have "?k = 256 * 256 ^ (s - 4)" by (simp only: e(2) power_add) simp
        then have "?W = (m * 256) * 256 ^ (s - 4)" using W by (simp only: mult.assoc)
        then show ?thesis by (simp only: lead3_def e3 if_False) simp
      qed
      ultimately show ?thesis using shift m15 by (simp add: compact_norm_def)
    qed
  qed
  then show "byte_len ?W s0" "compact_norm ?W s0 = (m, s)" by simp_all
qed

lemma compact_roundtrip_obtain:
  assumes "length a = 8"
  obtains c v where "GetCompact a False = Inr c" "SetCompact c = (v, False, False)" "length v = 8"
    "limbs_val v = limbs_val a div 256 ^ (compact_size c - 3) * 256 ^ (compact_size c - 3)"
    "2 ^ 15 * (limbs_val a - limbs_val v) \<le> limbs_val v" "GetCompact v False = Inr c"
proof -
  obtain m s where norm: "compact_norm (limbs_val a) ((base_uint_bits a + 7) div 8) = (m, s)"
    by (metis surj_pair)
  obtain c where c: "GetCompact a False = Inr c" "unat c = m + s * 2 ^ 24" "m < 2 ^ 23" "s < 256"
    using GetCompact_correct [OF assms norm] by blast
  note parts = compact_of_parts [OF c(2,3)]
  obtain v n ov where v: "SetCompact c = (v, n, ov)" by (metis prod_cases3)
  note set = SetCompact_correct [OF v]
  let ?k = "256 ^ (s - 3) :: nat"
  have val: "compact_value c = limbs_val a div ?k * ?k"
    using compact_norm_value [OF byte_len_bits norm] by (simp add: compact_value_def parts)
  have le: "compact_value c \<le> limbs_val a" by (simp add: val)
  then have lt: "compact_value c < 2 ^ 256"
    using limbs_val_less [of a] assms by (simp add: limb_base_power)
  then have "limbs_val v = compact_value c" "\<not> ov" "\<not> n" using set parts by simp_all
  moreover have "2 ^ 15 * (limbs_val a - compact_value c) \<le> compact_value c"
  proof (cases "3 < s")
    case True
    have "limbs_val a - compact_value c = limbs_val a mod ?k" by (simp add: val minus_div_mult_eq_mod)
    then have "2 ^ 15 * (limbs_val a - compact_value c) \<le> 2 ^ 15 * ?k" by simp
    also have "\<dots> \<le> m * ?k"
      using compact_norm_mant_large [OF byte_len_bits norm True] by (rule mult_le_mono1)
    also have "\<dots> = compact_value c" using compact_value_gt3 [of c] True parts by simp
    finally show ?thesis .
  next
    case False
    then show ?thesis by (simp add: val)
  qed
  moreover have "GetCompact v False = Inr c"
  proof -
    have vval: "limbs_val v = limbs_val a div ?k * ?k" using calculation val by simp
    note idem = compact_norm_idem [OF byte_len_bits norm, folded vval]
    have "compact_norm (limbs_val v) ((base_uint_bits v + 7) div 8) = (m, s)"
      using idem byte_len_unique [OF byte_len_bits idem(1)] by simp
    from GetCompact_correct [OF set(1) this] obtain c' where
      "GetCompact v False = Inr c'" "unat c' = m + s * 2 ^ 24" by blast
    then show ?thesis using c(2) by (simp add: word_unat_eq_iff)
  qed
  ultimately show ?thesis using that c(1) v set(1) val parts(2) by simp
qed

section \<open>Byte conversion\<close>

lemma unat_ReadLE32: "unat (ReadLE32 p) = bytes_val (take 4 p)"
proof -
  have "bytes_val (take 4 p) < 256 ^ 4"
    using bytes_val_less [of "take 4 p"]
    by (rule order_less_le_trans) (intro power_increasing, simp_all)
  then show ?thesis by (simp add: ReadLE32_def unat_of_nat)
qed

lemma bytes_val_WriteLE32: "bytes_val (WriteLE32 x) = unat x"
proof -
  have b: "unat (ucast (drop_bit k x) :: byte) = unat x div 2 ^ k mod 256" for k
    by (simp add: unsigned_ucast_eq take_bit_eq_mod unat_drop_bit del: unsigned_drop_bit_eq)
  have "unat x < 256 ^ 4" using unsigned_less [of x] by simp
  then have "unat x div 2 ^ 24 mod 256 = unat x div 2 ^ 24" by simp
  moreover have "x' = x' mod 256 + 256 * (x' div 2 ^ 8 mod 256 + 256 * (x' div 2 ^ 16 mod 256 + 256 * (x' div 2 ^ 24)))"
    for x' :: nat
    using mod_mult_div_eq [of x' 256] mod_mult_div_eq [of "x' div 2 ^ 8" 256] mod_mult_div_eq [of "x' div 2 ^ 16" 256]
    by (simp add: div_mult2_eq [symmetric])
  ultimately show ?thesis
    using b [of 0] b [of 8] b [of 16] b [of 24] by (simp add: WriteLE32_def)
qed

lemma UintToArith256_val: 
  assumes "length u = 32" shows "limbs_val (UintToArith256 u) = bytes_val u"
proof -
  have "limbs_val (map (\<lambda>x. ReadLE32 (drop (x * 4) u)) [0..<n]) = bytes_val (take (4 * n) u)" if "n \<le> 8" for n
    using that
  proof (induction n)
    case 0
    then show ?case by simp
  next
    case (Suc n)
    have "take (4 * Suc n) u = take (4 * n) u @ take 4 (drop (4 * n) u)"
      using take_add [of "4 * n" 4 u] by (simp add: add.commute)
    moreover have "limb_base ^ n = 256 ^ (4 * n)" by (simp add: limb_base_def power_mult)
    ultimately show ?case using Suc assms
      by (simp add: limbs_val_append bytes_val_append unat_ReadLE32 mult.commute)
  qed
  from this [of 8] assms show ?thesis by (simp add: UintToArith256_def)
qed

lemma length_WriteLE32 [simp]: "length (WriteLE32 x) = 4"
  by (simp add: WriteLE32_def)

lemma bytes_val_ArithToUint256: "bytes_val (ArithToUint256 a) = limbs_val a"
  by (induction a) (simp_all add: ArithToUint256_def bytes_val_append bytes_val_WriteLE32 limb_base_def)

lemma length_ArithToUint256: "length (ArithToUint256 a) = 4 * length a"
  by (induction a) (simp_all add: ArithToUint256_def WriteLE32_def)

lemma UintToArith256_roundtrip:
  assumes "length a = 8"
  shows "UintToArith256 (ArithToUint256 a) = a"
proof (rule limbs_val_inj)
  show "length (UintToArith256 (ArithToUint256 a)) = length a"
    using assms by (simp add: UintToArith256_def)
  show "limbs_val (UintToArith256 (ArithToUint256 a)) = limbs_val a"
    using assms by (simp add: UintToArith256_val length_ArithToUint256 bytes_val_ArithToUint256)
qed

section \<open>Properties\<close>

text \<open>
  C1. The ring operations and shifts of \<open>arith_uint256\<close> compute with integers modulo \<open>2 ^ 256\<close>:
  addition, subtraction (through two's complement negation), multiplication and the left shift
  wrap, the right shift divides.
\<close>

theorem arith_uint256_ring:
  assumes "length a = 8" and "length b = 8"
  shows "limbs_val (base_uint_add a b) = (limbs_val a + limbs_val b) mod 2 ^ 256
     \<and> int (limbs_val (base_uint_sub a b)) = (int (limbs_val a) - int (limbs_val b)) mod 2 ^ 256
     \<and> limbs_val (base_uint_mul a b) = (limbs_val a * limbs_val b) mod 2 ^ 256
     \<and> limbs_val (base_uint_shl a n) = (limbs_val a * 2 ^ n) mod 2 ^ 256
     \<and> limbs_val (base_uint_shr a n) = limbs_val a div 2 ^ n"
proof -
  have B: "limb_base ^ 8 = 2 ^ 256" by (simp add: limb_base_power)
  have b: "limbs_val b \<le> 2 ^ 256"
    using limbs_val_less [of b] assms B by simp
  have "int (limbs_val (base_uint_sub a b)) = int (limbs_val a + (2 ^ 256 - limbs_val b)) mod 2 ^ 256"
    using assms B by (simp only: val_sub zmod_int) simp
  also have "int (limbs_val a + (2 ^ 256 - limbs_val b)) = (int (limbs_val a) - int (limbs_val b)) + 2 ^ 256"
    using b by (simp add: of_nat_diff)
  finally have "int (limbs_val (base_uint_sub a b)) = (int (limbs_val a) - int (limbs_val b)) mod 2 ^ 256"
    by (simp only: mod_add_self2)
  then show ?thesis using assms B by (simp add: val_simps)
qed

theorem arith_uint256_ring_witness:
  "int (limbs_val (base_uint_sub [0, 0, 0, 0, 0, 0, 0, 0] [1, 0, 0, 0, 0, 0, 0, 0])) = 2 ^ 256 - 1"
  using arith_uint256_ring [of "[0, 0, 0, 0, 0, 0, 0, 0]" "[1, 0, 0, 0, 0, 0, 0, 0]" 0]
  by simp

text \<open>
  C2. Long division of \<open>arith_uint256\<close> returns the integer quotient, and throws exactly when the
  divisor is zero.
\<close>

theorem arith_uint256_div:
  assumes "length a = 8" and "length b = 8"
  shows "case base_uint_div a b of
           Inl e \<Rightarrow> limbs_val b = 0 \<and> e = Throw ''Division by zero''
         | Inr q \<Rightarrow> limbs_val b \<noteq> 0 \<and> length q = 8 \<and> limbs_val q = limbs_val a div limbs_val b"
proof (cases "limbs_val b = 0")
  case True
  then show ?thesis by (simp add: div_by_zero)
next
  case False
  obtain q where "base_uint_div a b = Inr q" "length q = length a" "limbs_val q = limbs_val a div limbs_val b"
    using div_correct [of a b] assms False by auto
  then show ?thesis using assms False by simp
qed

theorem arith_uint256_div_witness:
  "\<exists>q. base_uint_div [7, 0, 0, 0, 0, 0, 0, 0] [2, 0, 0, 0, 0, 0, 0, 0] = Inr q \<and> limbs_val q = 3"
  using arith_uint256_div [of "[7, 0, 0, 0, 0, 0, 0, 0]" "[2, 0, 0, 0, 0, 0, 0, 0]"]
  by (cases "base_uint_div [7, 0, 0, 0, 0, 0, 0, 0] [2, 0, 0, 0, 0, 0, 0, 0]") simp_all

text \<open>
  C3. \<open>SetCompact\<close> decodes every 32-bit word to its documented value modulo \<open>2 ^ 256\<close>. Its overflow
  flag is set exactly when that value does not fit 256 bits, and its negative flag exactly when the
  value is nonzero and the sign bit is set.
\<close>

theorem SetCompact_flags_exact:
  "case SetCompact nCompact of (v, fNegative, fOverflow) \<Rightarrow>
     length v = 8 \<and> limbs_val v = compact_value nCompact mod 2 ^ 256
     \<and> (fOverflow \<longleftrightarrow> 2 ^ 256 \<le> compact_value nCompact)
     \<and> (fNegative \<longleftrightarrow> compact_value nCompact \<noteq> 0 \<and> odd (unat nCompact div 2 ^ 23))"
  using SetCompact_correct by (auto split: prod.split)

text \<open>
  C4. \<open>GetCompact\<close> passes its assertions on every 256-bit value. Decoding what it returns raises no
  flag, never gives a larger number, loses at most one part in \<open>2 ^ 15\<close>, and encodes to the same word
  again.
\<close>

theorem compact_roundtrip:
  assumes "length a = 8"
  shows "\<exists>c v. GetCompact a False = Inr c \<and> SetCompact c = (v, False, False)
     \<and> limbs_val v \<le> limbs_val a \<and> 2 ^ 15 * (limbs_val a - limbs_val v) \<le> limbs_val v
     \<and> GetCompact v False = Inr c"
proof -
  obtain c v where cv: "GetCompact a False = Inr c" "SetCompact c = (v, False, False)"
    "limbs_val v = limbs_val a div 256 ^ (compact_size c - 3) * 256 ^ (compact_size c - 3)"
    "2 ^ 15 * (limbs_val a - limbs_val v) \<le> limbs_val v" "GetCompact v False = Inr c"
    using compact_roundtrip_obtain [OF assms] by metis
  moreover have "limbs_val v \<le> limbs_val a"
    unfolding cv(3) by (rule div_times_less_eq_dividend)
  ultimately show ?thesis by blast
qed

theorem compact_roundtrip_witness:
  "\<exists>c v. GetCompact [0, 0, 0, 0, 0, 0, 0, 0x0007ffff] False = Inr c \<and> SetCompact c = (v, False, False)
     \<and> GetCompact v False = Inr c"
  using compact_roundtrip [of "[0, 0, 0, 0, 0, 0, 0, 0x0007ffff]"] by auto

end
