(* ===== verification/Chain.thy ===== *)
theory Chain
  imports Arith256
begin

text \<open>
  The block index of \<^verbatim>\<open>src/chain.h\<close> and \<^verbatim>\<open>src/chain.cpp\<close>. Every \<open>CBlockIndex\<close> object lives in
  \<open>mapBlockIndex\<close> under its block hash and is never removed, so a pointer to one is modelled by that
  hash and the objects by a map from hashes. The theory holds the skip-list search
  \<open>GetAncestor\<close>, the active chain \<open>CChain\<close> with its search for forks and its locators, and the
  median time past.
\<close>

unbundle bit_operations_syntax

section \<open>Data\<close>

record CBlockHeader =
  hdr_nVersion :: int
  hdr_hashPrevBlock :: uint256
  hdr_hashMerkleRoot :: uint256
  hdr_hashFinalSaplingRoot :: uint256
  hdr_nTime :: uint32_t
  hdr_nBits :: uint32_t
  hdr_nNonce :: uint256
  hdr_nSolution :: "byte list"

type_synonym block_ptr = uint256

record CBlockIndex =
  phashBlock :: "uint256 option"
  pprev :: "block_ptr option"
  pskip :: "block_ptr option"
  nHeight :: int
  nFile :: int
  nDataPos :: uint32_t
  nUndoPos :: uint32_t
  nChainWork :: base_uint
  nTx :: uint32_t
  nChainTx :: uint32_t
  nStatus :: uint32_t
  nCachedBranchId :: "uint32_t option"
  hashSproutAnchor :: uint256
  hashFinalSproutRoot :: uint256
  nSproutValue :: "int option"
  nChainSproutValue :: "int option"
  nSaplingValue :: int
  nChainSaplingValue :: "int option"
  nVersion :: int
  hashMerkleRoot :: uint256
  hashFinalSaplingRoot :: uint256
  nTime :: uint32_t
  nBits :: uint32_t
  nNonce :: uint256
  nSolution :: "byte list"
  nSequenceId :: uint32_t

type_synonym block_index = "block_ptr \<rightharpoonup> CBlockIndex"

abbreviation null256 :: uint256 where
  "null256 \<equiv> replicate 32 0"

definition CBlockIndex_null :: CBlockIndex where
  "CBlockIndex_null = \<lparr>
     phashBlock = None, pprev = None, pskip = None, nHeight = 0, nFile = 0, nDataPos = 0, nUndoPos = 0,
     nChainWork = base_uint_zero 8, nTx = 0, nChainTx = 0, nStatus = 0, nCachedBranchId = None,
     hashSproutAnchor = null256, hashFinalSproutRoot = null256,
     nSproutValue = None, nChainSproutValue = None, nSaplingValue = 0, nChainSaplingValue = None,
     nVersion = 0, hashMerkleRoot = null256, hashFinalSaplingRoot = null256, nTime = 0, nBits = 0,
     nNonce = null256, nSolution = [], nSequenceId = 0 \<rparr>"

definition CBlockIndex_of_header :: "CBlockHeader \<Rightarrow> CBlockIndex" where
  "CBlockIndex_of_header block = CBlockIndex_null\<lparr>
     nVersion := hdr_nVersion block,
     hashMerkleRoot := hdr_hashMerkleRoot block,
     hashFinalSaplingRoot := hdr_hashFinalSaplingRoot block,
     nTime := hdr_nTime block,
     nBits := hdr_nBits block,
     nNonce := hdr_nNonce block,
     nSolution := hdr_nSolution block \<rparr>"

section \<open>Validity status\<close>

definition BLOCK_VALID_MASK :: uint32_t where "BLOCK_VALID_MASK = 7"
definition BLOCK_FAILED_MASK :: uint32_t where "BLOCK_FAILED_MASK = 96"
definition BLOCK_VALID_TREE :: uint32_t where "BLOCK_VALID_TREE = 2"
definition BLOCK_VALID_TRANSACTIONS :: uint32_t where "BLOCK_VALID_TRANSACTIONS = 3"

definition IsValid :: "CBlockIndex \<Rightarrow> uint32_t \<Rightarrow> bool result" where
  "IsValid b nUpTo =
     (if nUpTo AND NOT BLOCK_VALID_MASK \<noteq> 0 then Inl (AssertFail ''Only validity flags allowed'')
      else if nStatus b AND BLOCK_FAILED_MASK \<noteq> 0 then Inr False
      else Inr (nStatus b AND BLOCK_VALID_MASK \<ge> nUpTo))"

definition RaiseValidity :: "CBlockIndex \<Rightarrow> uint32_t \<Rightarrow> (bool \<times> CBlockIndex) result" where
  "RaiseValidity b nUpTo =
     (if nUpTo AND NOT BLOCK_VALID_MASK \<noteq> 0 then Inl (AssertFail ''Only validity flags allowed'')
      else if nStatus b AND BLOCK_FAILED_MASK \<noteq> 0 then Inr (False, b)
      else if nStatus b AND BLOCK_VALID_MASK < nUpTo
        then Inr (True, b\<lparr>nStatus := (nStatus b AND NOT BLOCK_VALID_MASK) OR nUpTo\<rparr>)
      else Inr (False, b))"

section \<open>Skip list\<close>

text \<open>
  Heights inside the search are natural numbers: \<open>GetAncestor\<close> returns before the loop for a
  negative height, and the walk stays between the two heights.
\<close>

definition InvertLowestOne :: "nat \<Rightarrow> nat" where
  "InvertLowestOne n = n AND (n - 1)"

definition GetSkipHeight :: "nat \<Rightarrow> nat" where
  "GetSkipHeight height =
     (if height < 2 then 0
      else if height AND 1 \<noteq> 0 then InvertLowestOne (InvertLowestOne (height - 1)) + 1
      else InvertLowestOne height)"

lemma InvertLowestOne_less: "0 < n \<Longrightarrow> InvertLowestOne n < n"
proof -
  assume "0 < n"
  have "int (InvertLowestOne n) = int n AND int (n - 1)"
    by (simp only: InvertLowestOne_def of_nat_and_eq)
  also have "\<dots> \<le> int (n - 1)" by (rule AND_upper2) simp
  finally show ?thesis using \<open>0 < n\<close> by linarith
qed

lemma InvertLowestOne_le: "InvertLowestOne n \<le> n"
  using InvertLowestOne_less [of n] by (cases "n = 0") (simp_all add: InvertLowestOne_def)

lemma GetSkipHeight_less: "0 < h \<Longrightarrow> GetSkipHeight h < h"
proof -
  assume h: "0 < h"
  show ?thesis
  proof (cases "h < 2")
    case True
    then show ?thesis using h by (simp add: GetSkipHeight_def)
  next
    case False
    then have "InvertLowestOne (InvertLowestOne (h - 1)) \<le> InvertLowestOne (h - 1)"
      "InvertLowestOne (h - 1) < h - 1" "InvertLowestOne h < h"
      by (simp_all add: InvertLowestOne_le InvertLowestOne_less)
    then show ?thesis unfolding GetSkipHeight_def using False by auto
  qed
qed

text \<open>
  The loop of \<open>GetAncestor\<close>. Following a pointer to an object that does not exist, like the failed
  assertion on \<open>pprev\<close>, is a failure.
\<close>

function GetAncestor_loop :: "block_index \<Rightarrow> block_ptr \<Rightarrow> nat \<Rightarrow> nat \<Rightarrow> block_ptr result" where
  "GetAncestor_loop H pindexWalk heightWalk height =
     (if heightWalk > height then
        (case H pindexWalk of
           None \<Rightarrow> Inl (AssertFail ''dangling pointer'')
         | Some b \<Rightarrow>
             (let heightSkip = GetSkipHeight heightWalk;
                  heightSkipPrev = GetSkipHeight (heightWalk - 1);
                  follow = (heightSkip = height \<or>
                    (heightSkip > height \<and>
                     \<not> (int heightSkipPrev < int heightSkip - 2 \<and> heightSkipPrev \<ge> height)))
              in case (pskip b, follow) of
                   (Some s, True) \<Rightarrow> GetAncestor_loop H s heightSkip height
                 | _ \<Rightarrow> (case pprev b of
                           None \<Rightarrow> Inl (AssertFail ''pindexWalk->pprev'')
                         | Some q \<Rightarrow> GetAncestor_loop H q (heightWalk - 1) height)))
      else Inr pindexWalk)"
  by pat_completeness auto
termination
  by (relation "measure (\<lambda>(H, p, heightWalk, height). heightWalk)") (auto intro: GetSkipHeight_less)

declare GetAncestor_loop.simps [simp del]

definition GetAncestor :: "block_index \<Rightarrow> block_ptr \<Rightarrow> int \<Rightarrow> block_ptr option result" where
  "GetAncestor H this height =
     (case H this of
        None \<Rightarrow> Inl (AssertFail ''dangling pointer'')
      | Some b \<Rightarrow>
          if height > nHeight b \<or> height < 0 then Inr None
          else map_sum id Some (GetAncestor_loop H this (nat (nHeight b)) (nat height)))"

definition BuildSkip :: "block_index \<Rightarrow> CBlockIndex \<Rightarrow> CBlockIndex result" where
  "BuildSkip H b =
     (case pprev b of
        None \<Rightarrow> Inr b
      | Some q \<Rightarrow> (case GetAncestor H q (int (GetSkipHeight (nat (nHeight b)))) of
                     Inl e \<Rightarrow> Inl e
                   | Inr s \<Rightarrow> Inr (b\<lparr>pskip := s\<rparr>)))"

section \<open>The active chain\<close>

text \<open>
  \<open>CChain\<close> is its vector of pointers; a slot that \<open>resize\<close> has just created is \<open>None\<close>. The loops
  that follow \<open>pprev\<close> would not end on a cyclic index, so they take fuel and return \<open>None\<close> when it
  runs out; the lemmas below show that the fuel given to them is enough on every well-formed index.
\<close>

type_synonym CChain = "block_ptr option list"

definition CChain_at :: "CChain \<Rightarrow> int \<Rightarrow> block_ptr option" where
  "CChain_at vChain h = (if h < 0 \<or> h \<ge> int (length vChain) then None else vChain ! nat h)"

definition CChain_Genesis :: "CChain \<Rightarrow> block_ptr option" where
  "CChain_Genesis vChain = (if length vChain > 0 then vChain ! 0 else None)"

definition CChain_Tip :: "CChain \<Rightarrow> block_ptr option" where
  "CChain_Tip vChain = (if length vChain > 0 then vChain ! (length vChain - 1) else None)"

definition CChain_Height :: "CChain \<Rightarrow> int" where
  "CChain_Height vChain = int (length vChain) - 1"

definition height_of :: "block_index \<Rightarrow> block_ptr \<Rightarrow> int" where
  "height_of H p = (case H p of None \<Rightarrow> - 1 | Some b \<Rightarrow> nHeight b)"

definition prev_of :: "block_index \<Rightarrow> block_ptr \<Rightarrow> block_ptr option" where
  "prev_of H p = (case H p of None \<Rightarrow> None | Some b \<Rightarrow> pprev b)"

definition CChain_Contains :: "block_index \<Rightarrow> CChain \<Rightarrow> block_ptr \<Rightarrow> bool" where
  "CChain_Contains H vChain p \<longleftrightarrow> CChain_at vChain (height_of H p) = Some p"

definition CChain_Next :: "block_index \<Rightarrow> CChain \<Rightarrow> block_ptr \<Rightarrow> block_ptr option" where
  "CChain_Next H vChain p =
     (if CChain_Contains H vChain p then CChain_at vChain (height_of H p + 1) else None)"

definition vector_resize :: "nat \<Rightarrow> 'a option list \<Rightarrow> 'a option list" where
  "vector_resize n xs = take n xs @ replicate (n - length xs) None"

fun SetTip_loop :: "nat \<Rightarrow> block_index \<Rightarrow> CChain \<Rightarrow> block_ptr option \<Rightarrow> CChain option" where
  "SetTip_loop fuel H vChain None = Some vChain"
| "SetTip_loop 0 H vChain (Some p) = None"
| "SetTip_loop (Suc fuel) H vChain (Some p) =
     (if vChain ! nat (height_of H p) \<noteq> Some p
      then SetTip_loop fuel H (vChain[nat (height_of H p) := Some p]) (prev_of H p)
      else Some vChain)"

definition CChain_SetTip :: "block_index \<Rightarrow> CChain \<Rightarrow> block_ptr option \<Rightarrow> CChain option" where
  "CChain_SetTip H vChain pindex =
     (case pindex of
        None \<Rightarrow> Some []
      | Some p \<Rightarrow>
          (let n = nat (height_of H p + 1)
           in SetTip_loop (Suc n) H (vector_resize n vChain) (Some p)))"

fun FindFork_loop :: "nat \<Rightarrow> block_index \<Rightarrow> CChain \<Rightarrow> block_ptr option \<Rightarrow> block_ptr option option" where
  "FindFork_loop fuel H vChain None = Some None"
| "FindFork_loop 0 H vChain (Some p) = None"
| "FindFork_loop (Suc fuel) H vChain (Some p) =
     (if \<not> CChain_Contains H vChain p then FindFork_loop fuel H vChain (prev_of H p)
      else Some (Some p))"

definition CChain_FindFork ::
  "block_index \<Rightarrow> CChain \<Rightarrow> block_ptr option \<Rightarrow> block_ptr option option result" where
  "CChain_FindFork H vChain pindex =
     (case pindex of
        None \<Rightarrow> Inr (Some None)
      | Some p \<Rightarrow>
          (case (if height_of H p > CChain_Height vChain
                 then GetAncestor H p (CChain_Height vChain) else Inr (Some p)) of
             Inl e \<Rightarrow> Inl e
           | Inr q \<Rightarrow> Inr (FindFork_loop (Suc (nat (height_of H p + 1))) H vChain q)))"

text \<open>The locator lists the hash of a block in full, which is the pointer itself here.\<close>

fun GetLocator_loop ::
  "nat \<Rightarrow> block_index \<Rightarrow> CChain \<Rightarrow> int \<Rightarrow> uint256 list \<Rightarrow> block_ptr option \<Rightarrow> uint256 list option result" where
  "GetLocator_loop fuel H vChain nStep vHave None = Inr (Some vHave)"
| "GetLocator_loop 0 H vChain nStep vHave (Some p) = Inr None"
| "GetLocator_loop (Suc fuel) H vChain nStep vHave (Some p) =
     (let vHave = vHave @ [p]
      in if height_of H p = 0 then Inr (Some vHave)
         else let h = max (height_of H p - nStep) 0;
                  nxt = (if CChain_Contains H vChain p then Inr (CChain_at vChain h) else GetAncestor H p h);
                  nStep = (if length vHave > 10 then nStep * 2 else nStep)
              in case nxt of Inl e \<Rightarrow> Inl e | Inr q \<Rightarrow> GetLocator_loop fuel H vChain nStep vHave q)"

definition CChain_GetLocator ::
  "block_index \<Rightarrow> CChain \<Rightarrow> block_ptr option \<Rightarrow> uint256 list option result" where
  "CChain_GetLocator H vChain pindex =
     (let start = (case pindex of None \<Rightarrow> CChain_Tip vChain | Some p \<Rightarrow> Some p)
      in GetLocator_loop
           (case start of None \<Rightarrow> 0 | Some p \<Rightarrow> Suc (nat (height_of H p))) H vChain 1 [] start)"

section \<open>Median time past\<close>

definition nMedianTimeSpan :: nat where
  "nMedianTimeSpan = 11"

fun median_times :: "nat \<Rightarrow> block_index \<Rightarrow> block_ptr option \<Rightarrow> int list" where
  "median_times 0 H p = []"
| "median_times (Suc n) H None = []"
| "median_times (Suc n) H (Some p) =
     (case H p of None \<Rightarrow> [] | Some b \<Rightarrow> uint (nTime b) # median_times n H (pprev b))"

definition GetMedianTimePast :: "block_index \<Rightarrow> block_ptr \<Rightarrow> int" where
  "GetMedianTimePast H this =
     (let ts = sort (median_times nMedianTimeSpan H (Some this)) in ts ! (length ts div 2))"

section \<open>Well-formed indexes and ancestors\<close>

text \<open>The block reached by following \<open>pprev\<close> a number of times, and the ancestor at a height.\<close>

fun walk_back :: "block_index \<Rightarrow> nat \<Rightarrow> block_ptr \<Rightarrow> block_ptr option" where
  "walk_back H 0 p = Some p"
| "walk_back H (Suc n) p = (case prev_of H p of None \<Rightarrow> None | Some q \<Rightarrow> walk_back H n q)"

definition ancestor_at :: "block_index \<Rightarrow> block_ptr \<Rightarrow> nat \<Rightarrow> block_ptr option" where
  "ancestor_at H p h = (if int h \<le> height_of H p then walk_back H (nat (height_of H p) - h) p else None)"

text \<open>
  Well-formedness: heights grow by one along \<open>pprev\<close>, exactly the blocks of height 0 have no
  predecessor, and a skip pointer leads to the ancestor at the block's skip height.
\<close>

definition wf_entry :: "block_index \<Rightarrow> block_ptr \<Rightarrow> CBlockIndex \<Rightarrow> bool" where
  "wf_entry H p b \<longleftrightarrow> 0 \<le> nHeight b
     \<and> (case pprev b of
          None \<Rightarrow> nHeight b = 0
        | Some q \<Rightarrow> (\<exists>b'. H q = Some b' \<and> nHeight b = nHeight b' + 1))
     \<and> (case pskip b of
          None \<Rightarrow> True
        | Some s \<Rightarrow> 0 < nHeight b \<and> ancestor_at H p (GetSkipHeight (nat (nHeight b))) = Some s)"

definition wf_index :: "block_index \<Rightarrow> bool" where
  "wf_index H \<longleftrightarrow> (\<forall>p b. H p = Some b \<longrightarrow> wf_entry H p b)"

text \<open>A chain vector is the path from its tip back to a block without predecessor.\<close>

definition chain_ok :: "block_index \<Rightarrow> CChain \<Rightarrow> bool" where
  "chain_ok H vChain \<longleftrightarrow>
     (\<forall>i < length vChain. \<exists>p b. vChain ! i = Some p \<and> H p = Some b \<and> nHeight b = int i
        \<and> pprev b = (if i = 0 then None else vChain ! (i - 1)))"

unbundle bit_operations_syntax

lemma height_of_Some [simp]: "H p = Some b \<Longrightarrow> height_of H p = nHeight b"
  by (simp add: height_of_def)

lemma prev_of_Some [simp]: "H p = Some b \<Longrightarrow> prev_of H p = pprev b"
  by (simp add: prev_of_def)

lemma wf_indexD: "wf_index H \<Longrightarrow> H p = Some b \<Longrightarrow> wf_entry H p b"
  by (simp add: wf_index_def)

lemma wf_height: "wf_index H \<Longrightarrow> H p = Some b \<Longrightarrow> 0 \<le> nHeight b"
  by (drule (1) wf_indexD) (simp add: wf_entry_def)

lemma wf_prev_None: "wf_index H \<Longrightarrow> H p = Some b \<Longrightarrow> pprev b = None \<longleftrightarrow> nHeight b = 0"
proof -
  assume wf: "wf_index H" and p: "H p = Some b"
  have "nHeight b' \<ge> 0" if "H q = Some b'" for q b' using wf that by (rule wf_height)
  then show ?thesis using wf_indexD [OF wf p] by (auto simp: wf_entry_def split: option.splits) force
qed

lemma wf_prev_Some:
  assumes "wf_index H" "H p = Some b" "pprev b = Some q"
  obtains b' where "H q = Some b'" "nHeight b = nHeight b' + 1"
  using wf_indexD [OF assms(1,2)] assms(3) by (auto simp: wf_entry_def)

lemma walk_back_add:
  "walk_back H (m + n) p = (case walk_back H m p of None \<Rightarrow> None | Some q \<Rightarrow> walk_back H n q)"
  by (induction m arbitrary: p) (auto split: option.splits)

lemma walk_back_exists:
  "wf_index H \<Longrightarrow> H p = Some b \<Longrightarrow> int n \<le> nHeight b \<Longrightarrow>
   \<exists>q b'. walk_back H n p = Some q \<and> H q = Some b' \<and> nHeight b' = nHeight b - int n"
proof (induction n arbitrary: p b)
  case 0
  then show ?case by auto
next
  case (Suc n)
  then have "pprev b \<noteq> None" by (simp add: wf_prev_None)
  then obtain q where q: "pprev b = Some q" by auto
  from wf_prev_Some [OF Suc.prems(1,2) q] obtain b' where b': "H q = Some b'" "nHeight b = nHeight b' + 1" .
  with Suc.IH [of q b'] Suc.prems q show ?case by (auto simp: prev_of_def)
qed

lemma walk_back_height:
  "wf_index H \<Longrightarrow> H p = Some b \<Longrightarrow> walk_back H n p = Some q \<Longrightarrow>
   \<exists>b'. H q = Some b' \<and> nHeight b' = nHeight b - int n"
proof (induction n arbitrary: p b)
  case 0
  then show ?case by auto
next
  case (Suc n)
  then obtain q' where q': "pprev b = Some q'" by (auto simp: prev_of_def split: option.splits)
  from wf_prev_Some [OF Suc.prems(1,2) q'] obtain b' where b': "H q' = Some b'" "nHeight b = nHeight b' + 1" .
  with Suc.IH [of q' b'] Suc.prems q' show ?case by (auto simp: prev_of_def)
qed

lemma GetAncestor_loop_correct:
  assumes "wf_index H"
  shows "H p = Some b \<Longrightarrow> nHeight b = int hw \<Longrightarrow> h \<le> hw \<Longrightarrow>
         \<exists>q. GetAncestor_loop H p hw h = Inr q \<and> walk_back H (hw - h) p = Some q"
proof (induction hw arbitrary: p b rule: less_induct)
  case (less hw)
  show ?case
  proof (cases "hw > h")
    case False
    then show ?thesis using less.prems by (simp add: GetAncestor_loop.simps)
  next
    case True
    let ?hs = "GetSkipHeight hw" and ?hp = "GetSkipHeight (hw - 1)"
    let ?follow = "?hs = h \<or> (?hs > h \<and> \<not> (int ?hp < int ?hs - 2 \<and> ?hp \<ge> h))"
    have hs: "?hs < hw" using True by (intro GetSkipHeight_less) simp
    have "pprev b \<noteq> None" using less.prems True assms by (simp add: wf_prev_None)
    then obtain q where q: "pprev b = Some q" by auto
    from wf_prev_Some [OF assms less.prems(1) q] obtain b' where b': "H q = Some b'" "nHeight b = nHeight b' + 1" .
    have prev: "\<exists>r. GetAncestor_loop H q (hw - 1) h = Inr r \<and> walk_back H (hw - h) p = Some r"
    proof -
      have "\<exists>r. GetAncestor_loop H q (hw - 1) h = Inr r \<and> walk_back H (hw - 1 - h) q = Some r"
        using less.IH [of "hw - 1" q b'] b' less.prems True by simp
      moreover have "hw - h = Suc (hw - 1 - h)" using True by simp
      ultimately show ?thesis using q less.prems(1) by (simp add: prev_of_def)
    qed
    show ?thesis
    proof (cases "pskip b")
      case None
      then show ?thesis using prev q less.prems(1) True by (subst GetAncestor_loop.simps) (simp add: Let_def)
    next
      case (Some s)
      have "ancestor_at H p ?hs = Some s"
        using wf_indexD [OF assms less.prems(1)] Some less.prems(2) by (simp add: wf_entry_def)
      then have s: "walk_back H (hw - ?hs) p = Some s"
        using less.prems by (simp add: ancestor_at_def split: if_splits)
      obtain bs where bs: "H s = Some bs" "nHeight bs = int ?hs"
        using walk_back_height [OF assms less.prems(1) s] less.prems(2) hs by auto
      show ?thesis
      proof (cases ?follow)
        case False
        then show ?thesis using prev q Some less.prems(1) True
          by (subst GetAncestor_loop.simps) (auto simp: Let_def split: bool.split)
      next
        case follow: True
        then have "h \<le> ?hs" by auto
        then obtain r where r: "GetAncestor_loop H s ?hs h = Inr r" "walk_back H (?hs - h) s = Some r"
          using less.IH [OF hs bs] by auto
        have "hw - h = (hw - ?hs) + (?hs - h)" using hs \<open>h \<le> ?hs\<close> by simp
        then have "walk_back H (hw - h) p = Some r" using s r by (simp only: walk_back_add) simp
        then show ?thesis using r follow Some less.prems(1) True
          by (subst GetAncestor_loop.simps) (simp add: Let_def del: not_less)
      qed
    qed
  qed
qed

lemma GetAncestor_correct:
  assumes "wf_index H" "H p = Some b"
  shows "GetAncestor H p h = Inr (if h < 0 then None else ancestor_at H p (nat h))"
proof (cases "h > nHeight b \<or> h < 0")
  case True
  then show ?thesis using assms by (auto simp: GetAncestor_def ancestor_at_def)
next
  case False
  obtain q where "GetAncestor_loop H p (nat (nHeight b)) (nat h) = Inr q"
    "walk_back H (nat (nHeight b) - nat h) p = Some q"
    using GetAncestor_loop_correct [OF assms, of "nat (nHeight b)" "nat h"] False wf_height [OF assms] nat_mono [of h "nHeight b"] by auto
  then show ?thesis using False assms by (simp add: GetAncestor_def ancestor_at_def)
qed


text \<open>Walks from an existing block do not change when the index grows.\<close>

lemma map_leD: "H \<subseteq>\<^sub>m H' \<Longrightarrow> H q = Some b \<Longrightarrow> H' q = Some b"
  by (auto simp: map_le_def dom_def dest: bspec)

lemma walk_back_mono:
  "wf_index H \<Longrightarrow> H \<subseteq>\<^sub>m H' \<Longrightarrow> H q = Some bq \<Longrightarrow> walk_back H' n q = walk_back H n q"
proof (induction n arbitrary: q bq)
  case 0
  then show ?case by simp
next
  case (Suc n)
  have prev: "prev_of H' q = pprev bq" "prev_of H q = pprev bq"
    using Suc.prems map_leD [OF Suc.prems(2,3)] by (simp_all add: prev_of_def)
  show ?case
  proof (cases "pprev bq")
    case None
    then show ?thesis by (simp add: prev)
  next
    case (Some r)
    from wf_prev_Some [OF Suc.prems(1,3) Some] obtain br where "H r = Some br" .
    with Suc show ?thesis by (simp add: prev Some)
  qed
qed

lemma ancestor_at_mono:
  assumes "wf_index H" "H \<subseteq>\<^sub>m H'" "H q = Some bq"
  shows "ancestor_at H' q h = ancestor_at H q h"
  using assms walk_back_mono [OF assms] map_leD [OF assms(2,3)] by (simp add: ancestor_at_def)

lemma GetAncestor_loop_mono:
  assumes "wf_index H" "H \<subseteq>\<^sub>m H'"
  shows "H q = Some bq \<Longrightarrow> nHeight bq = int hw \<Longrightarrow> h \<le> hw \<Longrightarrow>
         GetAncestor_loop H' q hw h = GetAncestor_loop H q hw h"
proof (induction hw arbitrary: q bq rule: less_induct)
  case (less hw)
  note q = map_leD [OF assms(2) less.prems(1)] less.prems(1)
  show ?case
  proof (cases "hw > h")
    case False
    then show ?thesis by (simp add: GetAncestor_loop.simps)
  next
    case True
    have prev: "GetAncestor_loop H' r (hw - 1) h = GetAncestor_loop H r (hw - 1) h"
      if "pprev bq = Some r" for r
    proof -
      from wf_prev_Some [OF assms(1) less.prems(1) that] obtain br
        where "H r = Some br" "nHeight bq = nHeight br + 1" .
      then show ?thesis using less.IH [of "hw - 1" r br] less.prems True by simp
    qed
    have skip: "GetAncestor_loop H' s (GetSkipHeight hw) h = GetAncestor_loop H s (GetSkipHeight hw) h"
      if "pskip bq = Some s" "h \<le> GetSkipHeight hw" for s
    proof -
      have hs: "GetSkipHeight hw < hw" using True by (intro GetSkipHeight_less) simp
      have "walk_back H (hw - GetSkipHeight hw) q = Some s"
        using wf_indexD [OF assms(1) less.prems(1)] that less.prems
        by (simp add: wf_entry_def ancestor_at_def split: if_splits)
      then obtain bs where "H s = Some bs" "nHeight bs = int (GetSkipHeight hw)"
        using walk_back_height [OF assms(1) less.prems(1)] less.prems(2) hs by fastforce
      then show ?thesis using less.IH [OF hs] that by blast
    qed
    show ?thesis
      by (subst (1 2) GetAncestor_loop.simps)
        (use prev skip in \<open>auto simp: q Let_def split: option.split bool.split\<close>)
  qed
qed

lemma GetAncestor_mono:
  assumes "wf_index H" "H \<subseteq>\<^sub>m H'" "H q = Some bq"
  shows "GetAncestor H' q h = GetAncestor H q h"
proof (cases "h > nHeight bq \<or> h < 0")
  case True
  then show ?thesis using assms(3) map_leD [OF assms(2,3)] by (simp add: GetAncestor_def)
next
  case False
  then have "nHeight bq = int (nat (nHeight bq))" "nat h \<le> nat (nHeight bq)" by (auto intro: nat_mono)
  with False show ?thesis
    using GetAncestor_loop_mono [OF assms(1,2,3)] assms(3) map_leD [OF assms(2,3)]
    by (simp add: GetAncestor_def)
qed

lemma wf_entry_mono:
  assumes "wf_index H" "H \<subseteq>\<^sub>m H'" "H q = Some bq"
  shows "wf_entry H' q bq"
  using wf_indexD [OF assms(1,3)] ancestor_at_mono [OF assms] map_leD [OF assms(2)]
  by (fastforce simp: wf_entry_def split: option.splits)

lemma wf_index_insert:
  assumes wf: "wf_index H" and p: "H p = None" and b: "wf_entry (H(p \<mapsto> b)) p b"
  shows "wf_index (H(p \<mapsto> b))"
  unfolding wf_index_def
proof (intro allI impI)
  fix q bq
  assume q: "(H(p \<mapsto> b)) q = Some bq"
  show "wf_entry (H(p \<mapsto> b)) q bq"
  proof (cases "q = p")
    case True
    then show ?thesis using q b by simp
  next
    case False
    then have "H q = Some bq" using q by simp
    moreover have "H \<subseteq>\<^sub>m H(p \<mapsto> b)" using p by (auto simp: map_le_def)
    ultimately show ?thesis using wf by (intro wf_entry_mono)
  qed
qed

lemma chain_okD:
  assumes "chain_ok H ch" "i < length ch"
  obtains p b where "ch ! i = Some p" "H p = Some b" "nHeight b = int i"
    "pprev b = (if i = 0 then None else ch ! (i - 1))"
  using assms unfolding chain_ok_def by blast

lemma chain_ok_walk:
  "chain_ok H ch \<Longrightarrow> k < length ch \<Longrightarrow> ch ! k = Some q \<Longrightarrow> n \<le> k \<Longrightarrow> walk_back H n q = ch ! (k - n)"
proof (induction n arbitrary: k q)
  case 0
  then show ?case by simp
next
  case (Suc n)
  from Suc.prems obtain b where b: "H q = Some b" "pprev b = (if k = 0 then None else ch ! (k - 1))"
    by (auto elim: chain_okD)
  from Suc.prems obtain q' where q': "ch ! (k - 1) = Some q'"
    by (metis Suc_leD chain_okD diff_le_self le_less_trans)
  then have "walk_back H (Suc n) q = walk_back H n q'" using b Suc.prems by (simp add: prev_of_def)
  also have "\<dots> = ch ! (k - 1 - n)" using Suc.prems q' by (intro Suc.IH) simp_all
  finally show ?case by simp
qed

lemma path_chain_ok:
  assumes "wf_index H" "H p = Some b" "length ch = Suc (nat (nHeight b))"
    and path: "\<And>i. i < length ch \<Longrightarrow> ch ! i = walk_back H (nat (nHeight b) - i) p"
  shows "chain_ok H ch"
  unfolding chain_ok_def
proof (intro allI impI)
  fix i
  assume i: "i < length ch"
  have nn: "0 \<le> nHeight b" using assms(1,2) by (rule wf_height)
  then obtain q b' where q: "walk_back H (nat (nHeight b) - i) p = Some q" "H q = Some b'" "nHeight b' = int i"
    using walk_back_exists [OF assms(1,2), of "nat (nHeight b) - i"] i assms(3) by (auto simp: of_nat_diff)
  have "pprev b' = (if i = 0 then None else ch ! (i - 1))"
  proof (cases "i = 0")
    case True
    then show ?thesis using q wf_prev_None [OF assms(1)] by simp
  next
    case False
    then have "nat (nHeight b) - (i - 1) = (nat (nHeight b) - i) + 1" using i assms(3) by simp
    then have "ch ! (i - 1) = walk_back H ((nat (nHeight b) - i) + 1) p" using path [of "i - 1"] i by simp
    also have "\<dots> = pprev b'" using q by (simp only: walk_back_add) (simp add: prev_of_def split: option.split)
    finally show ?thesis using False by simp
  qed
  then show "\<exists>p b. ch ! i = Some p \<and> H p = Some b \<and> nHeight b = int i \<and>
      pprev b = (if i = 0 then None else ch ! (i - 1))"
    using q path [OF i] by auto
qed

lemma SetTip_loop_correct:
  assumes wf: "wf_index H" and old: "chain_ok H old"
  shows "H q = Some bq \<Longrightarrow> nHeight bq = int k \<Longrightarrow> k < length ch \<Longrightarrow> k < fuel \<Longrightarrow>
    (\<And>i. i \<le> k \<Longrightarrow> ch ! i = (if i < length old then old ! i else None)) \<Longrightarrow>
    \<exists>ch'. SetTip_loop fuel H ch (Some q) = Some ch' \<and> length ch' = length ch \<and>
      (\<forall>i \<le> k. ch' ! i = walk_back H (k - i) q) \<and> (\<forall>i. k < i \<longrightarrow> ch' ! i = ch ! i)"
proof (induction k arbitrary: q bq ch fuel)
  case 0
  then obtain f where f: "fuel = Suc f" by (cases fuel) auto
  have "pprev bq = None" using wf 0 by (simp add: wf_prev_None)
  then show ?case using 0 f by (auto simp: prev_of_def intro: exI [of _ "ch[0 := Some q]"])
next
  case (Suc k)
  then obtain f where f: "fuel = Suc f" "k < f" by (cases fuel) auto
  have "pprev bq \<noteq> None" using wf Suc.prems by (simp add: wf_prev_None)
  then obtain r where r: "pprev bq = Some r" by auto
  from wf_prev_Some [OF wf Suc.prems(1) r] obtain br where br: "H r = Some br" "nHeight bq = nHeight br + 1" .
  show ?case
  proof (cases "ch ! Suc k = Some q")
    case True
    then have in_old: "Suc k < length old" "old ! Suc k = Some q"
      using Suc.prems(5) [of "Suc k"] by (auto split: if_splits)
    have "ch ! i = walk_back H (Suc k - i) q" if "i \<le> Suc k" for i
      using chain_ok_walk [OF old in_old, of "Suc k - i"] that in_old Suc.prems(5) [OF that] by simp
    then show ?thesis using True Suc.prems f by auto
  next
    case False
    let ?ch = "ch[Suc k := Some q]"
    have "\<exists>ch'. SetTip_loop f H ?ch (Some r) = Some ch' \<and> length ch' = length ?ch \<and>
      (\<forall>i \<le> k. ch' ! i = walk_back H (k - i) r) \<and> (\<forall>i. k < i \<longrightarrow> ch' ! i = ?ch ! i)"
      using Suc.prems br f by (intro Suc.IH) simp_all
    then obtain ch' where ch': "SetTip_loop f H ?ch (Some r) = Some ch'" "length ch' = length ?ch"
      "\<And>i. i \<le> k \<Longrightarrow> ch' ! i = walk_back H (k - i) r" "\<And>i. k < i \<Longrightarrow> ch' ! i = ?ch ! i" by blast
    have "ch' ! i = walk_back H (Suc k - i) q" if "i \<le> Suc k" for i
    proof (cases "i = Suc k")
      case True
      then show ?thesis using ch'(4) [of "Suc k"] Suc.prems by simp
    next
      case False
      then show ?thesis using that ch'(3) [of i] r Suc.prems(1) by (simp add: prev_of_def Suc_diff_le)
    qed
    moreover have "nat (nHeight bq) = Suc k" using Suc.prems(2) by simp
    ultimately show ?thesis using False ch' f r Suc.prems(1) by (auto simp: prev_of_def height_of_def)
  qed
qed

lemma SetTip_correct:
  assumes "wf_index H" "chain_ok H vChain" "H p = Some b"
  obtains ch where "CChain_SetTip H vChain (Some p) = Some ch" "chain_ok H ch"
    "length ch = Suc (nat (nHeight b))" "CChain_Tip ch = Some p"
proof -
  have nn: "0 \<le> nHeight b" using assms(1,3) by (rule wf_height)
  let ?n = "Suc (nat (nHeight b))"
  have n: "nat (height_of H p + 1) = ?n" using assms(3) nn by simp
  have "\<exists>ch'. SetTip_loop (Suc ?n) H (vector_resize ?n vChain) (Some p) = Some ch' \<and>
      length ch' = length (vector_resize ?n vChain) \<and>
      (\<forall>i \<le> nat (nHeight b). ch' ! i = walk_back H (nat (nHeight b) - i) p) \<and>
      (\<forall>i. nat (nHeight b) < i \<longrightarrow> ch' ! i = vector_resize ?n vChain ! i)"
    using assms nn
    by (intro SetTip_loop_correct [OF assms(1,2,3)]) (auto simp: vector_resize_def nth_append)
  then obtain ch' where ch': "SetTip_loop (Suc ?n) H (vector_resize ?n vChain) (Some p) = Some ch'"
    "length ch' = length (vector_resize ?n vChain)"
    "\<And>i. i \<le> nat (nHeight b) \<Longrightarrow> ch' ! i = walk_back H (nat (nHeight b) - i) p" by blast
  have len: "length ch' = ?n" using ch'(2) by (simp add: vector_resize_def)
  show ?thesis
  proof (rule that)
    show "CChain_SetTip H vChain (Some p) = Some ch'" using ch'(1) by (simp add: CChain_SetTip_def n Let_def)
    show "chain_ok H ch'" using path_chain_ok [OF assms(1,3) len] ch'(3) len by simp
    show "length ch' = ?n" by (rule len)
    show "CChain_Tip ch' = Some p" using len ch'(3) [of "nat (nHeight b)"] by (simp add: CChain_Tip_def)
  qed
qed

text \<open>Membership in the active chain is membership in the vector.\<close>

lemma Contains_iff:
  assumes "chain_ok H ch" 
  shows "CChain_Contains H ch p \<longleftrightarrow> Some p \<in> set ch"
proof
  assume "CChain_Contains H ch p"
  then show "Some p \<in> set ch"
    by (auto simp: CChain_Contains_def CChain_at_def split: if_splits) (metis nat_less_iff not_less nth_mem)
next
  assume "Some p \<in> set ch"
  then obtain i where i: "i < length ch" "ch ! i = Some p" by (auto simp: in_set_conv_nth)
  with assms obtain b where "H p = Some b" "nHeight b = int i" by (auto elim: chain_okD)
  then show "CChain_Contains H ch p" using i by (simp add: CChain_Contains_def CChain_at_def)
qed

text \<open>The fork of a block with the active chain: its nearest ancestor that the chain contains.\<close>

definition fork_with :: "block_index \<Rightarrow> CChain \<Rightarrow> block_ptr \<Rightarrow> block_ptr option \<Rightarrow> bool" where
  "fork_with H vChain p r \<longleftrightarrow>
     (case r of
        None \<Rightarrow> (\<forall>n a. walk_back H n p = Some a \<longrightarrow> \<not> CChain_Contains H vChain a)
      | Some a \<Rightarrow> CChain_Contains H vChain a \<and>
          (\<exists>n. walk_back H n p = Some a \<and>
               (\<forall>m < n. \<forall>c. walk_back H m p = Some c \<longrightarrow> \<not> CChain_Contains H vChain c)))"

lemma fork_with_prev:
  assumes "\<not> CChain_Contains H ch p" "prev_of H p = Some q" "fork_with H ch q r"
  shows "fork_with H ch p r"
proof (cases r)
  case None
  have "\<not> CChain_Contains H ch a" if "walk_back H n p = Some a" for n a
    using that assms None by (cases n) (auto simp: fork_with_def)
  then show ?thesis using None by (simp add: fork_with_def)
next
  case (Some a)
  with assms(3) obtain n where n: "CChain_Contains H ch a" "walk_back H n q = Some a"
    "\<And>m c. m < n \<Longrightarrow> walk_back H m q = Some c \<Longrightarrow> \<not> CChain_Contains H ch c"
    by (auto simp: fork_with_def)
  have "\<not> CChain_Contains H ch c" if "m < Suc n" "walk_back H m p = Some c" for m c
    using that assms n(3) by (cases m) auto
  then show ?thesis using Some n assms(2) by (auto simp: fork_with_def intro!: exI [of _ "Suc n"])
qed

lemma fork_with_walk:
  "walk_back H n p = Some q \<Longrightarrow> fork_with H ch q r \<Longrightarrow>
   (\<And>m c. m < n \<Longrightarrow> walk_back H m p = Some c \<Longrightarrow> \<not> CChain_Contains H ch c) \<Longrightarrow> fork_with H ch p r"
proof (induction n arbitrary: p)
  case 0
  then show ?case by simp
next
  case (Suc n)
  then obtain p' where p': "prev_of H p = Some p'" "walk_back H n p' = Some q" by (auto split: option.splits)
  have "fork_with H ch p' r"
  proof (rule Suc.IH [OF p'(2) Suc.prems(2)])
    fix m c
    assume "m < n" "walk_back H m p' = Some c"
    then show "\<not> CChain_Contains H ch c" using Suc.prems(3) [of "Suc m" c] p'(1) by simp
  qed
  moreover have "\<not> CChain_Contains H ch p" using Suc.prems(3) [of 0 p] by simp
  ultimately show ?case using fork_with_prev [OF _ p'(1)] by simp
qed

lemma FindFork_loop_correct:
  assumes wf: "wf_index H"
  shows "H q = Some bq \<Longrightarrow> nHeight bq = int k \<Longrightarrow> k < fuel \<Longrightarrow>
    \<exists>r. FindFork_loop fuel H ch (Some q) = Some r \<and> fork_with H ch q r"
proof (induction k arbitrary: q bq fuel)
  case 0
  then obtain f where f: "fuel = Suc f" by (cases fuel) auto
  have prev: "prev_of H q = None" using wf 0 by (simp add: wf_prev_None)
  have "fork_with H ch q None" if "\<not> CChain_Contains H ch q"
    unfolding fork_with_def using that prev by (simp split: option.split) (metis not0_implies_Suc option.simps(4) option.discI option.inject walk_back.simps)
  moreover have "fork_with H ch q (Some q)" if "CChain_Contains H ch q"
    using that by (auto simp: fork_with_def intro: exI [of _ 0])
  ultimately show ?case using f prev by simp
next
  case (Suc k)
  then obtain f where f: "fuel = Suc f" "k < f" by (cases fuel) auto
  show ?case
  proof (cases "CChain_Contains H ch q")
    case True
    then show ?thesis using f by (auto simp: fork_with_def intro: exI [of _ 0])
  next
    case False
    have "pprev bq \<noteq> None" using wf Suc.prems by (simp add: wf_prev_None)
    then obtain r where r: "pprev bq = Some r" by auto
    from wf_prev_Some [OF wf Suc.prems(1) r] obtain br where br: "H r = Some br" "nHeight bq = nHeight br + 1" .
    with Suc.IH [of r br f] Suc.prems f obtain s where
      "FindFork_loop f H ch (Some r) = Some s" "fork_with H ch r s" by auto
    moreover have "fork_with H ch q s" using fork_with_prev [OF False] calculation(2) r Suc.prems(1) by simp
    ultimately show ?thesis using False f r Suc.prems(1) by simp
  qed
qed

lemma not_Contains_above:
  "H c = Some bc \<Longrightarrow> nHeight bc > CChain_Height ch \<Longrightarrow> \<not> CChain_Contains H ch c"
  by (simp add: CChain_Contains_def CChain_at_def CChain_Height_def)

lemma FindFork_correct:
  assumes wf: "wf_index H" and p: "H p = Some b"
  shows "\<exists>r. CChain_FindFork H ch (Some p) = Inr (Some r) \<and> fork_with H ch p r"
proof (cases "nHeight b > CChain_Height ch")
  case False
  then show ?thesis
    using FindFork_loop_correct [OF wf p, of "nat (nHeight b)" "Suc (nat (nHeight b + 1))" ch]
      wf_height [OF wf p] p by (auto simp: CChain_FindFork_def)
next
  case above: True
  show ?thesis
  proof (cases "ch = []")
    case True
    then have "CChain_Height ch = - 1" by (simp add: CChain_Height_def)
    then have "CChain_FindFork H ch (Some p) = Inr (Some None)"
      using above p GetAncestor_correct [OF wf p, of "- 1"] by (simp add: CChain_FindFork_def)
    moreover have "fork_with H ch p None"
      using True by (auto simp: fork_with_def CChain_Contains_def CChain_at_def)
    ultimately show ?thesis by blast
  next
    case False
    then obtain h where h: "CChain_Height ch = int h" "int h < nHeight b"
      using above by (cases "length ch") (auto simp: CChain_Height_def)
    define n where "n = nat (nHeight b) - h"
    have "int n \<le> nHeight b" using h by (simp add: n_def)
    from walk_back_exists [OF wf p this] obtain q bq where
      q: "walk_back H n p = Some q" "H q = Some bq" "nHeight bq = int h" using h by (auto simp: n_def)
    then have "GetAncestor H p (int h) = Inr (Some q)"
      using h p by (simp add: GetAncestor_correct [OF wf p] ancestor_at_def n_def)
    moreover obtain r where r: "FindFork_loop (Suc (nat (nHeight b + 1))) H ch (Some q) = Some r" "fork_with H ch q r"
    proof -
      have "h < Suc (nat (nHeight b + 1))" using h(2) by linarith
      from FindFork_loop_correct [OF wf q(2,3) this, of ch] that show ?thesis by blast
    qed
    moreover have "fork_with H ch p r"
    proof (rule fork_with_walk [OF q(1) r(2)])
      fix m c
      assume "m < n" "walk_back H m p = Some c"
      with walk_back_height [OF wf p] obtain bc where "H c = Some bc" "nHeight bc = nHeight b - int m" by blast
      then show "\<not> CChain_Contains H ch c" using \<open>m < n\<close> h not_Contains_above [of H c bc ch] by (simp add: n_def)
    qed
    ultimately show ?thesis using above h(1) p by (simp add: CChain_FindFork_def)
  qed
qed

text \<open>A locator for \<open>p\<close>: ancestors of \<open>p\<close>, itself first, at falling heights, down to height 0.\<close>

definition locator_for :: "block_index \<Rightarrow> block_ptr \<Rightarrow> uint256 list \<Rightarrow> bool" where
  "locator_for H p xs \<longleftrightarrow> xs \<noteq> [] \<and> hd xs = p \<and> height_of H (last xs) = 0
     \<and> sorted_wrt (\<lambda>a c. height_of H c < height_of H a) xs
     \<and> (\<forall>a \<in> set xs. \<exists>n. walk_back H n p = Some a)"

lemma locator_for_Cons:
  assumes "wf_index H" "H p = Some b" "walk_back H n p = Some q" "0 < n" "locator_for H q xs"
  shows "locator_for H p (p # xs)"
proof -
  have anc: "\<exists>m. n \<le> m \<and> walk_back H m p = Some a" if a: "a \<in> set xs" for a
  proof -
    from assms(5) a obtain k where "walk_back H k q = Some a" by (auto simp: locator_for_def)
    then have "walk_back H (n + k) p = Some a" using assms(3) by (simp only: walk_back_add) simp
    then show ?thesis by (intro exI [of _ "n + k"]) simp
  qed
  moreover have "height_of H a < height_of H p" if "a \<in> set xs" for a
    using anc [OF that] walk_back_height [OF assms(1,2)] assms(2,4) by fastforce
  moreover have "\<exists>k. walk_back H k p = Some p" by (rule exI [of _ 0]) simp
  ultimately show ?thesis using assms(5) unfolding locator_for_def by (simp add: bex_simps) blast
qed

lemma locator_next:
  assumes "wf_index H" "chain_ok H ch" "H p = Some b" "h \<le> nat (nHeight b)"
  shows "(if CChain_Contains H ch p then Inr (CChain_at ch (int h)) else GetAncestor H p (int h)) =
         Inr (walk_back H (nat (nHeight b) - h) p)"
proof (cases "CChain_Contains H ch p")
  case True
  have nn: "0 \<le> nHeight b" using assms(1,3) by (rule wf_height)
  from True have "nat (nHeight b) < length ch" "ch ! nat (nHeight b) = Some p"
    using assms(3) nn by (auto simp: CChain_Contains_def CChain_at_def split: if_splits)
  then show ?thesis
    using True chain_ok_walk [OF assms(2), of "nat (nHeight b)" p "nat (nHeight b) - h"] assms(4)
    by (simp add: CChain_at_def)
next
  case False
  have nn: "0 \<le> nHeight b" using assms(1,3) by (rule wf_height)
  then have "int h \<le> nHeight b" using assms(4) by (simp add: le_nat_iff)
  then show ?thesis using False assms by (simp add: GetAncestor_correct ancestor_at_def)
qed

lemma GetLocator_loop_step:
  assumes "height_of H p \<noteq> 0"
    "(if CChain_Contains H ch p then Inr (CChain_at ch (max (height_of H p - nStep) 0))
      else GetAncestor H p (max (height_of H p - nStep) 0)) = Inr q"
  shows "GetLocator_loop (Suc f) H ch nStep vHave (Some p) =
    GetLocator_loop f H ch (if length (vHave @ [p]) > 10 then nStep * 2 else nStep) (vHave @ [p]) q"
  using assms by (simp add: Let_def)

lemma GetLocator_loop_correct:
  assumes wf: "wf_index H" and ch: "chain_ok H ch"
  shows "H p = Some b \<Longrightarrow> nHeight b = int k \<Longrightarrow> k < fuel \<Longrightarrow> 1 \<le> nStep \<Longrightarrow>
    \<exists>xs. GetLocator_loop fuel H ch nStep vHave (Some p) = Inr (Some (vHave @ xs)) \<and> locator_for H p xs"
proof (induction k arbitrary: p b fuel nStep vHave rule: less_induct)
  case (less k)
  then obtain f where f: "fuel = Suc f" "k \<le> f" by (cases fuel) auto
  show ?case
  proof (cases "k = 0")
    case True
    then show ?thesis
      using less.prems f by (auto simp: locator_for_def Let_def intro: exI [of _ "[p]"] exI [of _ 0])
  next
    case False
    define h where "h = nat (max (int k - nStep) 0)"
    have h: "h < k" "max (int k - nStep) 0 = int h" using False less.prems(4) by (auto simp: h_def)
    have nk: "nat (nHeight b) = k" using less.prems by simp
    from walk_back_exists [OF wf less.prems(1), of "k - h"] less.prems(2) h
    obtain q bq where q: "walk_back H (k - h) p = Some q" "H q = Some bq" "nHeight bq = int h"
      by (auto simp: of_nat_diff)
    define s where "s = (if length (vHave @ [p]) > 10 then nStep * 2 else nStep)"
    have "\<exists>xs. GetLocator_loop f H ch s (vHave @ [p]) (Some q) = Inr (Some ((vHave @ [p]) @ xs)) \<and> locator_for H q xs"
      using less.prems(4) f h by (intro less.IH [OF h(1) q(2,3)]) (auto simp: s_def)
    then obtain xs where xs: "GetLocator_loop f H ch s (vHave @ [p]) (Some q) = Inr (Some (vHave @ p # xs))"
      "locator_for H q xs" by auto
    have "locator_for H p (p # xs)" using h by (intro locator_for_Cons [OF wf less.prems(1) q(1) _ xs(2)]) simp
    moreover have "GetLocator_loop fuel H ch nStep vHave (Some p) = Inr (Some (vHave @ p # xs))"
    proof -
      have "(if CChain_Contains H ch p then Inr (CChain_at ch (max (height_of H p - nStep) 0))
        else GetAncestor H p (max (height_of H p - nStep) 0)) = Inr (Some q)"
        using locator_next [OF wf ch less.prems(1), of h] h nk q(1) less.prems(1,2) by (simp split: if_splits)
      then show ?thesis
        using xs(1) False less.prems(1,2) f by (subst f(1), subst GetLocator_loop_step) (simp_all add: s_def)
    qed
    ultimately show ?thesis by blast
  qed
qed

lemma GetLocator_correct:
  assumes "wf_index H" "chain_ok H ch" "H p = Some b"
    "(case pindex of None \<Rightarrow> CChain_Tip ch | Some q \<Rightarrow> Some q) = Some p"
  shows "\<exists>xs. CChain_GetLocator H ch pindex = Inr (Some xs) \<and> locator_for H p xs"
proof -
  have nn: "0 \<le> nHeight b" using assms(1,3) by (rule wf_height)
  then show ?thesis
    using GetLocator_loop_correct [OF assms(1,2,3), of "nat (nHeight b)" "Suc (nat (nHeight b))" 1 "[]"] assms(3,4)
    by (simp add: CChain_GetLocator_def Let_def)
qed


section \<open>Medians and skip pointers\<close>

lemma sorted_nth_le_count:
  assumes "sorted xs" "i < length xs"
  shows "Suc i \<le> length (filter (\<lambda>x. x \<le> xs ! i) xs)" "length xs - i \<le> length (filter (\<lambda>x. xs ! i \<le> x) xs)"
proof -
  have "{..i} \<subseteq> {j. j < length xs \<and> xs ! j \<le> xs ! i}"
    using assms by (auto intro: sorted_nth_mono)
  from card_mono [OF _ this] show "Suc i \<le> length (filter (\<lambda>x. x \<le> xs ! i) xs)"
    by (simp add: length_filter_conv_card)
  have "{i..<length xs} \<subseteq> {j. j < length xs \<and> xs ! i \<le> xs ! j}"
    using assms by (auto intro: sorted_nth_mono)
  from card_mono [OF _ this] show "length xs - i \<le> length (filter (\<lambda>x. xs ! i \<le> x) xs)"
    by (simp add: length_filter_conv_card)
qed

lemma length_filter_sort: "length (filter P (sort xs)) = length (filter P (xs :: int list))"
  by (metis filter_sort length_sort)

lemma median_times_pos: "H p = Some b \<Longrightarrow> 0 < length (median_times nMedianTimeSpan H (Some p))"
  by (simp add: nMedianTimeSpan_def numeral_eq_Suc)

lemma median_times_length: "length (median_times n H p) \<le> n"
  by (induction n H p rule: median_times.induct) (auto split: option.splits)

lemma BuildSkip_wf:
  assumes wf: "wf_index H" and q: "pprev b = Some q" "H q = Some bq" "nHeight b = nHeight bq + 1"
    and H': "H \<subseteq>\<^sub>m H'" "H' p = Some b'" "b' = b\<lparr>pskip := s\<rparr>"
    and s: "BuildSkip H b = Inr (b\<lparr>pskip := s\<rparr>)"
  shows "wf_entry H' p b'"
proof -
  let ?k = "GetSkipHeight (nat (nHeight b))"
  have nn: "0 \<le> nHeight bq" using wf q(2) by (rule wf_height)
  have k: "?k < nat (nHeight b)" using nn q(3) by (intro GetSkipHeight_less) simp
  have "GetAncestor H q (int ?k) = Inr s" 
    using s q GetAncestor_correct [OF wf q(2), of "int ?k"] by (auto simp: BuildSkip_def dest: arg_cong [of _ _ pskip])
  then have "s = ancestor_at H q ?k" using GetAncestor_correct [OF wf q(2), of "int ?k"] by simp
  also have "\<dots> = ancestor_at H' q ?k" by (rule ancestor_at_mono [OF wf H'(1) q(2), symmetric])
  also have "\<dots> = ancestor_at H' p ?k"
  proof -
    have "int ?k \<le> nHeight bq" "nat (nHeight b) - ?k = Suc (nat (nHeight bq) - ?k)" using k nn q(3) by linarith+
    then show ?thesis using H'(2,3) q map_leD [OF H'(1) q(2)] nn by (simp add: ancestor_at_def)
  qed
  finally show ?thesis
    using q nn map_leD [OF H'(1) q(2)] H' by (auto simp: wf_entry_def split: option.split)
qed

section \<open>Properties of the chain\<close>

text \<open>A concrete index for the examples: a genesis block 0, its child 1 with child 2, and a second child 3.\<close>

definition ex_ptr :: "byte \<Rightarrow> block_ptr" where
  "ex_ptr n = replicate 32 n"

definition ex_index :: block_index where
  "ex_index = [ex_ptr 0 \<mapsto> CBlockIndex_null,
     ex_ptr 1 \<mapsto> CBlockIndex_null\<lparr>nHeight := 1, pprev := Some (ex_ptr 0), pskip := Some (ex_ptr 0), nTime := 5\<rparr>,
     ex_ptr 2 \<mapsto> CBlockIndex_null\<lparr>nHeight := 2, pprev := Some (ex_ptr 1), pskip := Some (ex_ptr 0), nTime := 3\<rparr>,
     ex_ptr 3 \<mapsto> CBlockIndex_null\<lparr>nHeight := 1, pprev := Some (ex_ptr 0), pskip := Some (ex_ptr 0), nTime := 9\<rparr>]"

lemma ex_ptr_eq [simp]: "ex_ptr m = ex_ptr n \<longleftrightarrow> m = n"
  by (simp add: ex_ptr_def)

lemma ex_skip_heights: "GetSkipHeight (Suc 0) = 0" "GetSkipHeight (Suc (Suc 0)) = 0"
  by code_simp+

lemma ex_index_simps [simp]:
  "ex_index (ex_ptr 0) = Some CBlockIndex_null"
  "ex_index (ex_ptr 1) = Some (CBlockIndex_null\<lparr>nHeight := 1, pprev := Some (ex_ptr 0), pskip := Some (ex_ptr 0), nTime := 5\<rparr>)"
  "ex_index (ex_ptr 2) = Some (CBlockIndex_null\<lparr>nHeight := 2, pprev := Some (ex_ptr 1), pskip := Some (ex_ptr 0), nTime := 3\<rparr>)"
  "ex_index (ex_ptr 3) = Some (CBlockIndex_null\<lparr>nHeight := 1, pprev := Some (ex_ptr 0), pskip := Some (ex_ptr 0), nTime := 9\<rparr>)"
  by (simp_all add: ex_index_def)

lemma ex_index_wf: "wf_index ex_index"
proof -
  have "wf_entry ex_index (ex_ptr 0) (the (ex_index (ex_ptr 0)))"
    "wf_entry ex_index (ex_ptr 1) (the (ex_index (ex_ptr 1)))"
    "wf_entry ex_index (ex_ptr 2) (the (ex_index (ex_ptr 2)))"
    "wf_entry ex_index (ex_ptr 3) (the (ex_index (ex_ptr 3)))"
    by (simp_all add: wf_entry_def CBlockIndex_null_def ancestor_at_def ex_skip_heights numeral_2_eq_2)
  moreover have "p \<in> {ex_ptr 0, ex_ptr 1, ex_ptr 2, ex_ptr 3}" if "ex_index p = Some b" for p b
    using that by (auto simp: ex_index_def split: if_splits)
  ultimately show ?thesis unfolding wf_index_def by force
qed

definition ex_chain :: CChain where
  "ex_chain = [Some (ex_ptr 0), Some (ex_ptr 3)]"

lemma ex_chain_ok: "chain_ok ex_index ex_chain"
  by (auto simp: chain_ok_def ex_chain_def less_Suc_eq CBlockIndex_null_def)

text \<open>
  C5. On a well-formed index \<open>GetAncestor\<close> ends, never fails its assertion, and returns the block
  reached by following \<open>pprev\<close> down to the height asked for, and the null pointer for a height that
  is negative or above the block: the skip pointers change the way and not the result.
\<close>

theorem GetAncestor_is_ancestor:
  assumes "wf_index H" "H p = Some b"
  shows "GetAncestor H p h = Inr (if h < 0 then None else ancestor_at H p (nat h))
    \<and> (0 \<le> h \<and> h \<le> nHeight b \<longrightarrow> (\<exists>q b'. GetAncestor H p h = Inr (Some q) \<and> H q = Some b' \<and> nHeight b' = h))"
proof (intro conjI impI)
  show "GetAncestor H p h = Inr (if h < 0 then None else ancestor_at H p (nat h))"
    by (rule GetAncestor_correct [OF assms])
  assume h: "0 \<le> h \<and> h \<le> nHeight b"
  then have "int (nat (nHeight b) - nat h) = nHeight b - h" by linarith
  with walk_back_exists [OF assms, of "nat (nHeight b) - nat h"] h show
    "\<exists>q b'. GetAncestor H p h = Inr (Some q) \<and> H q = Some b' \<and> nHeight b' = h"
    by (auto simp: GetAncestor_correct [OF assms] ancestor_at_def assms(2))
qed

theorem GetAncestor_is_ancestor_witness:
  "wf_index ex_index \<and> GetAncestor ex_index (ex_ptr 2) 1 = Inr (Some (ex_ptr 1))"
  using GetAncestor_is_ancestor [OF ex_index_wf ex_index_simps(3), of 1] ex_index_wf
  by (simp add: ancestor_at_def)

text \<open>
  C6. \<open>SetTip\<close> leaves the active chain equal to the path from the new tip to genesis, whatever
  branch the chain was on: every slot holds the block of that height, linked to the slot below, the
  vector is as long as the tip's height asks, and the walk ends within its fuel.
\<close>

theorem SetTip_sets_active_chain:
  assumes "wf_index H" "chain_ok H vChain" "H p = Some b"
  shows "\<exists>ch. CChain_SetTip H vChain (Some p) = Some ch \<and> chain_ok H ch \<and> CChain_Tip ch = Some p
    \<and> CChain_Height ch = nHeight b
    \<and> (\<forall>a. CChain_Contains H ch a \<longleftrightarrow> (\<exists>n. walk_back H n p = Some a))"
proof -
  from SetTip_correct [OF assms] obtain ch where ch: "CChain_SetTip H vChain (Some p) = Some ch"
    "chain_ok H ch" "length ch = Suc (nat (nHeight b))" "CChain_Tip ch = Some p" .
  have nn: "0 \<le> nHeight b" using assms(1,3) by (rule wf_height)
  have tip: "nat (nHeight b) < length ch" "ch ! nat (nHeight b) = Some p"
    using ch(3,4) by (simp_all add: CChain_Tip_def)
  note walk = chain_ok_walk [OF ch(2) tip]
  have "(Some a \<in> set ch) \<longleftrightarrow> (\<exists>n. walk_back H n p = Some a)" for a
  proof
    assume "Some a \<in> set ch"
    then obtain i where "i < length ch" "ch ! i = Some a" by (auto simp: in_set_conv_nth)
    then show "\<exists>n. walk_back H n p = Some a"
      using walk [of "nat (nHeight b) - i"] ch(3) by (intro exI [of _ "nat (nHeight b) - i"]) simp
  next
    assume "\<exists>n. walk_back H n p = Some a"
    then obtain n where n: "walk_back H n p = Some a" by blast
    with walk_back_height [OF assms(1,3) n] wf_height [OF assms(1)] have "n \<le> nat (nHeight b)" by fastforce
    with walk [of n] n tip(1) show "Some a \<in> set ch" by (metis less_imp_diff_less nth_mem)
  qed
  then show ?thesis using ch nn by (auto simp: Contains_iff CChain_Height_def)
qed

theorem SetTip_sets_active_chain_witness:
  "chain_ok ex_index ex_chain \<and>
   (\<exists>ch. CChain_SetTip ex_index ex_chain (Some (ex_ptr 2)) = Some ch \<and> CChain_Contains ex_index ch (ex_ptr 1)
     \<and> CChain_Height ch = 2)"
proof -
  have "walk_back ex_index 1 (ex_ptr 2) = Some (ex_ptr 1)" by simp
  then show ?thesis
    using SetTip_sets_active_chain [OF ex_index_wf ex_chain_ok ex_index_simps(3)] ex_chain_ok by fastforce
qed

text \<open>
  C7. \<open>FindFork\<close> returns the nearest ancestor of the block (itself included) that is in the active
  chain, and the null pointer exactly when there is none; it never fails and ends within its fuel.
\<close>

theorem FindFork_nearest:
  assumes "wf_index H" "H p = Some b"
  shows "\<exists>r. CChain_FindFork H vChain (Some p) = Inr (Some r) \<and> fork_with H vChain p r"
  using FindFork_correct [OF assms] .

theorem FindFork_nearest_witness:
  "\<exists>r. CChain_FindFork ex_index ex_chain (Some (ex_ptr 2)) = Inr (Some r) \<and> fork_with ex_index ex_chain (ex_ptr 2) r"
  by (rule FindFork_nearest [OF ex_index_wf ex_index_simps(3)])

text \<open>
  C8. A locator starts with the block it is for (the tip, for the null pointer), lists ancestors of
  it at strictly falling heights, and ends with the genesis block; it is the same whether the
  blocks are found through the active chain or through \<open>GetAncestor\<close>, which never fails here.
\<close>

theorem GetLocator_reaches_genesis:
  assumes "wf_index H" "chain_ok H vChain" "H p = Some b"
    and "pindex = Some p \<or> pindex = None \<and> CChain_Tip vChain = Some p"
  shows "\<exists>xs. CChain_GetLocator H vChain pindex = Inr (Some xs) \<and> locator_for H p xs"
  using assms(4) by (intro GetLocator_correct [OF assms(1,2,3)]) auto

theorem GetLocator_reaches_genesis_witness:
  "\<exists>xs. CChain_GetLocator ex_index ex_chain None = Inr (Some xs) \<and> locator_for ex_index (ex_ptr 3) xs"
  by (rule GetLocator_reaches_genesis [OF ex_index_wf ex_chain_ok ex_index_simps(4)])
    (simp add: ex_chain_def CChain_Tip_def)

text \<open>
  The median time past of a block is one of the times of the last eleven blocks, and no more
  than half of those times are before it, and no more than half are after it.
\<close>

lemma GetMedianTimePast_median:
  assumes "H p = Some b"
  shows "(let ts = median_times nMedianTimeSpan H (Some p); m = GetMedianTimePast H p
    in m \<in> set ts \<and> length ts \<le> 11
      \<and> 2 * length (filter (\<lambda>t. t < m) ts) \<le> length ts
      \<and> 2 * length (filter (\<lambda>t. m < t) ts) \<le> length ts)"
proof -
  define ts where "ts = median_times nMedianTimeSpan H (Some p)"
  define i where "i = length ts div 2"
  have i: "i < length (sort ts)" using median_times_pos [of H p b] assms by (simp add: ts_def i_def)
  define m where "m = sort ts ! i"
  have gm: "GetMedianTimePast H p = m" by (simp add: GetMedianTimePast_def Let_def m_def ts_def i_def)
  have "m \<in> set ts" using nth_mem [OF i] by (simp add: m_def)
  moreover have "Suc i \<le> length (filter (\<lambda>t. t \<le> m) ts)" "length ts - i \<le> length (filter (\<lambda>t. m \<le> t) ts)"
    using sorted_nth_le_count [OF _ i] by (simp_all add: m_def length_filter_sort)
  moreover have "length (filter (\<lambda>t. t \<le> m) ts) + length (filter (\<lambda>t. m < t) ts) = length ts"
    "length (filter (\<lambda>t. m \<le> t) ts) + length (filter (\<lambda>t. t < m) ts) = length ts"
    using sum_length_filter_compl [of "\<lambda>t. t \<le> m" ts] sum_length_filter_compl [of "\<lambda>t. m \<le> t" ts]
    by (simp_all add: not_le)
  moreover have "length ts \<le> 11" using median_times_length [of nMedianTimeSpan] by (simp add: ts_def nMedianTimeSpan_def)
  ultimately show ?thesis unfolding Let_def gm ts_def [symmetric] by (auto simp: i_def)
qed

end
