(* ===== verification/Consensus.thy ===== *)
theory Consensus
  imports Prelude
begin

text \<open>
  Consensus parameters (\<open>consensus/params.h\<close>, \<open>consensus/params.cpp\<close>), network upgrades
  (\<open>consensus/upgrades.cpp\<close>), amounts and fee rates (\<open>amount.h\<close>, \<open>amount.cpp\<close>), the block subsidy
  (\<open>GetBlockSubsidy\<close> of \<open>main.cpp\<close>) and the height-dependent tables of \<open>chainparams.cpp\<close>. Heights and
  amounts are integers; conversions to unsigned types are written out where the code relies on them.
\<close>

section \<open>Amounts and fee rates\<close>

type_synonym CAmount = int
type_synonym CScript = "byte list"

definition COIN :: CAmount where
  "COIN = 100000000"

definition CENT :: CAmount where
  "CENT = 1000000"

definition MAX_MONEY :: CAmount where
  "MAX_MONEY = 21000000000 * COIN"

definition MoneyRange :: "CAmount \<Rightarrow> bool" where
  "MoneyRange nValue \<longleftrightarrow> nValue \<ge> 0 \<and> nValue \<le> MAX_MONEY"

text \<open>
  A fee rate is its \<open>nSatoshisPerK\<close>. Multiplying an \<open>int64_t\<close> with a \<open>size_t\<close> converts it to 64
  unsigned bits, and so does the division; the result is read back as a signed 64-bit integer.
\<close>

type_synonym CFeeRate = "64 word"

definition DEFAULT_FEE :: "64 word" where
  "DEFAULT_FEE = 1000"

definition CFeeRate_of :: "64 word \<Rightarrow> 64 word \<Rightarrow> CFeeRate" where
  "CFeeRate_of nFeePaid nSize = (if nSize > 0 then nFeePaid * 1000 div nSize else 0)"

definition GetFee :: "CFeeRate \<Rightarrow> 64 word \<Rightarrow> 64 word" where
  "GetFee nSatoshisPerK nSize =
     (let nFee = nSatoshisPerK * nSize div 1000
      in if nFee = 0 \<and> sint nSatoshisPerK > 0 then nSatoshisPerK else nFee)"

definition GetFeeForRelay :: "CFeeRate \<Rightarrow> 64 word \<Rightarrow> 64 word" where
  "GetFeeForRelay rate nSize =
     (if sint DEFAULT_FEE < sint (GetFee rate nSize) then DEFAULT_FEE else GetFee rate nSize)"

definition GetFeePerK :: "CFeeRate \<Rightarrow> 64 word" where
  "GetFeePerK rate = GetFee rate 1000"

section \<open>Parameters\<close>

text \<open>\<open>UpgradeIndex\<close> is an enumeration over \<open>uint32_t\<close>; the indexes are its values.\<close>

definition BASE_SPROUT :: nat where "BASE_SPROUT = 0"
definition UPGRADE_TESTDUMMY :: nat where "UPGRADE_TESTDUMMY = 1"
definition UPGRADE_OVERWINTER :: nat where "UPGRADE_OVERWINTER = 2"
definition UPGRADE_SAPLING :: nat where "UPGRADE_SAPLING = 3"
definition UPGRADE_CANOPY :: nat where "UPGRADE_CANOPY = 4"
definition MAX_NETWORK_UPGRADES :: nat where "MAX_NETWORK_UPGRADES = 5"

lemmas upgrade_index_defs = BASE_SPROUT_def UPGRADE_TESTDUMMY_def UPGRADE_OVERWINTER_def
  UPGRADE_SAPLING_def UPGRADE_CANOPY_def MAX_NETWORK_UPGRADES_def

record NetworkUpgrade =
  nProtocolVersion :: int
  nActivationHeight :: int
  hashActivationBlock :: "uint256 option"

definition ALWAYS_ACTIVE :: int where "ALWAYS_ACTIVE = 0"
definition NO_ACTIVATION_HEIGHT :: int where "NO_ACTIVATION_HEIGHT = - 1"

datatype FundingStreamError = CANOPY_NOT_ACTIVE | ILLEGAL_RANGE | INSUFFICIENT_ADDRESSES

record FundingStream =
  fs_startHeight :: int
  fs_endHeight :: int
  fs_addresses :: "CScript list"

record Params =
  hashGenesisBlock :: uint256
  fCoinbaseMustBeShielded :: bool
  nSubsidyHalvingInterval :: int
  nMajorityEnforceBlockUpgrade :: int
  nMajorityRejectBlockOutdated :: int
  nMajorityWindow :: int
  vUpgrades :: "NetworkUpgrade list"
  nFundingPeriodLength :: int
  vFundingStreams :: "FundingStream option list"
  powLimit :: uint256
  nPowAllowMinDifficultyBlocksAfterHeight :: "uint32_t option"
  nPowAveragingWindow :: int
  nPowMaxAdjustDown :: int
  nPowMaxAdjustUp :: int
  nPowTargetSpacing :: int
  nMinimumChainWork :: uint256
  vCommunityFeeStartHeight :: int
  vCommunityFeeLastHeight :: int

section \<open>Network upgrades\<close>

datatype UpgradeState = UPGRADE_DISABLED | UPGRADE_PENDING | UPGRADE_ACTIVE

record NUInfo =
  nBranchId :: uint32_t
  strName :: string
  strInfo :: string

definition NetworkUpgradeInfo :: "NUInfo list" where
  "NetworkUpgradeInfo =
     [\<lparr>nBranchId = 0, strName = ''Sprout'',
       strInfo = ''The BitcoinZ network at launch''\<rparr>,
      \<lparr>nBranchId = 0x74736554, strName = ''Test dummy'',
       strInfo = ''Test dummy info''\<rparr>,
      \<lparr>nBranchId = 0x5ba81b19, strName = ''Overwinter'',
       strInfo = ''See https://z.cash/upgrade/overwinter.html for details.''\<rparr>,
      \<lparr>nBranchId = 0x76b809bb, strName = ''Sapling'',
       strInfo = ''See https://z.cash/upgrade/sapling.html for details.''\<rparr>,
      \<lparr>nBranchId = 0xe9ff75a6, strName = ''Canopy'',
       strInfo = ''See https://z.cash/upgrade/canopy/ for details.''\<rparr>]"

definition SPROUT_BRANCH_ID :: uint32_t where
  "SPROUT_BRANCH_ID = nBranchId (NetworkUpgradeInfo ! BASE_SPROUT)"

definition NetworkUpgradeState :: "int \<Rightarrow> Params \<Rightarrow> nat \<Rightarrow> UpgradeState result" where
  "NetworkUpgradeState nHeight params idx =
     (if \<not> nHeight \<ge> 0 then Inl (AssertFail ''nHeight >= 0'')
      else if \<not> idx < MAX_NETWORK_UPGRADES then Inl (AssertFail ''idx'')
      else let act = nActivationHeight (vUpgrades params ! idx)
           in if act = NO_ACTIVATION_HEIGHT then Inr UPGRADE_DISABLED
              else if nHeight \<ge> act then Inr UPGRADE_ACTIVE
              else Inr UPGRADE_PENDING)"

definition NetworkUpgradeActive :: "Params \<Rightarrow> int \<Rightarrow> nat \<Rightarrow> bool result" where
  "NetworkUpgradeActive params nHeight idx =
     map_sum id (\<lambda>s. s = UPGRADE_ACTIVE) (NetworkUpgradeState nHeight params idx)"

text \<open>
  The counter of the loop in \<open>CurrentEpoch\<close> has the type of \<open>MAX_NETWORK_UPGRADES - 1\<close>, which is
  unsigned: its test \<open>idxInt >= BASE_SPROUT\<close> is always true, and after index 0 it wraps to
  \<open>2^32 - 1\<close>, on which \<open>NetworkUpgradeState\<close> fails its assertion.
\<close>

fun CurrentEpoch_loop :: "int \<Rightarrow> Params \<Rightarrow> nat \<Rightarrow> nat result" where
  "CurrentEpoch_loop nHeight params idx =
     (case NetworkUpgradeActive params nHeight idx of
        Inl e \<Rightarrow> Inl e
      | Inr True \<Rightarrow> Inr idx
      | Inr False \<Rightarrow>
          (case idx of
             0 \<Rightarrow> (case NetworkUpgradeActive params nHeight (2 ^ 32 - 1) of Inl e \<Rightarrow> Inl e | Inr _ \<Rightarrow> Inr (2 ^ 32 - 1))
           | Suc i \<Rightarrow> CurrentEpoch_loop nHeight params i))"

declare CurrentEpoch_loop.simps [simp del]

definition CurrentEpoch :: "int \<Rightarrow> Params \<Rightarrow> nat result" where
  "CurrentEpoch nHeight params = CurrentEpoch_loop nHeight params (MAX_NETWORK_UPGRADES - 1)"

definition CurrentEpochBranchId :: "int \<Rightarrow> Params \<Rightarrow> uint32_t result" where
  "CurrentEpochBranchId nHeight params =
     map_sum id (\<lambda>e. nBranchId (NetworkUpgradeInfo ! e)) (CurrentEpoch nHeight params)"

definition PrevEpochBranchId :: "uint32_t \<Rightarrow> uint32_t" where
  "PrevEpochBranchId currentBranchId =
     (case filter (\<lambda>idx. currentBranchId = nBranchId (NetworkUpgradeInfo ! idx)) [BASE_SPROUT + 1..<MAX_NETWORK_UPGRADES] of
        idx # _ \<Rightarrow> nBranchId (NetworkUpgradeInfo ! (idx - 1))
      | [] \<Rightarrow> nBranchId (NetworkUpgradeInfo ! BASE_SPROUT))"

definition IsConsensusBranchId :: "int \<Rightarrow> bool" where
  "IsConsensusBranchId branchId =
     list_ex (\<lambda>idx. word_of_int branchId = nBranchId (NetworkUpgradeInfo ! idx)) [BASE_SPROUT..<MAX_NETWORK_UPGRADES]"

definition IsActivationHeight :: "int \<Rightarrow> Params \<Rightarrow> nat \<Rightarrow> bool result" where
  "IsActivationHeight nHeight params idx =
     (if \<not> idx < MAX_NETWORK_UPGRADES then Inl (AssertFail ''idx'')
      else if idx = BASE_SPROUT then Inr False
      else Inr (nHeight \<ge> 0 \<and> nHeight = nActivationHeight (vUpgrades params ! idx)))"

definition IsActivationHeightForAnyUpgrade :: "int \<Rightarrow> Params \<Rightarrow> bool" where
  "IsActivationHeightForAnyUpgrade nHeight params =
     (if nHeight < 0 then False
      else list_ex (\<lambda>idx. nHeight = nActivationHeight (vUpgrades params ! idx)) [BASE_SPROUT + 1..<MAX_NETWORK_UPGRADES])"

fun NextEpoch_loop :: "int \<Rightarrow> Params \<Rightarrow> nat list \<Rightarrow> nat option result" where
  "NextEpoch_loop nHeight params [] = Inr None"
| "NextEpoch_loop nHeight params (idx # is) =
     (case NetworkUpgradeState nHeight params idx of
        Inl e \<Rightarrow> Inl e
      | Inr s \<Rightarrow> if s = UPGRADE_PENDING then Inr (Some idx) else NextEpoch_loop nHeight params is)"

definition NextEpoch :: "int \<Rightarrow> Params \<Rightarrow> nat option result" where
  "NextEpoch nHeight params =
     (if nHeight < 0 then Inr None
      else NextEpoch_loop nHeight params [BASE_SPROUT + 1..<MAX_NETWORK_UPGRADES])"

definition NextActivationHeight :: "int \<Rightarrow> Params \<Rightarrow> int option result" where
  "NextActivationHeight nHeight params =
     map_sum id (map_option (\<lambda>idx. nActivationHeight (vUpgrades params ! idx))) (NextEpoch nHeight params)"

section \<open>Halvings, subsidy and funding streams\<close>

text \<open>Division and remainder of C++ truncate towards zero.\<close>

definition Halving :: "Params \<Rightarrow> int \<Rightarrow> int" where
  "Halving params nHeight = nHeight sdiv nSubsidyHalvingInterval params"

definition HalvingHeight :: "Params \<Rightarrow> int \<Rightarrow> int result" where
  "HalvingHeight params halvingIndex =
     (if \<not> halvingIndex > 0 then Inl (AssertFail ''halvingIndex > 0'')
      else Inr (nSubsidyHalvingInterval params * halvingIndex))"

definition GetBlockSubsidy :: "int \<Rightarrow> Params \<Rightarrow> CAmount" where
  "GetBlockSubsidy nHeight params =
     (let nSubsidy = 12500 * COIN;
          halvings = Halving params nHeight
      in if halvings \<ge> 64 then 0 else drop_bit (nat halvings) nSubsidy)"

definition FundingPeriodIndex :: "Params \<Rightarrow> int \<Rightarrow> int \<Rightarrow> int result" where
  "FundingPeriodIndex params fundingStreamStartHeight nHeight =
     (case HalvingHeight params 1 of
        Inl e \<Rightarrow> Inl e
      | Inr firstHalvingHeight \<Rightarrow>
          (let off = (fundingStreamStartHeight - firstHalvingHeight) smod nFundingPeriodLength params;
               off = (if off < 0 then off + nFundingPeriodLength params else off)
           in Inr ((nHeight - fundingStreamStartHeight + off) sdiv nFundingPeriodLength params)))"

text \<open>An \<open>int\<close> compared with a \<open>size_t\<close> is converted to 64 unsigned bits.\<close>

definition to_size_t :: "int \<Rightarrow> int" where
  "to_size_t x = x mod 2 ^ 64"

definition ValidateFundingStream ::
  "Params \<Rightarrow> int \<Rightarrow> int \<Rightarrow> CScript list \<Rightarrow> (FundingStreamError + FundingStream) result" where
  "ValidateFundingStream params startHeight endHeight addresses =
     (case NetworkUpgradeActive params startHeight UPGRADE_CANOPY of
        Inl e \<Rightarrow> Inl e
      | Inr active \<Rightarrow>
          if \<not> active then Inr (Inl CANOPY_NOT_ACTIVE)
          else if endHeight < startHeight then Inr (Inl ILLEGAL_RANGE)
          else (case FundingPeriodIndex params startHeight (endHeight - 1) of
                  Inl e \<Rightarrow> Inl e
                | Inr i \<Rightarrow>
                    if to_size_t i \<ge> int (length addresses) then Inr (Inl INSUFFICIENT_ADDRESSES)
                    else Inr (Inr \<lparr>fs_startHeight = startHeight, fs_endHeight = endHeight, fs_addresses = addresses\<rparr>)))"

definition GetFundingStreamOrThrow :: "FundingStreamError + FundingStream \<Rightarrow> FundingStream result" where
  "GetFundingStreamOrThrow v =
     (case v of
        Inr fs \<Rightarrow> Inr fs
      | Inl CANOPY_NOT_ACTIVE \<Rightarrow>
          Inl (Throw ''Canopy network upgrade not active at funding stream start height.'')
      | Inl ILLEGAL_RANGE \<Rightarrow>
          Inl (Throw ''Illegal start/end height combination for funding stream.'')
      | Inl INSUFFICIENT_ADDRESSES \<Rightarrow>
          Inl (Throw ''Insufficient payment addresses to fully exhaust funding stream.''))"

text \<open>
  Decoding an address and building its script is the parameter \<open>decode\<close>; an address that is not a
  valid destination gives \<open>None\<close> and is skipped, as in the source.
\<close>

definition ParseFundingStream ::
  "(string \<Rightarrow> CScript option) \<Rightarrow> Params \<Rightarrow> int \<Rightarrow> int \<Rightarrow> string list \<Rightarrow> FundingStream result" where
  "ParseFundingStream decode params startHeight endHeight strAddresses =
     (case ValidateFundingStream params startHeight endHeight (List.map_filter decode strAddresses) of
        Inl e \<Rightarrow> Inl e
      | Inr v \<Rightarrow> GetFundingStreamOrThrow v)"

definition AddZIP207FundingStream ::
  "(string \<Rightarrow> CScript option) \<Rightarrow> Params \<Rightarrow> nat \<Rightarrow> int \<Rightarrow> int \<Rightarrow> string list \<Rightarrow> Params result" where
  "AddZIP207FundingStream decode params idx startHeight endHeight strAddresses =
     (if startHeight \<ge> 0 then
        map_sum id (\<lambda>fs. params\<lparr>vFundingStreams := (vFundingStreams params)[idx := Some fs]\<rparr>)
          (ParseFundingStream decode params startHeight endHeight strAddresses)
      else Inr params)"

definition RecipientAddress :: "FundingStream \<Rightarrow> Params \<Rightarrow> int \<Rightarrow> CScript result" where
  "RecipientAddress fs params nHeight =
     (case FundingPeriodIndex params (fs_startHeight fs) nHeight of
        Inl e \<Rightarrow> Inl e
      | Inr addressIndex \<Rightarrow>
          if \<not> (addressIndex \<ge> 0 \<and> to_size_t addressIndex < int (length (fs_addresses fs)))
          then Inl (AssertFail ''addressIndex'')
          else Inr (fs_addresses fs ! nat addressIndex))"

section \<open>Timing of the proof of work\<close>

definition PoWTargetSpacing :: "Params \<Rightarrow> int \<Rightarrow> int" where
  "PoWTargetSpacing params nHeight = nPowTargetSpacing params"

definition AveragingWindowTimespan :: "Params \<Rightarrow> int \<Rightarrow> int" where
  "AveragingWindowTimespan params nHeight = nPowAveragingWindow params * PoWTargetSpacing params nHeight"

definition MinActualTimespan :: "Params \<Rightarrow> int \<Rightarrow> int" where
  "MinActualTimespan params nHeight =
     (AveragingWindowTimespan params nHeight * (100 - nPowMaxAdjustUp params)) sdiv 100"

definition MaxActualTimespan :: "Params \<Rightarrow> int \<Rightarrow> int" where
  "MaxActualTimespan params nHeight =
     (AveragingWindowTimespan params nHeight * (100 + nPowMaxAdjustDown params)) sdiv 100"

section \<open>Chain parameters\<close>

record EHparameters =
  eh_n :: int
  eh_k :: int
  eh_nSolSize :: int

definition eh200_9 :: EHparameters where
  "eh200_9 = \<lparr>eh_n = 200, eh_k = 9, eh_nSolSize = 1344\<rparr>"

definition eh144_5 :: EHparameters where
  "eh144_5 = \<lparr>eh_n = 144, eh_k = 5, eh_nSolSize = 100\<rparr>"

definition eh96_5 :: EHparameters where
  "eh96_5 = \<lparr>eh_n = 96, eh_k = 5, eh_nSolSize = 68\<rparr>"

definition eh48_5 :: EHparameters where
  "eh48_5 = \<lparr>eh_n = 48, eh_k = 5, eh_nSolSize = 36\<rparr>"

text \<open>
  The parts of \<open>CChainParams\<close> that consensus code reads; the future-time windows are the sorted map,
  as an association list in the order of its keys.
\<close>

record CChainParams =
  cp_consensus :: Params
  eh_epoch_1 :: EHparameters
  eh_epoch_2 :: EHparameters
  eh_epoch_1_endblock :: uint64_t
  eh_epoch_2_startblock :: uint64_t
  futureBlockTimeWindows :: "(int \<times> int) list"
  vCommunityFeeAddress :: "string list"
  fZIP209Enabled :: bool
  cp_checkpoints :: "(int \<times> uint256) list"

definition GetCommunityFeeAddressAtHeight :: "CChainParams \<Rightarrow> int \<Rightarrow> string result" where
  "GetCommunityFeeAddressAtHeight cp nHeight =
     (let maxHeight = vCommunityFeeLastHeight (cp_consensus cp);
          n = int (length (vCommunityFeeAddress cp))
      in if \<not> (nHeight > 0 \<and> nHeight \<le> maxHeight) then Inl (AssertFail ''nHeight > 0 && nHeight <= maxHeight'')
         else let addressChangeInterval = (maxHeight + n) div n;
                  i = nHeight div addressChangeInterval
              in if i < n then Inr (vCommunityFeeAddress cp ! nat i)
                 else Inl (AssertFail ''index out of range''))"

text \<open>\<open>decodeScript\<close> stands for decoding a P2SH address; \<open>None\<close> is an address that is not one.\<close>

definition GetCommunityFeeScriptAtHeight ::
  "(string \<Rightarrow> byte list option) \<Rightarrow> CChainParams \<Rightarrow> int \<Rightarrow> CScript result" where
  "GetCommunityFeeScriptAtHeight decodeScript cp nHeight =
     (if \<not> (nHeight > 0 \<and> nHeight \<le> vCommunityFeeLastHeight (cp_consensus cp))
      then Inl (AssertFail ''nHeight > 0 && nHeight <= GetLastCommunityFeeBlockHeight()'')
      else (case GetCommunityFeeAddressAtHeight cp nHeight of
              Inl e \<Rightarrow> Inl e
            | Inr addr \<Rightarrow>
                (case decodeScript addr of
                   None \<Rightarrow> Inl (AssertFail ''IsScriptDestination(address)'')
                 | Some scriptID \<Rightarrow> Inr ([0xa9, 0x14] @ scriptID @ [0x87]))))"

definition GetCommunityFeeAddressAtIndex :: "CChainParams \<Rightarrow> int \<Rightarrow> string result" where
  "GetCommunityFeeAddressAtIndex cp i =
     (if \<not> (i \<ge> 0 \<and> to_size_t i < int (length (vCommunityFeeAddress cp)))
      then Inl (AssertFail ''i >= 0 && i < vCommunityFeeAddress.size()'')
      else Inr (vCommunityFeeAddress cp ! nat i))"

definition validEHparameterList :: "uint64_t \<Rightarrow> CChainParams \<Rightarrow> EHparameters list" where
  "validEHparameterList blockheight cp =
     (if blockheight \<ge> eh_epoch_2_startblock cp \<and> blockheight > eh_epoch_1_endblock cp then [eh_epoch_2 cp]
      else if blockheight < eh_epoch_2_startblock cp then [eh_epoch_1 cp]
      else [eh_epoch_2 cp, eh_epoch_1 cp])"

definition checkEHParamaters :: "int \<Rightarrow> int \<Rightarrow> CChainParams \<Rightarrow> bool" where
  "checkEHParamaters solSize height cp =
     (if height = 0 then True
      else list_ex (\<lambda>p. eh_nSolSize p = solSize) (validEHparameterList (word_of_int height) cp))"

definition MAX_FUTURE_BLOCK_TIME :: int where
  "MAX_FUTURE_BLOCK_TIME = 2 * 60 * 60"

fun GetFutureBlockTimeWindow_loop :: "(int \<times> int) list \<Rightarrow> int \<Rightarrow> int" where
  "GetFutureBlockTimeWindow_loop [] height = MAX_FUTURE_BLOCK_TIME"
| "GetFutureBlockTimeWindow_loop ((start, minutes) # ws) height =
     (if start \<le> height then minutes * 60 else GetFutureBlockTimeWindow_loop ws height)"

definition GetFutureBlockTimeWindow :: "CChainParams \<Rightarrow> int \<Rightarrow> int" where
  "GetFutureBlockTimeWindow cp height = GetFutureBlockTimeWindow_loop (rev (futureBlockTimeWindows cp)) height"

text \<open>Checkpoints: the last one whose block is in the index, given as a test on hashes.\<close>

definition GetTotalBlocksEstimate :: "CChainParams \<Rightarrow> int" where
  "GetTotalBlocksEstimate cp = (if cp_checkpoints cp = [] then 0 else fst (last (cp_checkpoints cp)))"

definition GetLastCheckpoint :: "CChainParams \<Rightarrow> (uint256 \<Rightarrow> bool) \<Rightarrow> uint256 option" where
  "GetLastCheckpoint cp inIndex = List.find inIndex (map snd (rev (cp_checkpoints cp)))"

text \<open>The consensus parameters of the main network before its funding streams are added, and with them.\<close>

definition CMainParams_base :: Params where
  "CMainParams_base = \<lparr>
     hashGenesisBlock = [0xc1, 0x75, 0x4d, 0x53, 0xa4, 0xb8, 0x5d, 0xe6, 0x9b, 0x22, 0x60, 0xa6, 0xe2, 0x97, 0x31, 0xc4,
       0xb7, 0xdd, 0x8a, 0x5b, 0x20, 0x64, 0x6a, 0xac, 0x98, 0x42, 0x8b, 0x49, 0x3d, 0xee, 0x99, 0xf4],
     fCoinbaseMustBeShielded = True,
     nSubsidyHalvingInterval = 840000,
     nMajorityEnforceBlockUpgrade = 750,
     nMajorityRejectBlockOutdated = 950,
     nMajorityWindow = 4000,
     vUpgrades =
       [\<lparr>nProtocolVersion = 170002, nActivationHeight = ALWAYS_ACTIVE, hashActivationBlock = None\<rparr>,
        \<lparr>nProtocolVersion = 170002, nActivationHeight = NO_ACTIVATION_HEIGHT, hashActivationBlock = None\<rparr>,
        \<lparr>nProtocolVersion = 770006, nActivationHeight = 328500, hashActivationBlock = None\<rparr>,
        \<lparr>nProtocolVersion = 770006, nActivationHeight = 328500, hashActivationBlock = None\<rparr>,
        \<lparr>nProtocolVersion = 770012, nActivationHeight = 1735000, hashActivationBlock = None\<rparr>],
     nFundingPeriodLength = 840000 sdiv 48,
     vFundingStreams = [None, None, None],
     powLimit = replicate 30 0xff @ [0x07, 0x00],
     nPowAllowMinDifficultyBlocksAfterHeight = None,
     nPowAveragingWindow = 13,
     nPowMaxAdjustDown = 34,
     nPowMaxAdjustUp = 34,
     nPowTargetSpacing = 150,
     nMinimumChainWork = [0xb5, 0x66, 0x49, 0x01, 0x64, 0xa0] @ replicate 26 0,
     vCommunityFeeStartHeight = 328500,
     vCommunityFeeLastHeight = 1400000\<rparr>"

definition CMainParams_consensus :: "(string \<Rightarrow> CScript option) \<Rightarrow> Params result" where
  "CMainParams_consensus decode =
     (let start = nActivationHeight (vUpgrades CMainParams_base ! UPGRADE_CANOPY);
          bp_addresses = replicate 96 ''t3cq6DPTZbVShmY5hs4NLJyBhTfw5KNZNcf'';
          zf_addresses = replicate 96 ''t3LUnrQk7pHJTvTyTVzdDHNVamMGfvXAi4k'';
          mg_addresses = replicate 96 ''t3URkWgiiYVNTAvKHy5HdPia3hft9byrsNz''
      in case AddZIP207FundingStream decode CMainParams_base 0 start 3360000 bp_addresses of
           Inl e \<Rightarrow> Inl e
         | Inr p1 \<Rightarrow>
             (case AddZIP207FundingStream decode p1 1 start 3360000 zf_addresses of
                Inl e \<Rightarrow> Inl e
              | Inr p2 \<Rightarrow> AddZIP207FundingStream decode p2 2 start 3360000 mg_addresses))"

section \<open>Supply\<close>

lemma GetBlockSubsidy_div:
  assumes "0 \<le> h" "0 < nSubsidyHalvingInterval P"
  shows "GetBlockSubsidy h P = 12500 * COIN div 2 ^ nat (h div nSubsidyHalvingInterval P)"
proof -
  let ?k = "h div nSubsidyHalvingInterval P"
  have k: "h sdiv nSubsidyHalvingInterval P = ?k" using assms by (simp add: signed_divide_int_def sgn_if)
  show ?thesis
  proof (cases "?k \<ge> 64")
    case True
    then have "(2::int) ^ 64 \<le> 2 ^ nat ?k" by (intro power_increasing) auto
    then have "12500 * COIN < (2::int) ^ nat ?k" by (simp add: COIN_def)
    then show ?thesis using True k by (simp add: GetBlockSubsidy_def Halving_def COIN_def)
  next
    case False
    then show ?thesis using k by (simp add: GetBlockSubsidy_def Halving_def Let_def drop_bit_eq_div)
  qed
qed

text \<open>The supply is bounded by a potential: what is left to pay if the subsidy never halved exactly.\<close>

lemma supply_potential:
  assumes N: "0 < nSubsidyHalvingInterval P"
  shows "(\<Sum>h<n. GetBlockSubsidy (int h) P) +
      (2 * nSubsidyHalvingInterval P - int n mod nSubsidyHalvingInterval P) *
        (12500 * COIN div 2 ^ nat (int n div nSubsidyHalvingInterval P))
    \<le> 2 * nSubsidyHalvingInterval P * (12500 * COIN)"
proof (induction n)
  case 0
  then show ?case by simp
next
  case (Suc n)
  let ?N = "nSubsidyHalvingInterval P"
  let ?s = "\<lambda>k. 12500 * COIN div 2 ^ nat k :: int"
  let ?k = "int n div ?N"
  have sub: "GetBlockSubsidy (int n) P = ?s ?k" using N by (simp add: GetBlockSubsidy_div)
  have k0: "0 \<le> ?k" using N by (simp add: pos_imp_zdiv_nonneg_iff)
  show ?case
  proof (cases "int n mod ?N = ?N - 1")
    case False
    then have lt: "int n mod ?N + 1 < ?N" using pos_mod_bound [OF N, of "int n"] by linarith
    have "int (Suc n) = ?k * ?N + (int n mod ?N + 1)" by (simp add: div_mult_mod_eq)
    then have "int (Suc n) div ?N = ?k" "int (Suc n) mod ?N = int n mod ?N + 1"
      using lt pos_mod_sign [OF N, of "int n"]
      by (metis add.right_neutral div_mult_self3 div_pos_pos_trivial add_increasing2 zero_le_one less_le N add.commute,
          metis mod_mult_self3 mod_pos_pos_trivial add_increasing2 zero_le_one)
    moreover have "(2 * ?N - int n mod ?N) * ?s ?k = (2 * ?N - (int n mod ?N + 1)) * ?s ?k + ?s ?k"
      by (simp only: left_diff_distrib distrib_right)
    ultimately show ?thesis using Suc.IH unfolding sum.lessThan_Suc sub by simp
  next
    case True
    have "int (Suc n) = (?k + 1) * ?N" using True div_mult_mod_eq [of "int n" ?N] by (simp only: of_nat_Suc distrib_right)
    then have next': "int (Suc n) div ?N = ?k + 1" "int (Suc n) mod ?N = 0" using N by simp_all
    have "nat (?k + 1) = Suc (nat ?k)" using k0 by simp
    then have "?s (?k + 1) = ?s ?k div 2" by (simp only: power_Suc2 zdiv_zmult2_eq)
    then have "2 * ?s (?k + 1) \<le> ?s ?k" by simp
    then have "?N * (2 * ?s (?k + 1)) \<le> ?N * ?s ?k" using N by (intro mult_left_mono) simp_all
    moreover have "(2 * ?N - (?N - 1)) * ?s ?k = ?N * ?s ?k + ?s ?k" by (simp only: left_diff_distrib)
    moreover have "(2 * ?N - 0) * ?s (?k + 1) = ?N * (2 * ?s (?k + 1))" by simp
    ultimately show ?thesis using Suc.IH unfolding sum.lessThan_Suc sub next' True by linarith
  qed
qed

lemma GetBlockSubsidy_nonneg: "0 \<le> GetBlockSubsidy h P"
  by (simp add: GetBlockSubsidy_def Let_def COIN_def)

text \<open>
  C9. The subsidies of any number of blocks from genesis on add up to at most twice the first
  interval's total; with the main network's halving interval they stay within \<open>MAX_MONEY\<close>.
\<close>

theorem subsidy_supply_cap:
  assumes "0 < nSubsidyHalvingInterval P"
  shows "0 \<le> (\<Sum>h<n. GetBlockSubsidy (int h) P)
    \<and> (\<Sum>h<n. GetBlockSubsidy (int h) P) \<le> 25000 * nSubsidyHalvingInterval P * COIN
    \<and> (nSubsidyHalvingInterval P \<le> 840000 \<longrightarrow> MoneyRange (\<Sum>h<n. GetBlockSubsidy (int h) P))"
proof -
  let ?N = "nSubsidyHalvingInterval P" and ?S = "\<Sum>h<n. GetBlockSubsidy (int h) P"
  have "0 \<le> (2 * ?N - int n mod ?N) * (12500 * COIN div 2 ^ nat (int n div ?N))"
    using order.trans [OF less_imp_le [OF pos_mod_bound [OF assms, of "int n"]], of "2 * ?N"] assms by (intro mult_nonneg_nonneg) (auto simp: COIN_def pos_imp_zdiv_nonneg_iff intro: order.trans)
  then have le: "?S \<le> 25000 * ?N * COIN" using supply_potential [OF assms, of n] by linarith
  moreover have ge: "0 \<le> ?S" by (intro sum_nonneg) (rule GetBlockSubsidy_nonneg)
  moreover have "?N * COIN \<le> 840000 * COIN" if "?N \<le> 840000" using that by (simp add: COIN_def)
  ultimately show ?thesis by (auto simp: MoneyRange_def MAX_MONEY_def)
qed

theorem subsidy_supply_cap_witness:
  "MoneyRange (\<Sum>h<5000000. GetBlockSubsidy (int h) CMainParams_base)"
  using subsidy_supply_cap [of CMainParams_base 5000000] by (simp add: CMainParams_base_def)

section \<open>Epochs\<close>

definition upgrades_ordered :: "Params \<Rightarrow> bool" where
  "upgrades_ordered P \<longleftrightarrow>
     nActivationHeight (vUpgrades P ! BASE_SPROUT) = ALWAYS_ACTIVE
     \<and> (\<forall>j < MAX_NETWORK_UPGRADES. \<forall>i < j.
          nActivationHeight (vUpgrades P ! i) \<noteq> NO_ACTIVATION_HEIGHT \<and>
          nActivationHeight (vUpgrades P ! j) \<noteq> NO_ACTIVATION_HEIGHT \<longrightarrow>
          nActivationHeight (vUpgrades P ! i) \<le> nActivationHeight (vUpgrades P ! j))"

lemma upgrades_orderedD:
  "upgrades_ordered P \<Longrightarrow> i < j \<Longrightarrow> j < MAX_NETWORK_UPGRADES \<Longrightarrow>
   nActivationHeight (vUpgrades P ! i) \<noteq> NO_ACTIVATION_HEIGHT \<Longrightarrow>
   nActivationHeight (vUpgrades P ! j) \<noteq> NO_ACTIVATION_HEIGHT \<Longrightarrow>
   nActivationHeight (vUpgrades P ! i) \<le> nActivationHeight (vUpgrades P ! j)"
  by (simp add: upgrades_ordered_def)

definition active_at :: "Params \<Rightarrow> int \<Rightarrow> nat \<Rightarrow> bool" where
  "active_at P h i \<longleftrightarrow> nActivationHeight (vUpgrades P ! i) \<noteq> NO_ACTIVATION_HEIGHT
     \<and> nActivationHeight (vUpgrades P ! i) \<le> h"

lemma NetworkUpgradeActive_iff:
  "0 \<le> h \<Longrightarrow> i < MAX_NETWORK_UPGRADES \<Longrightarrow> NetworkUpgradeActive P h i = Inr (active_at P h i)"
  by (auto simp: NetworkUpgradeActive_def NetworkUpgradeState_def active_at_def Let_def)

lemma CurrentEpoch_loop_correct:
  assumes "0 \<le> h" "active_at P h 0"
  shows "i < MAX_NETWORK_UPGRADES \<Longrightarrow>
    \<exists>e \<le> i. CurrentEpoch_loop h P i = Inr e \<and> active_at P h e \<and> (\<forall>j. e < j \<and> j \<le> i \<longrightarrow> \<not> active_at P h j)"
proof (induction i)
  case 0
  then show ?case using assms by (subst CurrentEpoch_loop.simps) (simp add: NetworkUpgradeActive_iff)
next
  case (Suc i)
  then obtain e where e: "e \<le> i" "CurrentEpoch_loop h P i = Inr e" "active_at P h e"
    "\<And>j. e < j \<Longrightarrow> j \<le> i \<Longrightarrow> \<not> active_at P h j" by auto
  show ?case
  proof (cases "active_at P h (Suc i)")
    case True
    then show ?thesis using Suc.prems assms(1)
      by (subst CurrentEpoch_loop.simps) (auto simp: NetworkUpgradeActive_iff intro!: exI [of _ "Suc i"])
  next
    case False
    then have "CurrentEpoch_loop h P (Suc i) = Inr e"
      using Suc.prems assms(1) e(2) by (subst CurrentEpoch_loop.simps) (simp add: NetworkUpgradeActive_iff)
    then show ?thesis using e False by (auto simp: le_Suc_eq intro!: exI [of _ e])
  qed
qed

lemma CurrentEpoch_correct:
  assumes "0 \<le> h" "active_at P h 0"
  obtains e where "CurrentEpoch h P = Inr e" "e < MAX_NETWORK_UPGRADES" "active_at P h e"
    "\<And>j. e < j \<Longrightarrow> j < MAX_NETWORK_UPGRADES \<Longrightarrow> \<not> active_at P h j"
  using CurrentEpoch_loop_correct [OF assms, of "MAX_NETWORK_UPGRADES - 1"] that
  unfolding CurrentEpoch_def by (auto simp: MAX_NETWORK_UPGRADES_def)

lemma active_at_0: "upgrades_ordered P \<Longrightarrow> 0 \<le> h \<Longrightarrow> active_at P h 0"
  by (simp add: upgrades_ordered_def active_at_def BASE_SPROUT_def ALWAYS_ACTIVE_def NO_ACTIVATION_HEIGHT_def)

lemma active_at_Suc:
  "0 \<le> h \<Longrightarrow> active_at P (h + 1) i \<longleftrightarrow> active_at P h i \<or> nActivationHeight (vUpgrades P ! i) = h + 1"
  by (auto simp: active_at_def NO_ACTIVATION_HEIGHT_def)

lemma IsActivationHeightForAny_iff:
  "0 \<le> h \<Longrightarrow> IsActivationHeightForAnyUpgrade (h + 1) P \<longleftrightarrow>
    (\<exists>i. 0 < i \<and> i < MAX_NETWORK_UPGRADES \<and> nActivationHeight (vUpgrades P ! i) = h + 1)"
  by (auto simp: IsActivationHeightForAnyUpgrade_def list_ex_iff BASE_SPROUT_def Bex_def Suc_le_eq eq_commute)

definition pending_at :: "Params \<Rightarrow> int \<Rightarrow> nat \<Rightarrow> bool" where
  "pending_at P h i \<longleftrightarrow> nActivationHeight (vUpgrades P ! i) \<noteq> NO_ACTIVATION_HEIGHT
     \<and> h < nActivationHeight (vUpgrades P ! i)"

lemma NextEpoch_loop_find:
  "0 \<le> h \<Longrightarrow> \<forall>i \<in> set xs. i < MAX_NETWORK_UPGRADES \<Longrightarrow> NextEpoch_loop h P xs = Inr (List.find (pending_at P h) xs)"
  by (induction xs) (auto simp: NetworkUpgradeState_def pending_at_def Let_def)

lemma NextEpoch_correct:
  assumes "0 \<le> h"
  shows "NextEpoch h P = Inr (List.find (pending_at P h) [1..<MAX_NETWORK_UPGRADES])"
  using assms by (simp add: NextEpoch_def BASE_SPROUT_def NextEpoch_loop_find del: upt_Suc)




text \<open>The code's own base case is not reached: without an active upgrade \<open>CurrentEpoch\<close> fails an assertion.\<close>

lemma CurrentEpoch_none_active:
  assumes h: "0 \<le> h" and none: "\<And>i. i < MAX_NETWORK_UPGRADES \<Longrightarrow> \<not> active_at P h i"
  shows "CurrentEpoch h P = Inl (AssertFail ''idx'')"
proof -
  have "i < MAX_NETWORK_UPGRADES \<Longrightarrow> CurrentEpoch_loop h P i = Inl (AssertFail ''idx'')" for i
  proof (induction i)
    case 0
    then show ?case using none [of 0] h
      by (subst CurrentEpoch_loop.simps)
        (simp add: NetworkUpgradeActive_iff NetworkUpgradeActive_def [of _ _ 4294967295] NetworkUpgradeState_def MAX_NETWORK_UPGRADES_def)
  next
    case (Suc i)
    then show ?case using none [of "Suc i"] h by (subst CurrentEpoch_loop.simps) (simp add: NetworkUpgradeActive_iff)
  qed
  then show ?thesis by (simp add: CurrentEpoch_def MAX_NETWORK_UPGRADES_def)
qed

section \<open>Funding streams and tables\<close>

lemma zdiv_less: "h < n * k \<Longrightarrow> 0 < k \<Longrightarrow> h div k < (n :: int)"
proof (rule ccontr)
  assume k: "h < n * k" "0 < k" and "\<not> h div k < n"
  then have "n * k \<le> h div k * k" by (intro mult_right_mono) simp_all
  also have "\<dots> = h - h mod k" by (rule minus_mod_eq_div_mult [symmetric])
  also have "\<dots> \<le> h" using k(2) by simp
  finally show False using k(1) by simp
qed

lemma sdiv_nonneg: "0 \<le> (a::int) \<Longrightarrow> 0 < b \<Longrightarrow> a sdiv b = a div b"
  by (cases "a = 0") (simp_all add: signed_divide_int_def)

lemma FundingPeriodIndex_mono:
  assumes "0 < nFundingPeriodLength P"
  obtains off where "0 \<le> off" "off < nFundingPeriodLength P"
    "\<And>h. FundingPeriodIndex P s h = Inr ((h - s + off) sdiv nFundingPeriodLength P)"
proof
  let ?L = "nFundingPeriodLength P"
  let ?m = "(s - nSubsidyHalvingInterval P) smod ?L"
  let ?off = "if ?m < 0 then ?m + ?L else ?m"
  have "\<bar>?m\<bar> < ?L" using assms smod_int_range [of ?L "s - nSubsidyHalvingInterval P"] by auto
  show "0 \<le> ?off" "?off < ?L" using \<open>\<bar>?m\<bar> < ?L\<close> by auto
  show "FundingPeriodIndex P s h = Inr ((h - s + ?off) sdiv ?L)" for h
    by (simp add: FundingPeriodIndex_def HalvingHeight_def Let_def)
qed


lemma ValidateFundingStream_range:
  assumes "ValidateFundingStream P s e addrs = Inr (Inr fs)"
  shows "fs_startHeight fs = s" "fs_endHeight fs = e" "fs_addresses fs = addrs" "s \<le> e"
    "\<exists>i. FundingPeriodIndex P s (e - 1) = Inr i \<and> to_size_t i < int (length addrs)"
  using assms by (auto simp: ValidateFundingStream_def split: sum.splits if_splits)

lemma to_size_t_small: "0 \<le> x \<Longrightarrow> x < 2 ^ 64 \<Longrightarrow> to_size_t x = x"
  by (simp add: to_size_t_def)

text \<open>
  A funding stream that passes validation has an address for every height it covers:
  \<open>RecipientAddress\<close> never fails its assertion between the start and the end height.
\<close>

lemma funding_stream_has_recipient:
  assumes L: "0 < nFundingPeriodLength P" and v: "ValidateFundingStream P s e addrs = Inr (Inr fs)"
    and h: "s \<le> h" "h < e" and bounds: "0 \<le> s" "e < 2 ^ 31" "nFundingPeriodLength P < 2 ^ 31"
  shows "\<exists>i. FundingPeriodIndex P s h = Inr (int i) \<and> i < length addrs \<and> RecipientAddress fs P h = Inr (addrs ! i)"
proof -
  let ?L = "nFundingPeriodLength P"
  obtain off where off: "0 \<le> off" "off < ?L" "\<And>h. FundingPeriodIndex P s h = Inr ((h - s + off) sdiv ?L)"
    using FundingPeriodIndex_mono [OF L, of s] by blast
  have idx: "FundingPeriodIndex P s k = Inr ((k - s + off) div ?L)" "0 \<le> (k - s + off) div ?L"
    "(k - s + off) div ?L < 2 ^ 64" if "s \<le> k" "k < e" for k
  proof -
    have "0 \<le> k - s + off" "k - s + off < 2 ^ 64" using that off bounds by simp_all
    moreover from this L have "(k - s + off) div ?L \<le> k - s + off"
      using zdiv_mono2 [of "k - s + off" 1 ?L] by simp
    ultimately show "FundingPeriodIndex P s k = Inr ((k - s + off) div ?L)" "0 \<le> (k - s + off) div ?L"
      "(k - s + off) div ?L < 2 ^ 64" using off(3) L by (simp_all add: sdiv_nonneg pos_imp_zdiv_nonneg_iff)
  qed
  note V = ValidateFundingStream_range [OF v]
  have "(e - 1 - s + off) div ?L < int (length addrs)"
    using V(5) idx [of "e - 1"] h by (simp add: to_size_t_small)
  moreover have "(h - s + off) div ?L \<le> (e - 1 - s + off) div ?L" using h L by (intro zdiv_mono1) simp_all
  ultimately have lt: "(h - s + off) div ?L < int (length addrs)" by simp
  then show ?thesis using idx [OF h] V(1-3)
    by (intro exI [of _ "nat ((h - s + off) div ?L)"]) (simp add: RecipientAddress_def to_size_t_small)
qed

text \<open>
  The community fee address is picked inside the address table at every height up to the last
  one with a fee, so that the unchecked vector access is in range, and the table is walked in order.
\<close>

lemma community_fee_index_in_range:
  assumes "vCommunityFeeAddress cp \<noteq> []" "0 < h" "h \<le> vCommunityFeeLastHeight (cp_consensus cp)"
  shows "\<exists>i < length (vCommunityFeeAddress cp).
     GetCommunityFeeAddressAtHeight cp h = Inr (vCommunityFeeAddress cp ! i)
     \<and> int i = h div (vCommunityFeeLastHeight (cp_consensus cp) div int (length (vCommunityFeeAddress cp)) + 1)"
proof -
  let ?n = "int (length (vCommunityFeeAddress cp))" and ?M = "vCommunityFeeLastHeight (cp_consensus cp)"
  have n: "0 < ?n" using assms(1) by simp
  have int_eq: "(?M + ?n) div ?n = ?M div ?n + 1" using n by (intro div_add_self2) simp
  have pos: "0 < ?M div ?n + 1" using n assms by (simp add: pos_imp_zdiv_nonneg_iff add_nonneg_pos)
  have "?M = ?n * (?M div ?n) + ?M mod ?n" by (rule mult_div_mod_eq [symmetric])
  then have "?M < ?n * (?M div ?n + 1)" using pos_mod_bound [OF n, of ?M] by (simp only: distrib_left mult_1_right)
  then have "h < ?n * (?M div ?n + 1)" using assms(3) by simp
  then have lt: "h div (?M div ?n + 1) < ?n" using pos by (rule zdiv_less)
  moreover have "0 \<le> h div (?M div ?n + 1)" using assms(2) pos by (simp add: pos_imp_zdiv_nonneg_iff)
  ultimately show ?thesis using assms
    by (intro exI [of _ "nat (h div (?M div ?n + 1))"]) (simp add: GetCommunityFeeAddressAtHeight_def Let_def int_eq nat_less_iff)
qed

lemma CMainParams_last_height: "vCommunityFeeLastHeight CMainParams_base = 1400000"
  by (simp add: CMainParams_base_def)

end
