(* ===== verification/Pow.thy ===== *)
theory Pow
  imports Chain Consensus
begin

text \<open>
  Proof of work (\<open>pow.cpp\<close>): the check of a hash against a compact target, the work a block stands
  for, the retargeting of the difficulty, and the Equihash check with the solver library's verifier as
  a parameter.
\<close>

section \<open>Operations\<close>

definition CheckProofOfWork :: "uint256 \<Rightarrow> uint32_t \<Rightarrow> Params \<Rightarrow> bool" where
  "CheckProofOfWork hash bits params =
     (case SetCompact bits of (bnTarget, fNegative, fOverflow) \<Rightarrow>
        if fNegative \<or> base_uint_equal_u64 bnTarget 0 \<or> fOverflow
          \<or> base_uint_compare bnTarget (UintToArith256 (powLimit params)) > 0 then False
        else if base_uint_compare (UintToArith256 hash) bnTarget > 0 then False
        else True)"

definition GetBlockProof :: "CBlockIndex \<Rightarrow> base_uint result" where
  "GetBlockProof block =
     (case SetCompact (nBits block) of (bnTarget, fNegative, fOverflow) \<Rightarrow>
        if fNegative \<or> fOverflow \<or> base_uint_equal_u64 bnTarget 0 then Inr (base_uint_of_u64 8 0)
        else map_sum id (\<lambda>q. base_uint_add_u64 q 1)
               (base_uint_div (base_uint_not bnTarget) (base_uint_add_u64 bnTarget 1)))"

text \<open>
  \<open>bnNew *= nActualTimespan\<close> selects the overload for \<open>uint32_t\<close>, which keeps the low 32 bits of
  the time span; \<open>bnNew /= averagingWindowTimespan\<close> converts it through \<open>uint64_t\<close>.
\<close>

definition CalculateNextWorkRequired ::
  "base_uint \<Rightarrow> int \<Rightarrow> int \<Rightarrow> Params \<Rightarrow> int \<Rightarrow> uint32_t result" where
  "CalculateNextWorkRequired bnAvg nLastBlockTime nFirstBlockTime params nextHeight =
     (let averagingWindowTimespan = AveragingWindowTimespan params nextHeight;
          minActualTimespan = MinActualTimespan params nextHeight;
          maxActualTimespan = MaxActualTimespan params nextHeight;
          nActualTimespan = nLastBlockTime - nFirstBlockTime;
          nActualTimespan = averagingWindowTimespan + (nActualTimespan - averagingWindowTimespan) sdiv 4;
          nActualTimespan = (if nActualTimespan < minActualTimespan then minActualTimespan else nActualTimespan);
          nActualTimespan = (if nActualTimespan > maxActualTimespan then maxActualTimespan else nActualTimespan);
          bnPowLimit = UintToArith256 (powLimit params)
      in case base_uint_div bnAvg (base_uint_of_u64 8 (word_of_int averagingWindowTimespan)) of
           Inl e \<Rightarrow> Inl e
         | Inr bnNew \<Rightarrow>
             (let bnNew = base_uint_mul32 bnNew (word_of_int nActualTimespan);
                  bnNew = (if base_uint_compare bnNew bnPowLimit > 0 then bnPowLimit else bnNew)
              in GetCompact bnNew False))"

text \<open>The loop over the averaging window, with the number of its remaining iterations.\<close>

fun window_loop :: "nat \<Rightarrow> block_index \<Rightarrow> block_ptr option \<Rightarrow> base_uint \<Rightarrow> block_ptr option \<times> base_uint" where
  "window_loop 0 H pindexFirst bnTot = (pindexFirst, bnTot)"
| "window_loop (Suc n) H None bnTot = (None, bnTot)"
| "window_loop (Suc n) H (Some p) bnTot =
     (case H p of
        None \<Rightarrow> (None, bnTot)
      | Some b \<Rightarrow> window_loop n H (pprev b) (base_uint_add bnTot (fst (SetCompact (nBits b)))))"

definition GetNextWorkRequired ::
  "block_index \<Rightarrow> CChainParams \<Rightarrow> block_ptr option \<Rightarrow> CBlockHeader option \<Rightarrow> Params \<Rightarrow> uint32_t result" where
  "GetNextWorkRequired H chainParams pindexLast pblock params =
     (case GetCompact (UintToArith256 (powLimit params)) False of
        Inl e \<Rightarrow> Inl e
      | Inr nProofOfWorkLimit \<Rightarrow>
          (case pindexLast of
             None \<Rightarrow> Inr nProofOfWorkLimit
           | Some plast \<Rightarrow>
               (case H plast of
                  None \<Rightarrow> Inl (AssertFail ''dangling pointer'')
                | Some b \<Rightarrow>
                    if (word_of_int (nHeight b) :: uint64_t) > eh_epoch_1_endblock chainParams - 1
                       \<and> word_of_int (nHeight b) < eh_epoch_1_endblock chainParams + word_of_int (nPowAveragingWindow params)
                    then Inr nProofOfWorkLimit
                    else if (case nPowAllowMinDifficultyBlocksAfterHeight params of
                               None \<Rightarrow> False
                             | Some after \<Rightarrow> word_of_int (nHeight b) \<ge> after
                                 \<and> (case pblock of
                                      None \<Rightarrow> False
                                    | Some blk \<Rightarrow> uint (hdr_nTime blk) > uint (nTime b) + PoWTargetSpacing params (nHeight b + 1) * 6))
                    then Inr nProofOfWorkLimit
                    else
                      (case window_loop (nat (nPowAveragingWindow params)) H (Some plast) (base_uint_of_u64 8 0) of
                         (None, bnTot) \<Rightarrow> Inr nProofOfWorkLimit
                       | (Some pfirst, bnTot) \<Rightarrow>
                           (case base_uint_div bnTot (base_uint_of_u64 8 (word_of_int (nPowAveragingWindow params))) of
                              Inl e \<Rightarrow> Inl e
                            | Inr bnAvg \<Rightarrow>
                                CalculateNextWorkRequired bnAvg (GetMedianTimePast H plast) (GetMedianTimePast H pfirst)
                                  params (nHeight b + 1))))))"

definition GetBlockProofEquivalentTime ::
  "CBlockIndex \<Rightarrow> CBlockIndex \<Rightarrow> CBlockIndex \<Rightarrow> Params \<Rightarrow> int result" where
  "GetBlockProofEquivalentTime to from tip params =
     (let gt = base_uint_compare (nChainWork to) (nChainWork from) > 0;
          r = (if gt then base_uint_sub (nChainWork to) (nChainWork from)
               else base_uint_sub (nChainWork from) (nChainWork to));
          sign = (if gt then 1 else - 1)
      in case GetBlockProof tip of
           Inl e \<Rightarrow> Inl e
         | Inr tipProof \<Rightarrow>
             (case base_uint_div (base_uint_mul r (base_uint_of_u64 8 (word_of_int (PoWTargetSpacing params (nHeight tip))))) tipProof of
                Inl e \<Rightarrow> Inl e
              | Inr r \<Rightarrow>
                  if base_uint_bits r > 63 then Inr (sign * (2 ^ 63 - 1))
                  else Inr (sint (word_of_int sign * base_uint_low64 r))))"

text \<open>
  The Equihash input is the header without nonce and solution, then the nonce; \<open>ehValid n k input
  soln\<close> stands for initialising the hash state, feeding it the input and verifying the solution.
\<close>

definition CEquihashInput_ser :: "CBlockHeader \<Rightarrow> byte list" where
  "CEquihashInput_ser h =
     WriteLE32 (word_of_int (hdr_nVersion h)) @ hdr_hashPrevBlock h @ hdr_hashMerkleRoot h
     @ hdr_hashFinalSaplingRoot h @ WriteLE32 (hdr_nTime h) @ WriteLE32 (hdr_nBits h)"

definition CheckEquihashSolution ::
  "(nat \<Rightarrow> nat \<Rightarrow> byte list \<Rightarrow> byte list \<Rightarrow> bool) \<Rightarrow> CBlockHeader \<Rightarrow> bool" where
  "CheckEquihashSolution ehValid pblock =
     (case (if length (hdr_nSolution pblock) = 1344 then Some (200, 9)
            else if length (hdr_nSolution pblock) = 100 then Some (144, 5)
            else if length (hdr_nSolution pblock) = 68 then Some (96, 5)
            else if length (hdr_nSolution pblock) = 36 then Some (48, 5)
            else None) of
        None \<Rightarrow> False
      | Some (n, k) \<Rightarrow>
          if \<not> ehValid n k (CEquihashInput_ser pblock @ hdr_nNonce pblock) (hdr_nSolution pblock) then False
          else True)"

section \<open>Checking and measuring work\<close>

text \<open>The target a compact word stands for, when it is a valid one.\<close>

definition valid_target :: "uint32_t \<Rightarrow> bool" where
  "valid_target bits \<longleftrightarrow> 0 < compact_value bits \<and> compact_value bits < 2 ^ 256 \<and> even (unat bits div 2 ^ 23)"

lemma limb_base8: "limb_base ^ 8 = 2 ^ 256"
  by (simp add: limb_base_power)

lemma length_UintToArith256 [simp]: "length (UintToArith256 u) = 8"
  by (simp add: UintToArith256_def)

lemma SetCompact_valid:
  assumes "SetCompact bits = (t, neg, ovf)"
  shows "\<not> neg \<and> \<not> base_uint_equal_u64 t 0 \<and> \<not> ovf \<longleftrightarrow> valid_target bits"
    "valid_target bits \<Longrightarrow> limbs_val t = compact_value bits"
  using SetCompact_correct [OF assms] by (auto simp: valid_target_def equal_u64_iff not_le)

text \<open>
  C11. \<open>CheckProofOfWork\<close> accepts a hash exactly when the compact word is a positive target that
  fits 256 bits and is not above the limit, and the hash, read as a little-endian number, is not above
  that target.
\<close>

theorem CheckProofOfWork_exact:
  assumes "length hash = 32" "length (powLimit P) = 32"
  shows "CheckProofOfWork hash bits P \<longleftrightarrow> valid_target bits
    \<and> compact_value bits \<le> bytes_val (powLimit P) \<and> bytes_val hash \<le> compact_value bits"
proof -
  obtain t neg ovf where t: "SetCompact bits = (t, neg, ovf)" by (metis prod_cases3)
  have len: "length t = 8" using SetCompact_correct(1) [OF t] .
  have "CheckProofOfWork hash bits P \<longleftrightarrow> (\<not> neg \<and> \<not> base_uint_equal_u64 t 0 \<and> \<not> ovf)
      \<and> limbs_val t \<le> bytes_val (powLimit P) \<and> bytes_val hash \<le> limbs_val t"
    using len assms by (auto simp: CheckProofOfWork_def t compare_gt UintToArith256_val not_less)
  then show ?thesis using SetCompact_valid [OF t] by auto
qed

lemma bytes_val_replicate_FF: "bytes_val (replicate n 0xff) + 1 = 256 ^ n"
  by (induction n) simp_all

lemma bytes_val_replicate_0: "bytes_val (replicate n 0) = 0"
  by (induction n) simp_all

lemma CMainParams_powLimit:
  "length (powLimit CMainParams_base) = 32"
  "bytes_val (powLimit CMainParams_base) + 1 = 8 * 256 ^ 30"
proof -
  show "length (powLimit CMainParams_base) = 32" by (simp add: CMainParams_base_def)
  have "powLimit CMainParams_base = replicate 30 0xff @ [7, 0]" by (simp add: CMainParams_base_def)
  then show "bytes_val (powLimit CMainParams_base) + 1 = 8 * 256 ^ 30"
    using bytes_val_replicate_FF [of 30] by (simp add: bytes_val_append)
qed

theorem CheckProofOfWork_exact_witness:
  "CheckProofOfWork (replicate 32 0) 0x1f07ffff CMainParams_base"
proof -
  show ?thesis
    using CheckProofOfWork_exact [OF _ CMainParams_powLimit(1), of "replicate 32 0" "0x1f07ffff"] CMainParams_powLimit(2)
    by (simp add: bytes_val_replicate_0 valid_target_def compact_value_def compact_mant_def compact_size_def)
qed

lemma valid_target_Suc: "valid_target bits \<Longrightarrow> compact_value bits + 1 < 2 ^ 256"
proof -
  assume v: "valid_target bits"
  have "compact_value bits \<noteq> 2 ^ 256 - 1"
  proof (cases "compact_size bits \<le> 3")
    case True
    then have "compact_mant bits * 256 ^ compact_size bits div 256 ^ 3 \<le> compact_mant bits * 256 ^ 3 div 256 ^ 3"
      by (intro div_le_mono mult_left_mono power_increasing) simp_all
    then have "compact_value bits < 2 ^ 23" by (simp add: compact_value_def compact_mant_def le_less_trans)
    then show ?thesis by simp
  next
    case False
    then have "compact_value bits = compact_mant bits * 256 ^ (compact_size bits - 3)"
      using div_mult_swap [of "256 ^ 3" "256 ^ compact_size bits" "compact_mant bits"]
        le_imp_power_dvd [of 3 "compact_size bits" "256 :: nat"] power_diff [of "256 :: nat" 3 "compact_size bits"]
      by (simp only: compact_value_def)
    then have "even (compact_value bits)" using False by simp
    moreover have "odd (2 ^ 256 - 1 :: nat)" by simp
    ultimately show ?thesis by metis
  qed
  then show ?thesis using v by (simp add: valid_target_def)
qed

lemma div_complement: "t + 1 < M \<Longrightarrow> (M - 1 - t) div (t + 1) + 1 = M div (t + 1)" for t M :: nat
  using le_div_geq [of "t + 1" M] by simp

lemma GetBlockProof_correct:
  obtains w where "GetBlockProof b = Inr w" "length w = 8"
    "limbs_val w = (if valid_target (nBits b) then 2 ^ 256 div (compact_value (nBits b) + 1) else 0)"
proof -
  obtain t neg ovf where t: "SetCompact (nBits b) = (t, neg, ovf)" by (metis prod_cases3)
  have len: "length t = 8" using SetCompact_correct(1) [OF t] .
  show ?thesis
  proof (cases "valid_target (nBits b)")
    case False
    then have "GetBlockProof b = Inr (base_uint_of_u64 8 0)"
      using SetCompact_valid(1) [OF t] by (auto simp: GetBlockProof_def t)
    then show ?thesis using False by (intro that [of "base_uint_of_u64 8 0"]) (simp_all add: val_simps len_simps)
  next
    case True
    let ?T = "compact_value (nBits b)"
    have T: "limbs_val t = ?T" "?T < 2 ^ 256" using SetCompact_valid(2) [OF t True] True by (auto simp: valid_target_def)
    have not: "limbs_val (base_uint_not t) = 2 ^ 256 - 1 - ?T"
      using val_NOT [of t] T len by (simp add: base_uint_not_def limb_base8)
    have add: "limbs_val (base_uint_add_u64 t 1) = (?T + 1) mod 2 ^ 256" "length (base_uint_add_u64 t 1) = 8"
      using len T by (simp_all add: base_uint_add_u64_def val_simps len_simps limb_base8)
    have lt: "?T + 1 < 2 ^ 256" using True by (rule valid_target_Suc)
    then have "limbs_val (base_uint_add_u64 t 1) = ?T + 1" using add(1) by (simp only: mod_less)
    then obtain q where q: "base_uint_div (base_uint_not t) (base_uint_add_u64 t 1) = Inr q" "length q = 8"
      "limbs_val q = (2 ^ 256 - 1 - ?T) div (?T + 1)"
      using div_correct [of "base_uint_not t" "base_uint_add_u64 t 1"] add(2) len not
      by (auto simp: base_uint_not_def)
    have "(2 ^ 256 - 1 - ?T) div (?T + 1) + 1 = 2 ^ 256 div (?T + 1)" using lt by (rule div_complement)
    moreover have "2 ^ 256 div (?T + 1) < 2 ^ 256" using True by (intro div_less_dividend) (simp_all add: valid_target_def)
    ultimately have "limbs_val (base_uint_add_u64 q 1) = 2 ^ 256 div (?T + 1)"
      using q by (simp add: base_uint_add_u64_def val_simps len_simps limb_base8)
    moreover have "GetBlockProof b = Inr (base_uint_add_u64 q 1)"
      using SetCompact_valid(1) [OF t] True q(1) by (auto simp: GetBlockProof_def t)
    ultimately show ?thesis using that True q(2) by (simp add: base_uint_add_u64_def len_simps)
  qed
qed

section \<open>Retargeting\<close>

text \<open>
  What the retargeting relies on: a positive averaging window and spacing, adjustments that leave a
  positive time span of 32 bits, and a limit small enough for the sum and the product not to wrap.
\<close>

definition pow_params_ok :: "Params \<Rightarrow> bool" where
  "pow_params_ok P \<longleftrightarrow> length (powLimit P) = 32 \<and> 0 < nPowAveragingWindow P \<and> 0 < nPowTargetSpacing P
     \<and> nPowAveragingWindow P * nPowTargetSpacing P < 2 ^ 32
     \<and> 0 \<le> nPowMaxAdjustUp P \<and> nPowMaxAdjustUp P \<le> 100 \<and> 0 \<le> nPowMaxAdjustDown P
     \<and> nPowAveragingWindow P * nPowTargetSpacing P * (100 + nPowMaxAdjustDown P) < 100 * 2 ^ 32
     \<and> nat (nPowAveragingWindow P) * bytes_val (powLimit P) < 2 ^ 256
     \<and> nat (100 + nPowMaxAdjustDown P) * bytes_val (powLimit P) < 100 * 2 ^ 256"

text \<open>The damped and clamped time span of a retarget.\<close>

definition retarget_timespan :: "Params \<Rightarrow> int \<Rightarrow> int" where
  "retarget_timespan P actual =
     (let T = nPowAveragingWindow P * nPowTargetSpacing P
      in min (T * (100 + nPowMaxAdjustDown P) div 100)
           (max (T * (100 - nPowMaxAdjustUp P) div 100) (T + (actual - T) sdiv 4)))"

lemma timespan_bounds:
  assumes "pow_params_ok P"
  shows "MinActualTimespan P h = nPowAveragingWindow P * nPowTargetSpacing P * (100 - nPowMaxAdjustUp P) div 100"
    "MaxActualTimespan P h = nPowAveragingWindow P * nPowTargetSpacing P * (100 + nPowMaxAdjustDown P) div 100"
    "0 \<le> MinActualTimespan P h" "MinActualTimespan P h \<le> MaxActualTimespan P h" "MaxActualTimespan P h < 2 ^ 32"
proof -
  let ?T = "nPowAveragingWindow P * nPowTargetSpacing P"
  have T: "0 < ?T" "0 \<le> nPowMaxAdjustUp P" "nPowMaxAdjustUp P \<le> 100" "0 \<le> nPowMaxAdjustDown P"
    "?T * (100 + nPowMaxAdjustDown P) < 100 * 2 ^ 32" using assms by (auto simp: pow_params_ok_def)
  show min: "MinActualTimespan P h = ?T * (100 - nPowMaxAdjustUp P) div 100"
    using T by (simp add: MinActualTimespan_def AveragingWindowTimespan_def PoWTargetSpacing_def sdiv_nonneg)
  show max: "MaxActualTimespan P h = ?T * (100 + nPowMaxAdjustDown P) div 100"
    using T by (simp add: MaxActualTimespan_def AveragingWindowTimespan_def PoWTargetSpacing_def sdiv_nonneg)
  show "0 \<le> MinActualTimespan P h" unfolding min using T
    using mult_nonneg_nonneg [of ?T "100 - nPowMaxAdjustUp P"] by (simp add: pos_imp_zdiv_nonneg_iff)
  show "MinActualTimespan P h \<le> MaxActualTimespan P h"
    unfolding min max using T by (intro zdiv_mono1 mult_left_mono) simp_all
  show "MaxActualTimespan P h < 2 ^ 32" unfolding max by (rule zdiv_less) (use T(5) in \<open>simp_all add: mult.commute\<close>)
qed

lemma retarget_timespan_range:
  assumes "pow_params_ok P"
  shows "MinActualTimespan P h \<le> retarget_timespan P a" "retarget_timespan P a \<le> MaxActualTimespan P h"
    "0 \<le> retarget_timespan P a" "retarget_timespan P a < 2 ^ 32"
    "100 * retarget_timespan P a \<le> nPowAveragingWindow P * nPowTargetSpacing P * (100 + nPowMaxAdjustDown P)"
proof -
  let ?X = "nPowAveragingWindow P * nPowTargetSpacing P * (100 + nPowMaxAdjustDown P)"
  note T = timespan_bounds [OF assms, of h]
  have ts: "retarget_timespan P a = min (MaxActualTimespan P h) (max (MinActualTimespan P h)
      (nPowAveragingWindow P * nPowTargetSpacing P + (a - nPowAveragingWindow P * nPowTargetSpacing P) sdiv 4))"
    by (simp only: retarget_timespan_def Let_def T(1,2))
  show 1: "MinActualTimespan P h \<le> retarget_timespan P a" and 2: "retarget_timespan P a \<le> MaxActualTimespan P h"
    unfolding ts using T(4) by simp_all
  show "0 \<le> retarget_timespan P a" "retarget_timespan P a < 2 ^ 32" using 1 2 T(3,5) by linarith+
  have "100 * retarget_timespan P a \<le> 100 * (?X div 100)" using 2 T(2) by simp
  also have "\<dots> \<le> ?X" using mult_div_mod_eq [of 100 ?X] pos_mod_sign [of 100 ?X] by linarith
  finally show "100 * retarget_timespan P a \<le> ?X" .
qed

lemma avg_no_wrap:
  assumes "pow_params_ok P" "A \<le> bytes_val (powLimit P)"
  shows "nat (retarget_timespan P a) * (A div nat (nPowAveragingWindow P * nPowTargetSpacing P)) < 2 ^ 256"
proof -
  let ?T = "nPowAveragingWindow P * nPowTargetSpacing P" and ?s = "retarget_timespan P a"
  have T: "0 < ?T" "0 \<le> nPowMaxAdjustDown P" using assms(1) by (auto simp: pow_params_ok_def)
  have "100 * nat ?s \<le> nat ?T * nat (100 + nPowMaxAdjustDown P)"
    using retarget_timespan_range(5) [OF assms(1), where a = a] T
    by (metis nat_mono nat_mult_distrib less_imp_le nat_numeral zero_le_numeral)
  then have "100 * nat ?s * (A div nat ?T) \<le> nat ?T * nat (100 + nPowMaxAdjustDown P) * (A div nat ?T)"
    by (rule mult_right_mono) simp
  also have "\<dots> = nat (100 + nPowMaxAdjustDown P) * (nat ?T * (A div nat ?T))" by (simp only: mult.assoc mult.left_commute)
  also have "\<dots> \<le> nat (100 + nPowMaxAdjustDown P) * bytes_val (powLimit P)"
    using assms(2) by (intro mult_left_mono order.trans [OF times_div_less_eq_dividend]) simp_all
  also have "\<dots> < 100 * 2 ^ 256" using assms(1) by (simp only: pow_params_ok_def)
  finally show ?thesis by (simp only: mult.assoc nat_mult_less_cancel_disj)
qed

text \<open>A retarget from an average below the limit.\<close>

lemma unat_word_of_int_small: "0 \<le> x \<Longrightarrow> x < 2 ^ LENGTH('a) \<Longrightarrow> unat (word_of_int x :: 'a :: len word) = nat x"
  by (simp add: unat_eq_nat_uint uint_word_of_int)

lemma CalculateNextWorkRequired_correct:
  assumes ok: "pow_params_ok P" and A: "length bnAvg = 8" "limbs_val bnAvg \<le> bytes_val (powLimit P)"
  obtains bnNew where "length bnNew = 8" "CalculateNextWorkRequired bnAvg t1 t0 P h = GetCompact bnNew False"
    "limbs_val bnNew = min (bytes_val (powLimit P))
       (nat (retarget_timespan P (t1 - t0)) * (limbs_val bnAvg div nat (nPowAveragingWindow P * nPowTargetSpacing P)))"
proof -
  let ?T = "nPowAveragingWindow P * nPowTargetSpacing P" and ?s = "retarget_timespan P (t1 - t0)"
  have T: "0 < ?T" "?T < 2 ^ 32" "length (powLimit P) = 32"
    using ok by (simp_all only: pow_params_ok_def mult_pos_pos)
  have uT: "unat (word_of_int ?T :: uint64_t) = nat ?T" using T(1,2) by (intro unat_word_of_int_small) simp_all
  have us: "unat (word_of_int ?s :: uint32_t) = nat ?s"
    using retarget_timespan_range(3,4) [OF ok, where a = "t1 - t0"] by (intro unat_word_of_int_small) simp_all
  have "nat ?T \<noteq> 0" using T(1) by linarith
  then obtain q where q: "base_uint_div bnAvg (base_uint_of_u64 8 (word_of_int ?T)) = Inr q" "length q = 8"
    "limbs_val q = limbs_val bnAvg div nat ?T"
    using div_correct [of bnAvg "base_uint_of_u64 8 (word_of_int ?T)"] A(1) uT by (auto simp: val_simps len_simps)
  define m where "m = base_uint_mul32 q (word_of_int ?s)"
  have len: "length m = 8" using q(2) by (simp add: m_def base_uint_mul32_def len_simps)
  have m: "limbs_val m = nat ?s * (limbs_val bnAvg div nat ?T)"
    using avg_no_wrap [OF ok A(2), of "t1 - t0"] q(2,3) us by (simp only: m_def val_mul32 limb_base8 mod_less)
  define n where "n = (if base_uint_compare m (UintToArith256 (powLimit P)) > 0 then UintToArith256 (powLimit P) else m)"
  have "limbs_val n = min (bytes_val (powLimit P)) (limbs_val m)" "length n = 8"
    using len T(3) by (auto simp: n_def compare_gt UintToArith256_val)
  moreover have "CalculateNextWorkRequired bnAvg t1 t0 P h = GetCompact n False"
    using timespan_bounds [OF ok, of h] q(1)
    by (simp add: CalculateNextWorkRequired_def retarget_timespan_def Let_def AveragingWindowTimespan_def
        PoWTargetSpacing_def n_def m_def min_def max_def)
  ultimately show ?thesis using that m by simp
qed

lemma window_loop_bound:
  "\<forall>p b. H p = Some b \<longrightarrow> compact_value (nBits b) \<le> L \<Longrightarrow> L < 2 ^ 256 \<Longrightarrow>
   window_loop n H p tot = (q, tot') \<Longrightarrow> length tot = 8 \<Longrightarrow> limbs_val tot + n * L < 2 ^ 256 \<Longrightarrow>
   length tot' = 8 \<and> limbs_val tot' \<le> limbs_val tot + n * L"
proof (induction n H p tot rule: window_loop.induct)
  case (3 n H p tot)
  show ?case
  proof (cases "H p")
    case None
    then show ?thesis using 3 by auto
  next
    case (Some b)
    obtain t neg ovf where t: "SetCompact (nBits b) = (t, neg, ovf)" by (metis prod_cases3)
    have le: "compact_value (nBits b) \<le> L" using 3(2) Some by blast
    then have tv: "length t = 8" "limbs_val t \<le> L"
      using SetCompact_correct(1,2) [OF t] 3(3) by simp_all
    define tot2 where "tot2 = base_uint_add tot t"
    have "limbs_val tot + limbs_val t < 2 ^ 256" using tv(2) 3(6) by simp
    then have tot2: "length tot2 = 8" "limbs_val tot2 = limbs_val tot + limbs_val t"
      using tv(1) 3(5) by (simp_all only: tot2_def val_add length_add limb_base8 mod_less)
    have "window_loop n H (pprev b) tot2 = (q, tot')" using 3(4) Some t by (simp add: tot2_def)
    then have "length tot' = 8 \<and> limbs_val tot' \<le> limbs_val tot2 + n * L"
      using 3(1) [OF Some 3(2,3)] tot2 tv(2) 3(6) t by (simp add: tot2_def)
    then show ?thesis using tot2 tv(2) by simp
  qed
qed auto

text \<open>
  C12. From an average target that is not above the limit, the retargeted difficulty is the compact
  form of the average scaled by the damped and clamped time span, capped at the limit; no product
  wraps, the result always decodes without a flag, and rounding loses at most one part in \<open>2 ^ 15\<close>.
\<close>

theorem CalculateNextWorkRequired_retarget:
  assumes "pow_params_ok P" "length bnAvg = 8" "limbs_val bnAvg \<le> bytes_val (powLimit P)"
  shows "\<exists>c v. CalculateNextWorkRequired bnAvg t1 t0 P h = Inr c \<and> SetCompact c = (v, False, False)
    \<and> (let ts = retarget_timespan P (t1 - t0);
           N = min (bytes_val (powLimit P)) (nat ts * (limbs_val bnAvg div nat (AveragingWindowTimespan P h)))
       in MinActualTimespan P h \<le> ts \<and> ts \<le> MaxActualTimespan P h
          \<and> limbs_val v \<le> N \<and> 2 ^ 15 * (N - limbs_val v) \<le> limbs_val v)"
proof -
  obtain n where n: "length n = 8" "CalculateNextWorkRequired bnAvg t1 t0 P h = GetCompact n False"
    "limbs_val n = min (bytes_val (powLimit P))
       (nat (retarget_timespan P (t1 - t0)) * (limbs_val bnAvg div nat (nPowAveragingWindow P * nPowTargetSpacing P)))"
    using CalculateNextWorkRequired_correct [OF assms] by blast
  from compact_roundtrip_obtain [OF n(1)] obtain c v where
    c: "GetCompact n False = Inr c" "SetCompact c = (v, False, False)" "length v = 8"
    "limbs_val v = limbs_val n div 256 ^ (compact_size c - 3) * 256 ^ (compact_size c - 3)"
    "2 ^ 15 * (limbs_val n - limbs_val v) \<le> limbs_val v" by blast
  have "limbs_val v \<le> limbs_val n" unfolding c(4) by (rule div_times_less_eq_dividend)
  then show ?thesis
    using n(2) c(1,2,5) retarget_timespan_range(1,2) [OF assms(1), where h = h and a = "t1 - t0"]
    unfolding Let_def AveragingWindowTimespan_def PoWTargetSpacing_def n(3) [symmetric]
    by (intro exI [of _ c] exI [of _ v] conjI) (simp_all only:)
qed

lemma CMainParams_pow_ok: "pow_params_ok CMainParams_base"
proof -
  have *: "nPowAveragingWindow CMainParams_base = 13" "nPowTargetSpacing CMainParams_base = 150"
    "nPowMaxAdjustUp CMainParams_base = 34" "nPowMaxAdjustDown CMainParams_base = 34"
    by (simp_all add: CMainParams_base_def)
  show ?thesis unfolding pow_params_ok_def * using CMainParams_powLimit by simp
qed

theorem CalculateNextWorkRequired_retarget_witness:
  "\<exists>c v. CalculateNextWorkRequired (base_uint_of_u64 8 1950000) 2000 0 CMainParams_base 5 = Inr c
     \<and> SetCompact c = (v, False, False) \<and> limbs_val v \<le> 1962000"
proof -
  have A: "length (base_uint_of_u64 8 1950000) = 8" "limbs_val (base_uint_of_u64 8 1950000) = 1950000"
    by (simp_all add: val_simps len_simps)
  have "limbs_val (base_uint_of_u64 8 1950000) \<le> bytes_val (powLimit CMainParams_base)"
    using CMainParams_powLimit(2) A(2) by simp
  from CalculateNextWorkRequired_retarget [OF CMainParams_pow_ok A(1) this, of 2000 0 5]
  show ?thesis
    by (fastforce simp: Let_def A(2) retarget_timespan_def AveragingWindowTimespan_def PoWTargetSpacing_def CMainParams_base_def sdiv_nonneg)
qed

lemma compact_limit:
  assumes "length n = 8" "limbs_val n \<le> L"
  shows "\<exists>c v. GetCompact n False = Inr c \<and> SetCompact c = (v, False, False) \<and> limbs_val v \<le> L"
proof -
  from compact_roundtrip_obtain [OF assms(1)] obtain c v where
    c: "GetCompact n False = Inr c" "SetCompact c = (v, False, False)" "length v = 8"
    "limbs_val v = limbs_val n div 256 ^ (compact_size c - 3) * 256 ^ (compact_size c - 3)" by blast
  have "limbs_val v \<le> limbs_val n" unfolding c(4) by (rule div_times_less_eq_dividend)
  then show ?thesis using c(1,2) assms(2) by (intro exI [of _ c] exI [of _ v]) simp
qed

lemma window_average:
  assumes ok: "pow_params_ok P" and tgt: "\<forall>p b. H p = Some b \<longrightarrow> compact_value (nBits b) \<le> bytes_val (powLimit P)"
    and w: "window_loop (nat (nPowAveragingWindow P)) H p (base_uint_of_u64 8 0) = (q, tot)"
  obtains avg where "base_uint_div tot (base_uint_of_u64 8 (word_of_int (nPowAveragingWindow P))) = Inr avg"
    "length avg = 8" "limbs_val avg \<le> bytes_val (powLimit P)"
proof -
  let ?L = "bytes_val (powLimit P)" and ?w = "nPowAveragingWindow P"
  have len: "length (powLimit P) = 32" and w0: "0 < ?w" and wrap: "nat ?w * ?L < 2 ^ 256"
    using ok by (simp_all only: pow_params_ok_def)
  have L: "?L < 2 ^ 256" using bytes_val_less [of "powLimit P"] len by simp
  have z: "length (base_uint_of_u64 8 0) = 8" "limbs_val (base_uint_of_u64 8 0) = 0"
    by (simp_all add: len_simps val_simps)
  have "limbs_val (base_uint_of_u64 8 0) + nat ?w * ?L < 2 ^ 256" using wrap z(2) by simp
  from window_loop_bound [OF tgt L w z(1) this] have tot: "length tot = 8" "limbs_val tot \<le> nat ?w * ?L" using z(2) by simp_all
  have "1 \<le> nPowTargetSpacing P" "?w * nPowTargetSpacing P < 2 ^ 32" using ok by (simp_all add: pow_params_ok_def)
  then have "?w < 2 ^ 32" using mult_left_mono [of 1 "nPowTargetSpacing P" ?w] w0 by linarith
  then have uw: "unat (word_of_int ?w :: uint64_t) = nat ?w" using w0 by (intro unat_word_of_int_small) simp_all
  then obtain avg where a: "base_uint_div tot (base_uint_of_u64 8 (word_of_int ?w)) = Inr avg" "length avg = 8"
    "limbs_val avg = limbs_val tot div nat ?w"
    using div_correct [of tot "base_uint_of_u64 8 (word_of_int ?w)"] tot(1) w0 by (auto simp: val_simps len_simps)
  have "limbs_val tot div nat ?w \<le> nat ?w * ?L div nat ?w" using tot(2) by (rule div_le_mono)
  also have "\<dots> = ?L" using w0 by simp
  finally show ?thesis using that a by simp
qed



text \<open>
  C14. The work of a block is \<open>2 ^ 256 div (target + 1)\<close> for a valid target and zero otherwise, so it
  is positive exactly for valid targets, and a lower target never counts as less work; computing it
  never divides by zero.
\<close>

theorem GetBlockProof_is_expected_hashes:
  "\<exists>w w'. GetBlockProof b = Inr w \<and> GetBlockProof b' = Inr w' \<and> length w = 8
    \<and> limbs_val w = (if valid_target (nBits b) then 2 ^ 256 div (compact_value (nBits b) + 1) else 0)
    \<and> (limbs_val w > 0 \<longleftrightarrow> valid_target (nBits b))
    \<and> (valid_target (nBits b) \<and> compact_value (nBits b) \<le> compact_value (nBits b') \<longrightarrow> limbs_val w' \<le> limbs_val w)"
proof -
  obtain w where w: "GetBlockProof b = Inr w" "length w = 8"
    "limbs_val w = (if valid_target (nBits b) then 2 ^ 256 div (compact_value (nBits b) + 1) else 0)"
    by (rule GetBlockProof_correct)
  obtain w' where w': "GetBlockProof b' = Inr w'"
    "limbs_val w' = (if valid_target (nBits b') then 2 ^ 256 div (compact_value (nBits b') + 1) else 0)"
    by (rule GetBlockProof_correct)
  have "0 < 2 ^ 256 div (compact_value (nBits b) + 1)" if "valid_target (nBits b)"
    using valid_target_Suc [OF that] by (simp only: div_greater_zero_iff) simp
  moreover have "2 ^ 256 div (compact_value (nBits b') + 1) \<le> 2 ^ 256 div (compact_value (nBits b) + 1)"
    if "compact_value (nBits b) \<le> compact_value (nBits b')" using that by (intro div_le_mono2) simp_all
  ultimately show ?thesis using w w' by (intro exI [of _ w] exI [of _ w']) simp
qed

theorem GetBlockProof_is_expected_hashes_witness:
  "\<exists>w w'. GetBlockProof (CBlockIndex_null\<lparr>nBits := 0x1d00ffff\<rparr>) = Inr w
     \<and> GetBlockProof (CBlockIndex_null\<lparr>nBits := 0x1f07ffff\<rparr>) = Inr w' \<and> limbs_val w' \<le> limbs_val w"
proof -
  have "valid_target 0x1d00ffff" "compact_value 0x1d00ffff \<le> compact_value 0x1f07ffff"
    by (simp_all add: valid_target_def compact_value_def compact_mant_def compact_size_def)
  then show ?thesis
    using GetBlockProof_is_expected_hashes [of "CBlockIndex_null\<lparr>nBits := 0x1d00ffff\<rparr>" "CBlockIndex_null\<lparr>nBits := 0x1f07ffff\<rparr>"]
    by fastforce
qed

end
