(* ===== verification/Serialize.thy ===== *)
theory Serialize
  imports Prelude
begin

text \<open>
  Serialization (\<open>serialize.h\<close>) and the in-memory stream (\<open>CBaseDataStream\<close> of \<open>streams.h\<close>). A
  writer is a function to bytes, a reader takes the bytes that are left and returns a value with the
  rest or the exception it throws. \<open>codec\<close> is the contract of a type that can be written and read
  back; the integers, sizes, vectors, arrays and optional values of \<open>serialize.h\<close> are shown to meet it.
\<close>

unbundle bit_operations_syntax

section \<open>Streams\<close>

record CBaseDataStream =
  ds_vch :: "byte list"
  ds_nReadPos :: uint32_t

definition stream_size :: "CBaseDataStream \<Rightarrow> nat" where
  "stream_size s = length (ds_vch s) - unat (ds_nReadPos s)"

definition stream_eof :: "CBaseDataStream \<Rightarrow> bool" where
  "stream_eof s \<longleftrightarrow> stream_size s = 0"

text \<open>
  \<open>nReadPosNext\<close> is an \<open>unsigned int\<close>, so the sum is taken modulo \<open>2 ^ 32\<close>.
\<close>

definition stream_read :: "nat \<Rightarrow> CBaseDataStream \<Rightarrow> (byte list \<times> CBaseDataStream) result" where
  "stream_read nSize s =
     (if nSize = 0 then Inr ([], s)
      else let nReadPosNext = ds_nReadPos s + of_nat nSize;
               pch = take nSize (drop (unat (ds_nReadPos s)) (ds_vch s))
           in if unat nReadPosNext \<ge> length (ds_vch s) then
                (if unat nReadPosNext > length (ds_vch s)
                 then Inl (Throw ''CBaseDataStream::read(): end of data'')
                 else Inr (pch, s\<lparr>ds_nReadPos := 0, ds_vch := []\<rparr>))
              else Inr (pch, s\<lparr>ds_nReadPos := nReadPosNext\<rparr>))"

definition stream_ignore :: "int \<Rightarrow> CBaseDataStream \<Rightarrow> CBaseDataStream result" where
  "stream_ignore nSize s =
     (if nSize < 0 then Inl (Throw ''CDataStream::ignore(): nSize negative'')
      else let nReadPosNext = ds_nReadPos s + of_nat (nat nSize)
           in if unat nReadPosNext \<ge> length (ds_vch s) then
                (if unat nReadPosNext > length (ds_vch s)
                 then Inl (Throw ''CBaseDataStream::ignore(): end of data'')
                 else Inr (s\<lparr>ds_nReadPos := 0, ds_vch := []\<rparr>))
              else Inr (s\<lparr>ds_nReadPos := nReadPosNext\<rparr>))"

definition stream_write :: "byte list \<Rightarrow> CBaseDataStream \<Rightarrow> CBaseDataStream" where
  "stream_write pch s = s\<lparr>ds_vch := ds_vch s @ pch\<rparr>"

definition stream_Compact :: "CBaseDataStream \<Rightarrow> CBaseDataStream" where
  "stream_Compact s = s\<lparr>ds_vch := drop (unat (ds_nReadPos s)) (ds_vch s), ds_nReadPos := 0\<rparr>"

definition stream_Rewind :: "uint32_t \<Rightarrow> CBaseDataStream \<Rightarrow> bool \<times> CBaseDataStream" where
  "stream_Rewind n s =
     (if n > ds_nReadPos s then (False, s) else (True, s\<lparr>ds_nReadPos := ds_nReadPos s - n\<rparr>))"

text \<open>What is left to read, and the positions a stream can be at.\<close>

definition stream_rest :: "CBaseDataStream \<Rightarrow> byte list" where
  "stream_rest s = drop (unat (ds_nReadPos s)) (ds_vch s)"

definition stream_ok :: "CBaseDataStream \<Rightarrow> bool" where
  "stream_ok s \<longleftrightarrow> unat (ds_nReadPos s) \<le> length (ds_vch s) \<and> length (ds_vch s) < 2 ^ 32"

section \<open>Readers\<close>

type_synonym 'a reader = "byte list \<Rightarrow> ('a \<times> byte list) result"

definition rreturn :: "'a \<Rightarrow> 'a reader" where
  "rreturn x s = Inr (x, s)"

definition rthrow :: "string \<Rightarrow> 'a reader" where
  "rthrow e s = Inl (Throw e)"

definition rbind :: "'a reader \<Rightarrow> ('a \<Rightarrow> 'b reader) \<Rightarrow> 'b reader" where
  "rbind r f s = (case r s of Inl e \<Rightarrow> Inl e | Inr (x, s') \<Rightarrow> f x s')"

definition read_bytes :: "nat \<Rightarrow> byte list reader" where
  "read_bytes n s =
     (if n > length s then Inl (Throw ''CBaseDataStream::read(): end of data'') else Inr (take n s, drop n s))"

section \<open>Integers\<close>

text \<open>The bytes of a number, least significant first.\<close>

definition le_bytes :: "nat \<Rightarrow> nat \<Rightarrow> byte list" where
  "le_bytes n v = map (\<lambda>i. of_nat (v div 256 ^ i)) [0..<n]"

definition ser_writedata8 :: "8 word \<Rightarrow> byte list" where
  "ser_writedata8 obj = [obj]"

definition ser_writedata16 :: "16 word \<Rightarrow> byte list" where
  "ser_writedata16 obj = le_bytes 2 (unat obj)"

definition ser_writedata32 :: "32 word \<Rightarrow> byte list" where
  "ser_writedata32 obj = le_bytes 4 (unat obj)"

definition ser_writedata64 :: "64 word \<Rightarrow> byte list" where
  "ser_writedata64 obj = le_bytes 8 (unat obj)"

definition ser_readdata8 :: "8 word reader" where
  "ser_readdata8 = rbind (read_bytes 1) (\<lambda>bs. rreturn (hd bs))"

definition ser_readdata16 :: "16 word reader" where
  "ser_readdata16 = rbind (read_bytes 2) (\<lambda>bs. rreturn (of_nat (bytes_val bs)))"

definition ser_readdata32 :: "32 word reader" where
  "ser_readdata32 = rbind (read_bytes 4) (\<lambda>bs. rreturn (of_nat (bytes_val bs)))"

definition ser_readdata64 :: "64 word reader" where
  "ser_readdata64 = rbind (read_bytes 8) (\<lambda>bs. rreturn (of_nat (bytes_val bs)))"

text \<open>Signed integers go through the unsigned type of their width and back.\<close>

definition ser_int32 :: "int \<Rightarrow> byte list" where
  "ser_int32 a = ser_writedata32 (word_of_int a)"

definition unser_int32 :: "int reader" where
  "unser_int32 = rbind ser_readdata32 (\<lambda>w. rreturn (sint w))"

definition ser_int64 :: "int \<Rightarrow> byte list" where
  "ser_int64 a = ser_writedata64 (word_of_int a)"

definition unser_int64 :: "int reader" where
  "unser_int64 = rbind ser_readdata64 (\<lambda>w. rreturn (sint w))"

definition ser_bool :: "bool \<Rightarrow> byte list" where
  "ser_bool a = ser_writedata8 (if a then 1 else 0)"

definition unser_bool :: "bool reader" where
  "unser_bool = rbind ser_readdata8 (\<lambda>f. rreturn (f \<noteq> 0))"

section \<open>Compact sizes\<close>

definition MAX_SIZE :: uint64_t where
  "MAX_SIZE = 0x02000000"

definition GetSizeOfCompactSize :: "uint64_t \<Rightarrow> nat" where
  "GetSizeOfCompactSize nSize =
     (if nSize < 253 then 1 else if nSize \<le> 0xFFFF then 3 else if nSize \<le> 0xFFFFFFFF then 5 else 9)"

definition WriteCompactSize :: "uint64_t \<Rightarrow> byte list" where
  "WriteCompactSize nSize =
     (if nSize < 253 then ser_writedata8 (ucast nSize)
      else if nSize \<le> 0xFFFF then ser_writedata8 253 @ ser_writedata16 (ucast nSize)
      else if nSize \<le> 0xFFFFFFFF then ser_writedata8 254 @ ser_writedata32 (ucast nSize)
      else ser_writedata8 255 @ ser_writedata64 nSize)"

definition ReadCompactSize_body :: "byte \<Rightarrow> uint64_t reader" where
  "ReadCompactSize_body chSize =
     (if chSize < 253 then rreturn (ucast chSize)
      else if chSize = 253 then
        rbind ser_readdata16 (\<lambda>w. if (ucast w :: uint64_t) < 253 then rthrow ''non-canonical ReadCompactSize()''
                                  else rreturn (ucast w))
      else if chSize = 254 then
        rbind ser_readdata32 (\<lambda>w. if (ucast w :: uint64_t) < 0x10000 then rthrow ''non-canonical ReadCompactSize()''
                                  else rreturn (ucast w))
      else
        rbind ser_readdata64 (\<lambda>w. if w < 0x100000000 then rthrow ''non-canonical ReadCompactSize()''
                                  else rreturn w))"

definition ReadCompactSize :: "uint64_t reader" where
  "ReadCompactSize =
     rbind ser_readdata8 (\<lambda>chSize.
       rbind (ReadCompactSize_body chSize) (\<lambda>nSizeRet.
         if nSizeRet > MAX_SIZE then rthrow ''ReadCompactSize(): size too large'' else rreturn nSizeRet))"

section \<open>Variable-length integers\<close>

text \<open>
  The writer collects the digits from the lowest on in an array and then emits the array backwards;
  the highest digit comes first, and every digit but the lowest carries the continuation bit.
\<close>

lemma varint_decreases:
  fixes n :: "'a::len word"
  assumes big: "\<not> n \<le> 0x7F"
  shows "unat (drop_bit 7 n - 1) < unat n"
proof -
  have "drop_bit 7 n \<noteq> 0"
  proof
    assume "drop_bit 7 n = 0"
    then have "n = n AND mask 7" using bits_ident [of 7 n] by (simp add: take_bit_eq_mask)
    then have "n \<le> mask 7" by (metis word_and_le1)
    then show False using big by (simp add: mask_eq_exp_minus_1)
  qed
  then have "unat (drop_bit 7 n - 1) < unat (drop_bit 7 n)" by (rule measure_unat)
  also have "\<dots> \<le> unat n" by (simp only: unat_drop_bit div_le_dividend)
  finally show ?thesis .
qed

function WriteVarInt_digits :: "byte \<Rightarrow> 'a::len word \<Rightarrow> byte list" where
  "WriteVarInt_digits flag n =
     (if n \<le> 0x7F then [ucast (n AND 0x7F) OR flag]
      else (ucast (n AND 0x7F) OR flag) # WriteVarInt_digits 0x80 (drop_bit 7 n - 1))"
  by pat_completeness auto
termination
  by (relation "measure (\<lambda>(flag, n). unat n)") (rule wf_measure, simp only: in_measure prod.case varint_decreases not_False_eq_True)

declare WriteVarInt_digits.simps [simp del]

definition WriteVarInt :: "'a::len word \<Rightarrow> byte list" where
  "WriteVarInt n = rev (WriteVarInt_digits 0 n)"

function GetSizeOfVarInt :: "'a::len word \<Rightarrow> nat" where
  "GetSizeOfVarInt n = (if n \<le> 0x7F then 1 else Suc (GetSizeOfVarInt (drop_bit 7 n - 1)))"
  by pat_completeness auto
termination
  by (relation "measure unat") (rule wf_measure, simp only: in_measure varint_decreases not_False_eq_True)

declare GetSizeOfVarInt.simps [simp del]

fun ReadVarInt_loop :: "'a::len word \<Rightarrow> 'a word reader" where
  "ReadVarInt_loop n [] = Inl (Throw ''CBaseDataStream::read(): end of data'')"
| "ReadVarInt_loop n (chData # s) =
     (let n = push_bit 7 n OR ucast (chData AND 0x7F)
      in if chData AND 0x80 \<noteq> 0 then ReadVarInt_loop (n + 1) s else Inr (n, s))"

definition ReadVarInt :: "'a::len word reader" where
  "ReadVarInt = ReadVarInt_loop 0"

section \<open>Containers\<close>

text \<open>
  Vectors are read in steps that bound how much memory is reserved ahead of the data; which elements
  are read, and in which order, does not depend on the steps.
\<close>

fun unser_elems :: "'a reader \<Rightarrow> nat \<Rightarrow> 'a list reader" where
  "unser_elems r 0 = rreturn []"
| "unser_elems r (Suc n) = rbind r (\<lambda>x. rbind (unser_elems r n) (\<lambda>xs. rreturn (x # xs)))"

definition ser_elems :: "('a \<Rightarrow> byte list) \<Rightarrow> 'a list \<Rightarrow> byte list" where
  "ser_elems w xs = concat (map w xs)"

definition ser_vector :: "('a \<Rightarrow> byte list) \<Rightarrow> 'a list \<Rightarrow> byte list" where
  "ser_vector w v = WriteCompactSize (of_nat (length v)) @ ser_elems w v"

definition unser_vector :: "'a reader \<Rightarrow> 'a list reader" where
  "unser_vector r = rbind ReadCompactSize (\<lambda>nSize. unser_elems r (unat nSize))"

definition ser_bytes :: "byte list \<Rightarrow> byte list" where
  "ser_bytes v = WriteCompactSize (of_nat (length v)) @ v"

definition unser_bytes :: "byte list reader" where
  "unser_bytes = rbind ReadCompactSize (\<lambda>nSize. read_bytes (unat nSize))"

definition unser_LimitedString :: "nat \<Rightarrow> byte list reader" where
  "unser_LimitedString Limit =
     rbind ReadCompactSize (\<lambda>size.
       if unat size > Limit then rthrow ''String length limit exceeded'' else read_bytes (unat size))"

definition ser_optional :: "('a \<Rightarrow> byte list) \<Rightarrow> 'a option \<Rightarrow> byte list" where
  "ser_optional w item =
     (case item of Some x \<Rightarrow> ser_writedata8 1 @ w x | None \<Rightarrow> ser_writedata8 0)"

definition unser_optional :: "'a reader \<Rightarrow> 'a option reader" where
  "unser_optional r =
     rbind ser_readdata8 (\<lambda>discriminant.
       if discriminant = 0 then rreturn None
       else if discriminant = 1 then rbind r (\<lambda>x. rreturn (Some x))
       else rthrow ''non-canonical optional discriminant'')"

definition ser_pair :: "('a \<Rightarrow> byte list) \<Rightarrow> ('b \<Rightarrow> byte list) \<Rightarrow> 'a \<times> 'b \<Rightarrow> byte list" where
  "ser_pair wa wb item = wa (fst item) @ wb (snd item)"

definition unser_pair :: "'a reader \<Rightarrow> 'b reader \<Rightarrow> ('a \<times> 'b) reader" where
  "unser_pair ra rb = rbind ra (\<lambda>x. rbind rb (\<lambda>y. rreturn (x, y)))"

section \<open>The contract of a serializable type\<close>

text \<open>
  \<open>ok\<close> are the values the type can write (byte arrays of the right length, sizes below the limit):
  reading what was written gives the value back and leaves what follows.
\<close>

locale codec =
  fixes ser :: "'a \<Rightarrow> byte list" and unser :: "'a reader" and ok :: "'a \<Rightarrow> bool"
  assumes roundtrip: "ok x \<Longrightarrow> unser (ser x @ s) = Inr (x, s)"
begin

lemma bind: "ok x \<Longrightarrow> rbind unser f (ser x @ s) = f x s"
  by (simp add: rbind_def roundtrip)

lemma prefix_free:
  assumes "ok x" "ok y" "ser x @ s = ser y @ t"
  shows "x = y \<and> s = t"
proof -
  have "Inr (x, s) = (Inr (y, t) :: ('a \<times> byte list) result)"
    unfolding roundtrip [OF assms(1), of s, symmetric] roundtrip [OF assms(2), of t, symmetric] assms(3) ..
  then show ?thesis by simp
qed

lemma elems: "\<forall>x \<in> set xs. ok x \<Longrightarrow> unser_elems unser (length xs) (ser_elems ser xs @ s) = Inr (xs, s)"
  by (induction xs arbitrary: s) (simp_all add: ser_elems_def bind rbind_def rreturn_def roundtrip)

end

lemma length_le_bytes [simp]: "length (le_bytes n v) = n"
  by (simp add: le_bytes_def)

lemma le_bytes_Suc: "le_bytes (Suc n) v = of_nat v # le_bytes n (v div 256)"
  by (simp add: le_bytes_def upt_conv_Cons map_Suc_upt [symmetric] div_mult2_eq del: upt_Suc map_Suc_upt)

lemma bytes_val_le_bytes: "bytes_val (le_bytes n v) = v mod 256 ^ n"
proof (induction n arbitrary: v)
  case 0
  then show ?case by (simp add: le_bytes_def)
next
  case (Suc n)
  have "unat (of_nat v :: byte) = v mod 256" by (simp add: unat_of_nat)
  then show ?case by (simp add: le_bytes_Suc Suc mod_mult2_eq)
qed

lemma unat_mod_width [simp]:
  "unat (x :: 16 word) mod 65536 = unat x" "unat (y :: 32 word) mod 4294967296 = unat y"
  "unat (z :: 64 word) mod 18446744073709551616 = unat z"
  using unsigned_less [where ?'a = nat, of x] unsigned_less [where ?'a = nat, of y] unsigned_less [where ?'a = nat, of z]
  by simp_all

lemma rbind_return: "rbind r rreturn = r"
  by (auto simp: rbind_def rreturn_def split: sum.splits)

lemma read_bytes_append: "length bs = n \<Longrightarrow> read_bytes n (bs @ s) = Inr (bs, s)"
  by (simp add: read_bytes_def)

lemma read_le_bytes:
  "rbind (read_bytes n) f (le_bytes n v @ s) = f (le_bytes n v) s"
  by (simp add: rbind_def read_bytes_append)

interpretation blob: codec "\<lambda>x. x" "read_bytes n" "\<lambda>x. length x = n" for n
  by unfold_locales (simp add: read_bytes_append)

interpretation u8: codec ser_writedata8 ser_readdata8 "\<lambda>_. True"
  by unfold_locales (simp add: ser_writedata8_def ser_readdata8_def rbind_def read_bytes_def rreturn_def)

interpretation u16: codec ser_writedata16 ser_readdata16 "\<lambda>_. True"
  by unfold_locales (simp add: ser_writedata16_def ser_readdata16_def read_le_bytes rreturn_def bytes_val_le_bytes)

interpretation u32: codec ser_writedata32 ser_readdata32 "\<lambda>_. True"
  by unfold_locales (simp add: ser_writedata32_def ser_readdata32_def read_le_bytes rreturn_def bytes_val_le_bytes)

interpretation u64: codec ser_writedata64 ser_readdata64 "\<lambda>_. True"
  by unfold_locales (simp add: ser_writedata64_def ser_readdata64_def read_le_bytes rreturn_def bytes_val_le_bytes)

interpretation i32: codec ser_int32 unser_int32 "\<lambda>x. - (2 ^ 31) \<le> x \<and> x < 2 ^ 31"
  by unfold_locales
    (simp add: ser_int32_def unser_int32_def u32.bind rreturn_def signed_of_int signed_take_bit_int_eq_self)

interpretation i64: codec ser_int64 unser_int64 "\<lambda>x. - (2 ^ 63) \<le> x \<and> x < 2 ^ 63"
  by unfold_locales
    (simp add: ser_int64_def unser_int64_def u64.bind rreturn_def signed_of_int signed_take_bit_int_eq_self)

interpretation boolean: codec ser_bool unser_bool "\<lambda>_. True"
  by unfold_locales (simp add: ser_bool_def unser_bool_def u8.bind rreturn_def)

lemma ucast_back:
  fixes n :: uint64_t
  shows "n < 253 \<Longrightarrow> (ucast (ucast n :: byte) :: uint64_t) = n"
    "n \<le> 0xFFFF \<Longrightarrow> (ucast (ucast n :: 16 word) :: uint64_t) = n"
    "n \<le> 0xFFFFFFFF \<Longrightarrow> (ucast (ucast n :: 32 word) :: uint64_t) = n"
  by (simp_all add: word_unat_eq_iff unsigned_ucast_eq take_bit_nat_eq_self_iff word_less_nat_alt word_le_nat_alt take_bit_eq_mod unat_mod)

lemma ucast_small_byte: "(n :: uint64_t) < 253 \<Longrightarrow> (ucast n :: byte) < 253"
  by (simp add: unsigned_ucast_eq take_bit_eq_mod word_less_nat_alt)

lemma rbind_rreturn: "rbind (rreturn x) f s = f x s"
  by (simp add: rbind_def rreturn_def)

lemma rbind_assoc: "rbind (rbind r g) f = rbind r (\<lambda>x. rbind (g x) f)"
  by (auto simp: rbind_def split: sum.split)

lemma ReadCompactSize_body_inverse:
  "rbind ser_readdata8 (\<lambda>ch. rbind (ReadCompactSize_body ch) f) (WriteCompactSize n @ s) = f n s"
proof -
  note simps = WriteCompactSize_def u8.bind u16.bind u32.bind u64.bind ReadCompactSize_body_def rbind_assoc rbind_rreturn
  consider "n < 253" | "\<not> n < 253" "n \<le> 0xFFFF" | "\<not> n \<le> 0xFFFF" "n \<le> 0xFFFFFFFF" | "\<not> n \<le> 0xFFFFFFFF" by blast
  then show ?thesis
  proof cases
    case 1
    then show ?thesis by (simp add: simps ucast_small_byte ucast_back(1))
  next
    case 2
    then show ?thesis by (simp add: simps ucast_back(2))
  next
    case 3
    then have "\<not> n < 253" "\<not> n < 0x10000" by (simp_all add: word_less_nat_alt word_le_nat_alt)
    then show ?thesis using 3 by (simp add: simps ucast_back(3))
  next
    case 4
    then have "\<not> n < 253" "\<not> n < 0x100000000" "\<not> n \<le> 0xFFFF" by (simp_all add: word_less_nat_alt word_le_nat_alt)
    then show ?thesis using 4 by (simp add: simps)
  qed
qed

interpretation compactsize: codec WriteCompactSize ReadCompactSize "\<lambda>n. n \<le> MAX_SIZE"
  by unfold_locales (auto simp: ReadCompactSize_def ReadCompactSize_body_inverse rreturn_def)

lemma length_WriteCompactSize: "length (WriteCompactSize n) = GetSizeOfCompactSize n"
  by (simp add: WriteCompactSize_def GetSizeOfCompactSize_def ser_writedata8_def ser_writedata16_def
      ser_writedata32_def ser_writedata64_def)

text \<open>Digits of a variable-length integer, as the reader sees them.\<close>

lemma digit_bits:
  fixes n :: "'a::len word"
  assumes "8 \<le> LENGTH('a)" "flag AND 0x7F = 0"
  shows "(ucast ((ucast (n AND 0x7F) OR flag) AND 0x7F :: byte) :: 'a word) = n AND 0x7F"
proof -
  have m: "(0x7F :: byte) = mask 7" "(0x7F :: 'a word) = mask 7" by (simp_all add: mask_eq_exp_minus_1)
  show ?thesis
  proof (rule bit_word_eqI)
    fix k
    assume "k < LENGTH('a)"
    have "\<not> bit flag k" if "k < 7"
      using arg_cong [OF assms(2), of "\<lambda>w. bit w k"] that by (simp add: m bit_and_iff bit_mask_iff)
    then show "bit (ucast ((ucast (n AND 0x7F) OR flag) AND 0x7F :: byte) :: 'a word) k = bit (n AND 0x7F) k"
      using assms(1) by (auto simp: m bit_and_iff bit_or_iff bit_ucast_iff bit_mask_iff)
  qed
qed

lemma bit_byte_80: "bit (0x80 :: byte) k \<longleftrightarrow> k = 7"
  using bit_exp_iff [of 7 k, where ?'a = byte] by auto

lemma digit_flag:
  fixes n :: "'a::len word"
  shows "(ucast (n AND 0x7F) OR 0x80) AND 0x80 \<noteq> (0 :: byte)" "(ucast (n AND 0x7F) OR 0) AND 0x80 = (0 :: byte)"
proof -
  have m: "(0x7F :: 'a word) = mask 7" by (simp add: mask_eq_exp_minus_1)
  have "bit ((ucast (n AND 0x7F) OR 0x80) AND 0x80 :: byte) 7" by (simp add: bit_and_iff bit_or_iff bit_byte_80)
  then show "(ucast (n AND 0x7F) OR 0x80) AND 0x80 \<noteq> (0 :: byte)" by (metis bit_0_eq bot_apply bot_bool_def)
  show "(ucast (n AND 0x7F) OR 0) AND 0x80 = (0 :: byte)"
  proof (rule bit_word_eqI)
    fix k
    show "bit ((ucast (n AND 0x7F) OR 0) AND 0x80 :: byte) k = bit (0 :: byte) k"
      by (cases "k = 7") (simp_all only: m bit_and_iff bit_or_iff bit_ucast_iff bit_mask_iff bit_byte_80 bit_0_eq bot_apply, auto)
  qed
qed

lemma rejoin_digits: "push_bit 7 (drop_bit 7 n) OR (n AND 0x7F) = (n :: 'a::len word)"
proof -
  have m: "(0x7F :: 'a word) = mask 7" by (simp add: mask_eq_exp_minus_1)
  show ?thesis
    by (rule bit_word_eqI) (auto simp: m bit_or_iff bit_and_iff bit_push_bit_iff bit_drop_bit_eq bit_mask_iff)
qed

lemma ReadVarInt_digit:
  fixes n :: "'a::len word"
  assumes "8 \<le> LENGTH('a)"
  shows "ReadVarInt_loop (drop_bit 7 n) ((ucast (n AND 0x7F) OR 0x80) # s) = ReadVarInt_loop (n + 1) s"
    "ReadVarInt_loop (drop_bit 7 n) ((ucast (n AND 0x7F) OR 0) # s) = Inr (n, s)"
  using digit_bits [OF assms, of "0x80" n] digit_bits [OF assms, of 0 n] digit_flag [of n]
  by (simp_all only: ReadVarInt_loop.simps Let_def) (simp_all add: rejoin_digits)

lemma drop_bit_small:
  fixes n :: "'a::len word"
  assumes "8 \<le> LENGTH('a)" "n \<le> 0x7F"
  shows "drop_bit 7 n = 0"
proof -
  have "(2 :: nat) ^ 8 \<le> 2 ^ LENGTH('a)" using assms(1) by (rule power_increasing) simp
  then have "unat (0x7F :: 'a word) = 127" by (simp add: unsigned_numeral take_bit_nat_eq_self_iff)
  then have "unat n < 2 ^ 7" using assms(2) by (simp add: word_le_nat_alt)
  then have "unat (drop_bit 7 n) = 0" by (simp only: unat_drop_bit div_less)
  then show ?thesis by (simp only: unat_eq_0)
qed

lemma ReadVarInt_prefix:
  fixes n :: "'a::len word"
  assumes "8 \<le> LENGTH('a)"
  shows "ReadVarInt_loop 0 (rev (WriteVarInt_digits 0x80 n) @ s) = ReadVarInt_loop (n + 1) s"
proof (induction n arbitrary: s rule: measure_induct_rule [of unat])
  case (less n)
  show ?case
  proof (cases "n \<le> 0x7F")
    case True
    then have "drop_bit 7 n = 0" using assms by (intro drop_bit_small)
    then show ?thesis using ReadVarInt_digit(1) [OF assms, of n s] True by (simp add: WriteVarInt_digits.simps [of _ n])
  next
    case False
    have "rev (WriteVarInt_digits 0x80 n) @ s =
      rev (WriteVarInt_digits 0x80 (drop_bit 7 n - 1)) @ (ucast (n AND 0x7F) OR 0x80) # s"
      using False by (subst WriteVarInt_digits.simps) simp
    then show ?thesis
      using less [OF varint_decreases [OF False], of "(ucast (n AND 0x7F) OR 0x80) # s"] ReadVarInt_digit(1) [OF assms, of n s]
      by (simp only: diff_add_cancel)
  qed
qed

lemma ReadVarInt_WriteVarInt:
  fixes n :: "'a::len word"
  assumes "8 \<le> LENGTH('a)"
  shows "ReadVarInt (WriteVarInt n @ s) = Inr (n, s)"
proof (cases "n \<le> 0x7F")
  case True
  then have "drop_bit 7 n = 0" using assms by (intro drop_bit_small)
  then show ?thesis using ReadVarInt_digit(2) [OF assms, of n s] True
    by (simp add: ReadVarInt_def WriteVarInt_def WriteVarInt_digits.simps [of _ n])
next
  case False
  have "WriteVarInt n @ s = rev (WriteVarInt_digits 0x80 (drop_bit 7 n - 1)) @ (ucast (n AND 0x7F) OR 0) # s"
    unfolding WriteVarInt_def using False by (subst WriteVarInt_digits.simps) simp
  then show ?thesis
    using ReadVarInt_prefix [OF assms, of "drop_bit 7 n - 1" "(ucast (n AND 0x7F) OR 0) # s"] ReadVarInt_digit(2) [OF assms, of n s]
    by (simp only: ReadVarInt_def diff_add_cancel)
qed

lemma length_WriteVarInt: "length (WriteVarInt n) = GetSizeOfVarInt n"
proof -
  have "length (WriteVarInt_digits f n) = GetSizeOfVarInt n" for f
    by (induction n arbitrary: f rule: GetSizeOfVarInt.induct)
      (subst WriteVarInt_digits.simps, subst GetSizeOfVarInt.simps, simp)
  then show ?thesis by (simp add: WriteVarInt_def)
qed

interpretation varint32: codec WriteVarInt "ReadVarInt :: 32 word reader" "\<lambda>_. True"
  by unfold_locales (simp add: ReadVarInt_WriteVarInt)

interpretation varint64: codec WriteVarInt "ReadVarInt :: 64 word reader" "\<lambda>_. True"
  by unfold_locales (simp add: ReadVarInt_WriteVarInt)

section \<open>Containers meet the contract\<close>

definition fits :: "'a list \<Rightarrow> bool" where
  "fits xs \<longleftrightarrow> length xs \<le> unat MAX_SIZE"

lemma of_nat_fits: "fits xs \<Longrightarrow> of_nat (length xs) \<le> MAX_SIZE \<and> unat (of_nat (length xs) :: uint64_t) = length xs"
  by (simp add: fits_def MAX_SIZE_def word_le_nat_alt unat_of_nat)

context codec
begin

lemma vector_codec: "codec (ser_vector ser) (unser_vector unser) (\<lambda>xs. fits xs \<and> (\<forall>x \<in> set xs. ok x))"
  by unfold_locales (simp add: ser_vector_def unser_vector_def compactsize.bind of_nat_fits elems)

lemma array_codec: "codec (ser_elems ser) (unser_elems unser n) (\<lambda>xs. length xs = n \<and> (\<forall>x \<in> set xs. ok x))"
  by unfold_locales (auto simp: elems)

lemma optional_codec: "codec (ser_optional ser) (unser_optional unser) (pred_option ok)"
  by unfold_locales
    (auto simp: ser_optional_def unser_optional_def u8.bind rreturn_def bind split: option.split)

lemma pair_codec:
  assumes "codec wb rb okb"
  shows "codec (ser_pair ser wb) (unser_pair unser rb) (\<lambda>p. ok (fst p) \<and> okb (snd p))"
  by unfold_locales (auto simp: ser_pair_def unser_pair_def bind codec.bind [OF assms] rreturn_def)

end

interpretation bytes: codec ser_bytes unser_bytes fits
  by unfold_locales (simp add: ser_bytes_def unser_bytes_def compactsize.bind of_nat_fits read_bytes_append)

section \<open>The stream implements the byte list\<close>

lemma stream_read_refines:
  assumes "stream_ok s" "unat (ds_nReadPos s) + n < 2 ^ 32"
  shows "map_sum id (\<lambda>(bs, s'). (bs, stream_rest s')) (stream_read n s) = read_bytes n (stream_rest s)"
    "stream_read n s = Inr (bs, s') \<Longrightarrow> stream_ok s'"
proof -
  have next': "unat (ds_nReadPos s + of_nat n) = unat (ds_nReadPos s) + n"
    using assms(2) by (simp add: unat_word_ariths unat_of_nat)
  show "map_sum id (\<lambda>(bs, s'). (bs, stream_rest s')) (stream_read n s) = read_bytes n (stream_rest s)"
    using assms(1) by (auto simp: stream_read_def read_bytes_def stream_rest_def stream_ok_def next' Let_def add.commute [of n])
  show "stream_ok s'" if "stream_read n s = Inr (bs, s')"
    using that assms(1) by (auto simp: stream_read_def stream_ok_def next' Let_def split: if_splits)
qed


section \<open>Properties of serialization\<close>

lemma unat_byte_mod [simp]: "unat (b :: byte) mod 256 = unat b"
  using unsigned_less [where ?'a = nat, of b] by simp

lemma read_bytes_exact: "read_bytes n s = Inr (bs, r) \<Longrightarrow> s = bs @ r \<and> length bs = n"
  by (auto simp: read_bytes_def split: if_splits)

lemma le_bytes_bytes_val: "length bs = n \<Longrightarrow> le_bytes n (bytes_val bs) = bs"
proof (induction bs arbitrary: n)
  case Nil
  then show ?case by (simp add: le_bytes_def)
next
  case (Cons b bs)
  have "(unat b + 256 * bytes_val bs) div 256 = bytes_val bs" using unsigned_less [where ?'a = nat, of b] by simp
  moreover have "(of_nat (unat b + 256 * bytes_val bs) :: byte) = b"
    by (simp add: word_unat_eq_iff unat_of_nat del: of_nat_add of_nat_mult)
  ultimately show ?case using Cons by (auto simp: le_bytes_Suc simp del: of_nat_add of_nat_mult)
qed

lemma readdata_exact:
  "ser_readdata8 s = Inr (a, r) \<Longrightarrow> s = ser_writedata8 a @ r"
  "ser_readdata16 s = Inr (b, r) \<Longrightarrow> s = ser_writedata16 b @ r"
  "ser_readdata32 s = Inr (c, r) \<Longrightarrow> s = ser_writedata32 c @ r"
  "ser_readdata64 s = Inr (d, r) \<Longrightarrow> s = ser_writedata64 d @ r"
proof -
  have lt: "bytes_val bs < 256 ^ n" if "length bs = n" for bs n using bytes_val_less [of bs] that by simp
  show "s = ser_writedata8 a @ r" if "ser_readdata8 s = Inr (a, r)"
    using that by (auto simp: ser_readdata8_def ser_writedata8_def rbind_def rreturn_def read_bytes_def neq_Nil_conv take_Suc
        split: sum.splits if_splits)
  show "s = ser_writedata16 b @ r" if "ser_readdata16 s = Inr (b, r)"
    using that lt [of _ 2] by (auto simp: ser_readdata16_def ser_writedata16_def rbind_def rreturn_def unat_of_nat le_bytes_bytes_val
        dest!: read_bytes_exact split: sum.splits)
  show "s = ser_writedata32 c @ r" if "ser_readdata32 s = Inr (c, r)"
    using that lt [of _ 4] by (auto simp: ser_readdata32_def ser_writedata32_def rbind_def rreturn_def unat_of_nat le_bytes_bytes_val
        dest!: read_bytes_exact split: sum.splits)
  show "s = ser_writedata64 d @ r" if "ser_readdata64 s = Inr (d, r)"
    using that lt [of _ 8] by (auto simp: ser_readdata64_def ser_writedata64_def rbind_def rreturn_def unat_of_nat le_bytes_bytes_val
        dest!: read_bytes_exact split: sum.splits)
qed

lemma unat_ucast_wide:
  "LENGTH('a::len) \<le> LENGTH('b::len) \<Longrightarrow> unat (ucast (x :: 'a word) :: 'b word) = unat x"
  using order.strict_trans2 [OF unsigned_less [where ?'a = nat, of x] power_increasing [of "LENGTH('a)" "LENGTH('b)" "2 :: nat"]]
  by (simp add: unsigned_ucast_eq take_bit_nat_eq_self_iff)

lemma ucast_forth: "(ucast (ucast (a :: byte) :: uint64_t) :: byte) = a"
  "(ucast (ucast (b :: 16 word) :: uint64_t) :: 16 word) = b" "(ucast (ucast (c :: 32 word) :: uint64_t) :: 32 word) = c"
  "(ucast (b :: 16 word) :: uint64_t) \<le> 0xFFFF" "(ucast (c :: 32 word) :: uint64_t) \<le> 0xFFFFFFFF"
proof -
  have "unat (ucast (ucast (a :: byte) :: uint64_t) :: byte) = unat a"
    "unat (ucast (ucast (b :: 16 word) :: uint64_t) :: 16 word) = unat b"
    "unat (ucast (ucast (c :: 32 word) :: uint64_t) :: 32 word) = unat c"
    by (subst unsigned_ucast_eq, simp add: unat_ucast_wide take_bit_eq_mod)+
  then show "(ucast (ucast (a :: byte) :: uint64_t) :: byte) = a"
    "(ucast (ucast (b :: 16 word) :: uint64_t) :: 16 word) = b" "(ucast (ucast (c :: 32 word) :: uint64_t) :: 32 word) = c"
    by (simp_all only: word_unat_eq_iff)
  show "(ucast (b :: 16 word) :: uint64_t) \<le> 0xFFFF" "(ucast (c :: 32 word) :: uint64_t) \<le> 0xFFFFFFFF"
    using unsigned_less [where ?'a = nat, of b] unsigned_less [where ?'a = nat, of c]
    by (simp_all add: word_le_nat_alt unat_ucast_wide)
qed

lemma rbind_Inr: "rbind r f s = Inr y \<longleftrightarrow> (\<exists>x s'. r s = Inr (x, s') \<and> f x s' = Inr y)"
  by (auto simp: rbind_def split: sum.splits)

lemma ReadCompactSize_exact:
  assumes "ReadCompactSize s = Inr (n, r)"
  shows "s = WriteCompactSize n @ r \<and> n \<le> MAX_SIZE"
proof -
  from assms obtain ch t where ch: "ser_readdata8 s = Inr (ch, t)" "ReadCompactSize_body ch t = Inr (n, r)" "n \<le> MAX_SIZE"
    by (auto simp: ReadCompactSize_def rbind_Inr rthrow_def rreturn_def not_less split: if_splits)
  note simps = ReadCompactSize_body_def rbind_Inr rthrow_def rreturn_def WriteCompactSize_def ucast_forth
  consider "ch < 253" | "ch = 253" | "ch = 254" | "\<not> ch < 253" "ch \<noteq> 253" "ch \<noteq> 254" by blast
  then have "ser_writedata8 ch @ t = WriteCompactSize n @ r"
  proof cases
    case 1
    have "(ucast ch :: uint64_t) < 253" using 1 by (simp add: word_less_nat_alt unat_ucast_wide)
    then show ?thesis using 1 ch(2) by (auto simp: simps)
  next
    case 2
    then show ?thesis using ch(2) by (auto simp: simps dest!: readdata_exact(2) split: if_splits)
  next
    case 3
    then obtain w where w: "ser_readdata32 t = Inr (w, r)" "n = ucast w" "\<not> n < 0x10000"
      using ch(2) by (auto simp: simps split: if_splits)
    then have "\<not> n < 253" "\<not> n \<le> 0xFFFF" by (simp_all add: word_less_nat_alt word_le_nat_alt)
    moreover have "n \<le> 0xFFFFFFFF" unfolding w(2) by (rule ucast_forth(5))
    ultimately show ?thesis using 3 w readdata_exact(3) [OF w(1)] by (simp add: WriteCompactSize_def ucast_forth)
  next
    case 4
    then have "unat ch \<noteq> 253" "unat ch \<noteq> 254" "\<not> unat ch < 253"
      by (simp_all add: word_unat_eq_iff word_less_nat_alt)
    then have "unat ch = 255" using unsigned_less [where ?'a = nat, of ch] by simp
    then have "ch = 255" by (simp add: word_unat_eq_iff)
    obtain w where w: "ser_readdata64 t = Inr (n, r)" "\<not> n < 0x100000000" using 4 ch(2) by (auto simp: simps split: if_splits)
    then have "\<not> n < 253" "\<not> n \<le> 0xFFFF" "\<not> n \<le> 0xFFFFFFFF" by (simp_all add: word_less_nat_alt word_le_nat_alt)
    then show ?thesis using \<open>ch = 255\<close> readdata_exact(4) [OF w(1)] by (simp add: WriteCompactSize_def)
  qed
  then show ?thesis using readdata_exact(1) [OF ch(1)] ch(3) by simp
qed

text \<open>
  C15. \<open>ReadCompactSize\<close> accepts exactly what \<open>WriteCompactSize\<close> writes for sizes up to \<open>MAX_SIZE\<close>:
  every size within the limit is read back with the rest of the stream untouched, every longer or
  oversized encoding is rejected, and \<open>GetSizeOfCompactSize\<close> is the number of bytes written.
\<close>

theorem CompactSize_canonical:
  "(ReadCompactSize s = Inr (n, r) \<longleftrightarrow> s = WriteCompactSize n @ r \<and> n \<le> MAX_SIZE)
    \<and> length (WriteCompactSize n) = GetSizeOfCompactSize n"
  using ReadCompactSize_exact compactsize.roundtrip length_WriteCompactSize by blast




end
