(* ===== verification/Sha2.thy ===== *)
theory Sha2
  imports Arith256 Serialize
begin

text \<open>
  SHA-256 and SHA-512: \<^verbatim>\<open>src/crypto/sha256.cpp\<close>, \<^verbatim>\<open>src/crypto/sha512.cpp\<close> and the byte order functions of
  \<^verbatim>\<open>src/crypto/common.h\<close>. The buffered \<open>Write\<close> shared by the four hash classes comes first, with the
  statement of what a hasher has absorbed; then the unrolled rounds of the code and the proof that
  they compute the functions of FIPS 180-4.
\<close>

unbundle bit_operations_syntax

section \<open>Byte order\<close>

definition ReadLE64 :: "byte list \<Rightarrow> uint64_t" where
  "ReadLE64 ptr = of_nat (bytes_val (take 8 ptr))"

definition WriteLE64 :: "uint64_t \<Rightarrow> byte list" where
  "WriteLE64 x = le_bytes 8 (unat x)"

definition ReadBE32 :: "byte list \<Rightarrow> uint32_t" where
  "ReadBE32 ptr = of_nat (bytes_val (rev (take 4 ptr)))"

definition ReadBE64 :: "byte list \<Rightarrow> uint64_t" where
  "ReadBE64 ptr = of_nat (bytes_val (rev (take 8 ptr)))"

definition WriteBE32 :: "uint32_t \<Rightarrow> byte list" where
  "WriteBE32 x = rev (WriteLE32 x)"

definition WriteBE64 :: "uint64_t \<Rightarrow> byte list" where
  "WriteBE64 x = rev (le_bytes 8 (unat x))"

section \<open>Buffered writing\<close>

text \<open>
  The four hash classes have the same members: the chaining words, a buffer of one block and the
  number of bytes written, a \<open>size_t\<close>. Their \<open>Write\<close> differs in the block size and the
  transformation only, which are arguments here. The constructor leaves the buffer uninitialised;
  its bytes past \<open>bytes % n\<close> are written before they are read, so zeros stand for them.
\<close>

record 'w hasher =
  hs :: "'w list"
  hbuf :: "byte list"
  hbytes :: uint64_t

definition memcpy_at :: "nat \<Rightarrow> 'a list \<Rightarrow> 'a list \<Rightarrow> 'a list" where
  "memcpy_at i src dst = take i dst @ src @ drop (i + length src) dst"

type_synonym 'w transform = "'w list \<Rightarrow> byte list \<Rightarrow> 'w list"

function Write_chunks :: "nat \<Rightarrow> 'w transform \<Rightarrow> 'w hasher \<Rightarrow> byte list \<Rightarrow> 'w hasher \<times> byte list" where
  "Write_chunks n T h data =
     (if 0 < n \<and> n \<le> length data
      then Write_chunks n T (h\<lparr>hs := T (hs h) (take n data), hbytes := hbytes h + of_nat n\<rparr>) (drop n data)
      else (h, data))"
  by auto
termination by (relation "measure (\<lambda>(n, T, h, data). length data)") auto

declare Write_chunks.simps [simp del]

definition hasher_Write :: "nat \<Rightarrow> 'w transform \<Rightarrow> byte list \<Rightarrow> 'w hasher \<Rightarrow> 'w hasher" where
  "hasher_Write n T data h =
     (let bufsize = unat (hbytes h) mod n;
          (h1, data1, bufsize1) =
            (if bufsize \<noteq> 0 \<and> bufsize + length data \<ge> n
             then let buf = memcpy_at bufsize (take (n - bufsize) data) (hbuf h)
                  in (h\<lparr>hbuf := buf, hbytes := hbytes h + of_nat (n - bufsize), hs := T (hs h) buf\<rparr>,
                      drop (n - bufsize) data, 0)
             else (h, data, bufsize));
          (h2, data2) = Write_chunks n T h1 data1
      in if data2 \<noteq> []
         then h2\<lparr>hbuf := memcpy_at bufsize1 data2 (hbuf h2), hbytes := hbytes h2 + of_nat (length data2)\<rparr>
         else h2)"

section \<open>What a hasher has absorbed\<close>

fun blocks :: "nat \<Rightarrow> 'a list \<Rightarrow> 'a list list" where
  "blocks n xs = (if 0 < n \<and> n \<le> length xs then take n xs # blocks n (drop n xs) else [])"

declare blocks.simps [simp del]

definition rest :: "nat \<Rightarrow> 'a list \<Rightarrow> 'a list" where
  "rest n xs = drop (length xs div n * n) xs"

definition absorbed :: "nat \<Rightarrow> 'w transform \<Rightarrow> 'w list \<Rightarrow> 'w hasher \<Rightarrow> byte list \<Rightarrow> bool" where
  "absorbed n T s0 h m \<longleftrightarrow>
     length (hbuf h) = n \<and> hs h = foldl T s0 (blocks n m) \<and> hbytes h = of_nat (length m) \<and>
     take (length m mod n) (hbuf h) = rest n m"

lemma blocks_less: "length xs < n \<Longrightarrow> blocks n xs = []"
  by (subst blocks.simps) simp

lemma blocks_full: "0 < n \<Longrightarrow> length xs = n \<Longrightarrow> blocks n (xs @ ys) = xs # blocks n ys"
  by (subst blocks.simps) simp

lemma rest_less: "length xs < n \<Longrightarrow> rest n xs = xs"
  by (simp add: rest_def)

lemma rest_full: "0 < n \<Longrightarrow> length xs = n \<Longrightarrow> rest n (xs @ ys) = rest n ys"
  by (simp add: rest_def div_add_self1 algebra_simps)

lemma length_rest [simp]: "length (rest n xs) = length xs mod n"
  by (simp add: rest_def minus_div_mult_eq_mod)

lemma blocks_rest_append:
  assumes "0 < n"
  shows "blocks n (xs @ ys) = blocks n xs @ blocks n (rest n xs @ ys) \<and> rest n (xs @ ys) = rest n (rest n xs @ ys)"
proof (induction xs rule: measure_induct_rule [of length])
  case (less xs)
  show ?case
  proof (cases "length xs < n")
    case True
    then show ?thesis by (simp add: blocks_less rest_less)
  next
    case False
    define a b where "a = take n xs" and "b = drop n xs"
    have xs: "xs = a @ b" and a: "length a = n" using False by (simp_all add: a_def b_def)
    have "length b < length xs" using False assms by (simp add: b_def)
    from less.IH [OF this] show ?thesis
      using assms a by (simp add: xs blocks_full rest_full)
  qed
qed

lemma Write_chunks_eq:
  assumes "0 < n"
  shows "Write_chunks n T h d =
    (h\<lparr>hs := foldl T (hs h) (blocks n d), hbytes := hbytes h + of_nat (length d - length d mod n)\<rparr>, rest n d)"
proof (induction d arbitrary: h rule: measure_induct_rule [of length])
  case (less d)
  show ?case
  proof (cases "length d < n")
    case True
    then show ?thesis by (subst Write_chunks.simps) (simp add: blocks_less rest_less)
  next
    case False
    define a b where "a = take n d" and "b = drop n d"
    have d: "d = a @ b" and a: "length a = n" using False by (simp_all add: a_def b_def)
    have len: "length b < length d" using False assms by (simp add: b_def)
    have "length b mod n \<le> length b" by simp
    then have "n + (length b - length b mod n) = n + length b - length b mod n" by linarith
    then have "of_nat n + of_nat (length b - length b mod n) = (of_nat (n + length b - length b mod n) :: uint64_t)"
      by (metis of_nat_add)
    moreover have "Write_chunks n T h d =
      Write_chunks n T (h\<lparr>hs := T (hs h) a, hbytes := hbytes h + of_nat n\<rparr>) b"
      using False assms by (subst Write_chunks.simps) (simp add: a_def b_def)
    ultimately show ?thesis
      using less.IH [OF len] assms a by (simp add: d blocks_full rest_full add.assoc)
  qed
qed

lemma take_memcpy_at: "i \<le> length dst \<Longrightarrow> take (i + length src) (memcpy_at i src dst) = take i dst @ src"
  by (simp add: memcpy_at_def)

lemma length_memcpy_at: "i + length src \<le> length dst \<Longrightarrow> length (memcpy_at i src dst) = length dst"
  by (simp add: memcpy_at_def)

lemma memcpy_at_full: "i + length src = length dst \<Longrightarrow> memcpy_at i src dst = take i dst @ src"
  by (simp add: memcpy_at_def)

text \<open>The block size divides the range of the byte counter, so the counter may wrap.\<close>

locale block_hash =
  fixes n :: nat and T :: "'w transform" and s0 :: "'w list"
  assumes block_pos: "0 < n" and block_dvd: "n dvd 2 ^ 64"
begin

lemma bufsize_eq: "unat (of_nat k :: uint64_t) mod n = k mod n"
  using block_dvd by (simp only: unat_of_nat mod_mod_cancel) (simp add: mod_mod_cancel)

lemma absorbed_init: "absorbed n T s0 \<lparr>hs = s0, hbuf = replicate n 0, hbytes = 0\<rparr> []"
  using block_pos by (simp add: absorbed_def blocks_less rest_def)

text \<open>The last step of \<open>Write\<close>: what remains of the data is appended to the buffer.\<close>

lemma store_absorbs:
  assumes q: "take (length q) b = q" "length b = n" "length q + length e < n"
    and s: "s = foldl T s0 (blocks n m)" and m: "rest n m = q @ e"
    and c: "c + of_nat (length e) = of_nat (length m)"
  shows "absorbed n T s0 (if e \<noteq> [] then \<lparr>hs = s, hbuf = memcpy_at (length q) e b, hbytes = c + of_nat (length e)\<rparr>
    else \<lparr>hs = s, hbuf = b, hbytes = c\<rparr>) m"
proof -
  have "length m mod n = length q + length e" using arg_cong [OF m, of length] by simp
  then show ?thesis using q m c s by (auto simp: absorbed_def take_memcpy_at length_memcpy_at)
qed

lemma Write_absorbs:
  assumes h: "absorbed n T s0 h m"
  shows "absorbed n T s0 (hasher_Write n T d h) (m @ d)"
proof -
  let ?r = "length m mod n" and ?q = "rest n m"
  have r: "unat (hbytes h) mod n = ?r" using h by (simp add: absorbed_def bufsize_eq)
  have rn: "?r < n" using block_pos by simp
  have q: "take ?r (hbuf h) = ?q" "length (hbuf h) = n" and s: "hs h = foldl T s0 (blocks n m)"
    and b: "hbytes h = of_nat (length m)" using h by (simp_all add: absorbed_def)
  have app: "blocks n (m @ d) = blocks n m @ blocks n (?q @ d)" "rest n (m @ d) = rest n (?q @ d)"
    using blocks_rest_append [OF block_pos] by blast+
  have sum: "x + of_nat (k - k mod n) + of_nat (k mod n) = x + (of_nat k :: uint64_t)" for x k
  proof -
    have "of_nat (k - k mod n) + of_nat (k mod n) = (of_nat k :: uint64_t)"
      by (metis le_add_diff_inverse2 mod_less_eq_dividend of_nat_add)
    then show ?thesis by (simp add: add.assoc)
  qed
  obtain hs0 b0 c0 where hh: "h = \<lparr>hs = hs0, hbuf = b0, hbytes = c0\<rparr>" by (cases h) auto
  show ?thesis
  proof (cases "?r \<noteq> 0 \<and> ?r + length d \<ge> n")
    case True
    define B d1 where "B = ?q @ take (n - ?r) d" and "d1 = drop (n - ?r) d"
    have B: "memcpy_at ?r (take (n - ?r) d) b0 = B" "length B = n"
      using True q rn hh by (auto simp: memcpy_at_def min_def B_def)
    have qd: "?q @ d = B @ d1" by (simp add: B_def d1_def)
    have bl: "blocks n (m @ d) = blocks n m @ B # blocks n d1" and re: "rest n (m @ d) = rest n d1"
      unfolding app qd by (simp_all only: blocks_full [OF block_pos B(2)] rest_full [OF block_pos B(2)])
    have cnt: "of_nat (n - ?r) + of_nat (length d1) = (of_nat (length d) :: uint64_t)"
    proof -
      have "n - ?r + length d1 = length d" using True unfolding d1_def length_drop by linarith
      then show ?thesis by (metis of_nat_add)
    qed
    have c0: "c0 = of_nat (length m)" and s0: "hs0 = foldl T s0 (blocks n m)" using b s hh by simp_all
    have tot: "(c0 + of_nat (n - ?r) + of_nat (length d1 - length d1 mod n)) + of_nat (length (rest n d1)) =
        of_nat (length (m @ d))"
      unfolding length_rest sum by (simp only: add.assoc cnt c0 length_append of_nat_add)
    let ?E = "if rest n d1 \<noteq> []
        then \<lparr>hs = foldl T (T hs0 B) (blocks n d1), hbuf = memcpy_at (length ([] :: byte list)) (rest n d1) B,
              hbytes = (c0 + of_nat (n - ?r) + of_nat (length d1 - length d1 mod n)) + of_nat (length (rest n d1))\<rparr>
        else \<lparr>hs = foldl T (T hs0 B) (blocks n d1), hbuf = B,
              hbytes = c0 + of_nat (n - ?r) + of_nat (length d1 - length d1 mod n)\<rparr>"
    have "absorbed n T s0 ?E (m @ d)"
      using B(2) block_pos by (intro store_absorbs tot) (simp_all only: bl re s0, simp_all)
    moreover have "hasher_Write n T d h = ?E"
      unfolding hasher_Write_def Let_def r using True
      by (simp add: hh B Write_chunks_eq [OF block_pos] flip: d1_def)
    ultimately show ?thesis by (simp only:)
  next
    case False
    show ?thesis
    proof (cases "?r = 0")
      case True
      then have q0: "?q = []" by (metis length_0_conv length_rest)
      let ?E = "if rest n d \<noteq> []
          then \<lparr>hs = foldl T hs0 (blocks n d), hbuf = memcpy_at (length ([] :: byte list)) (rest n d) b0,
                hbytes = (c0 + of_nat (length d - length d mod n)) + of_nat (length (rest n d))\<rparr>
          else \<lparr>hs = foldl T hs0 (blocks n d), hbuf = b0, hbytes = c0 + of_nat (length d - length d mod n)\<rparr>"
      have "absorbed n T s0 ?E (m @ d)"
        using block_pos s b hh q by (intro store_absorbs) (simp_all add: app q0 sum)
      moreover have "hasher_Write n T d h = ?E"
        unfolding hasher_Write_def Let_def r using True
        by (simp add: hh Write_chunks_eq [OF block_pos])
      ultimately show ?thesis by (simp only:)
    next
      case F2: False
      then have less: "?r + length d < n" using False by simp
      then have "length d < n" "length (?q @ d) < n" by simp_all
      have "absorbed n T s0 (if d \<noteq> []
          then \<lparr>hs = hs0, hbuf = memcpy_at (length ?q) d b0, hbytes = c0 + of_nat (length d)\<rparr>
          else \<lparr>hs = hs0, hbuf = b0, hbytes = c0\<rparr>) (m @ d)"
        using s b hh q less \<open>length (?q @ d) < n\<close>
        by (intro store_absorbs) (simp_all add: app blocks_less rest_less)
      then show ?thesis
        unfolding hasher_Write_def Let_def r using F2 less \<open>length d < n\<close>
        by (simp add: hh Write_chunks_eq [OF block_pos] blocks_less rest_less split: if_splits)
    qed
  qed
qed

lemma fold_Write_absorbs:
  "absorbed n T s0 h m \<Longrightarrow> absorbed n T s0 (fold (hasher_Write n T) ds h) (m @ concat ds)"
proof (induction ds arbitrary: h m)
  case Nil
  then show ?case by simp
next
  case (Cons d ds)
  from Cons.IH [OF Write_absorbs [OF Cons.prems, of d]] show ?case by simp
qed

end

section \<open>The SHA-2 rounds\<close>

text \<open>
  The unrolled rounds of SHA-256 and SHA-512 have one shape: a round updates two of the eight
  working variables in place, and their roles rotate from line to line; the message words are
  updated in place as well. \<open>Round\<close> is the round function, which takes the eight variables, a constant
  and a message word, and gives the new fourth and eighth one.
\<close>

type_synonym 'w sha2_regs = "'w \<times> 'w \<times> 'w \<times> 'w \<times> 'w \<times> 'w \<times> 'w \<times> 'w"
type_synonym 'w sha2_round = "'w \<Rightarrow> 'w \<Rightarrow> 'w \<Rightarrow> 'w \<Rightarrow> 'w \<Rightarrow> 'w \<Rightarrow> 'w \<Rightarrow> 'w \<Rightarrow> 'w \<Rightarrow> 'w \<Rightarrow> 'w \<times> 'w"

definition sha2_rounds16 :: "'w sha2_round \<Rightarrow> 'w list \<Rightarrow> 'w list \<Rightarrow> 'w sha2_regs \<Rightarrow> 'w sha2_regs" where
  "sha2_rounds16 Round k w = (\<lambda>(a, b, c, d, e, f, g, h).
     let
         (d, h) = Round a b c d e f g h (k ! 0) (w ! 0);
         (c, g) = Round h a b c d e f g (k ! 1) (w ! 1);
         (b, f) = Round g h a b c d e f (k ! 2) (w ! 2);
         (a, e) = Round f g h a b c d e (k ! 3) (w ! 3);
         (h, d) = Round e f g h a b c d (k ! 4) (w ! 4);
         (g, c) = Round d e f g h a b c (k ! 5) (w ! 5);
         (f, b) = Round c d e f g h a b (k ! 6) (w ! 6);
         (e, a) = Round b c d e f g h a (k ! 7) (w ! 7);
         (d, h) = Round a b c d e f g h (k ! 8) (w ! 8);
         (c, g) = Round h a b c d e f g (k ! 9) (w ! 9);
         (b, f) = Round g h a b c d e f (k ! 10) (w ! 10);
         (a, e) = Round f g h a b c d e (k ! 11) (w ! 11);
         (h, d) = Round e f g h a b c d (k ! 12) (w ! 12);
         (g, c) = Round d e f g h a b c (k ! 13) (w ! 13);
         (f, b) = Round c d e f g h a b (k ! 14) (w ! 14);
         (e, a) = Round b c d e f g h a (k ! 15) (w ! 15)
     in (a, b, c, d, e, f, g, h))"

definition sha2_schedule16 ::
  "('a::len word \<Rightarrow> 'a word) \<Rightarrow> ('a word \<Rightarrow> 'a word) \<Rightarrow> 'a word list \<Rightarrow> 'a word list" where
  "sha2_schedule16 sigma0 sigma1 w =
     (let
         w0 = w ! 0 + (sigma1 (w ! 14) + w ! 9 + sigma0 (w ! 1));
         w1 = w ! 1 + (sigma1 (w ! 15) + w ! 10 + sigma0 (w ! 2));
         w2 = w ! 2 + (sigma1 w0 + w ! 11 + sigma0 (w ! 3));
         w3 = w ! 3 + (sigma1 w1 + w ! 12 + sigma0 (w ! 4));
         w4 = w ! 4 + (sigma1 w2 + w ! 13 + sigma0 (w ! 5));
         w5 = w ! 5 + (sigma1 w3 + w ! 14 + sigma0 (w ! 6));
         w6 = w ! 6 + (sigma1 w4 + w ! 15 + sigma0 (w ! 7));
         w7 = w ! 7 + (sigma1 w5 + w0 + sigma0 (w ! 8));
         w8 = w ! 8 + (sigma1 w6 + w1 + sigma0 (w ! 9));
         w9 = w ! 9 + (sigma1 w7 + w2 + sigma0 (w ! 10));
         w10 = w ! 10 + (sigma1 w8 + w3 + sigma0 (w ! 11));
         w11 = w ! 11 + (sigma1 w9 + w4 + sigma0 (w ! 12));
         w12 = w ! 12 + (sigma1 w10 + w5 + sigma0 (w ! 13));
         w13 = w ! 13 + (sigma1 w11 + w6 + sigma0 (w ! 14));
         w14 = w ! 14 + (sigma1 w12 + w7 + sigma0 (w ! 15));
         w15 = w ! 15 + (sigma1 w13 + w8 + sigma0 w0)
      in [w0, w1, w2, w3, w4, w5, w6, w7, w8, w9, w10, w11, w12, w13, w14, w15])"

section \<open>SHA-256\<close>

definition sha256_Ch :: "uint32_t \<Rightarrow> uint32_t \<Rightarrow> uint32_t \<Rightarrow> uint32_t" where
  "sha256_Ch x y z = z XOR (x AND (y XOR z))"

definition sha256_Maj :: "uint32_t \<Rightarrow> uint32_t \<Rightarrow> uint32_t \<Rightarrow> uint32_t" where
  "sha256_Maj x y z = (x AND y) OR (z AND (x OR y))"

definition sha256_Sigma0 :: "uint32_t \<Rightarrow> uint32_t" where
  "sha256_Sigma0 x =
     (drop_bit 2 x OR push_bit 30 x) XOR (drop_bit 13 x OR push_bit 19 x) XOR (drop_bit 22 x OR push_bit 10 x)"

definition sha256_Sigma1 :: "uint32_t \<Rightarrow> uint32_t" where
  "sha256_Sigma1 x =
     (drop_bit 6 x OR push_bit 26 x) XOR (drop_bit 11 x OR push_bit 21 x) XOR (drop_bit 25 x OR push_bit 7 x)"

definition sha256_sigma0 :: "uint32_t \<Rightarrow> uint32_t" where
  "sha256_sigma0 x =
     (drop_bit 7 x OR push_bit 25 x) XOR (drop_bit 18 x OR push_bit 14 x) XOR drop_bit 3 x"

definition sha256_sigma1 :: "uint32_t \<Rightarrow> uint32_t" where
  "sha256_sigma1 x =
     (drop_bit 17 x OR push_bit 15 x) XOR (drop_bit 19 x OR push_bit 13 x) XOR drop_bit 10 x"

definition sha256_Round :: "uint32_t sha2_round" where
  "sha256_Round a b c d e f g h k w =
     (let t1 = h + sha256_Sigma1 e + sha256_Ch e f g + k + w;
          t2 = sha256_Sigma0 a + sha256_Maj a b c
      in (d + t1, t1 + t2))"

definition sha256_Initialize :: "uint32_t list" where
  "sha256_Initialize =
     [0x6a09e667, 0xbb67ae85, 0x3c6ef372, 0xa54ff53a,
       0x510e527f, 0x9b05688c, 0x1f83d9ab, 0x5be0cd19]"

text \<open>The constants of the lines of \<open>Transform\<close>, sixteen rounds at a time, each beside the number of the message
  word its line adds.\<close>

definition sha256_k0 :: "uint32_t list" where
  "sha256_k0 = map snd
      [(0::nat, 0x428a2f98), (1, 0x71374491), (2, 0xb5c0fbcf), (3, 0xe9b5dba5),
       (4, 0x3956c25b), (5, 0x59f111f1), (6, 0x923f82a4), (7, 0xab1c5ed5),
       (8, 0xd807aa98), (9, 0x12835b01), (10, 0x243185be), (11, 0x550c7dc3),
       (12, 0x72be5d74), (13, 0x80deb1fe), (14, 0x9bdc06a7), (15, 0xc19bf174)]"

definition sha256_k1 :: "uint32_t list" where
  "sha256_k1 = map snd
      [(0::nat, 0xe49b69c1), (1, 0xefbe4786), (2, 0x0fc19dc6), (3, 0x240ca1cc),
       (4, 0x2de92c6f), (5, 0x4a7484aa), (6, 0x5cb0a9dc), (7, 0x76f988da),
       (8, 0x983e5152), (9, 0xa831c66d), (10, 0xb00327c8), (11, 0xbf597fc7),
       (12, 0xc6e00bf3), (13, 0xd5a79147), (14, 0x06ca6351), (15, 0x14292967)]"

definition sha256_k2 :: "uint32_t list" where
  "sha256_k2 = map snd
      [(0::nat, 0x27b70a85), (1, 0x2e1b2138), (2, 0x4d2c6dfc), (3, 0x53380d13),
       (4, 0x650a7354), (5, 0x766a0abb), (6, 0x81c2c92e), (7, 0x92722c85),
       (8, 0xa2bfe8a1), (9, 0xa81a664b), (10, 0xc24b8b70), (11, 0xc76c51a3),
       (12, 0xd192e819), (13, 0xd6990624), (14, 0xf40e3585), (15, 0x106aa070)]"

definition sha256_k3 :: "uint32_t list" where
  "sha256_k3 = map snd
      [(0::nat, 0x19a4c116), (1, 0x1e376c08), (2, 0x2748774c), (3, 0x34b0bcb5),
       (4, 0x391c0cb3), (5, 0x4ed8aa4a), (6, 0x5b9cca4f), (7, 0x682e6ff3),
       (8, 0x748f82ee), (9, 0x78a5636f), (10, 0x84c87814), (11, 0x8cc70208),
       (12, 0x90befffa), (13, 0xa4506ceb), (14, 0xbef9a3f7), (15, 0xc67178f2)]"

definition sha256_Transform :: "uint32_t transform" where
  "sha256_Transform s chunk =
     (let w = map (\<lambda>i. ReadBE32 (drop (4 * i) chunk)) [0..<16];
          r = sha2_rounds16 sha256_Round sha256_k0 w (s ! 0, s ! 1, s ! 2, s ! 3, s ! 4, s ! 5, s ! 6, s ! 7);
          w = sha2_schedule16 sha256_sigma0 sha256_sigma1 w;
          r = sha2_rounds16 sha256_Round sha256_k1 w r;
          w = sha2_schedule16 sha256_sigma0 sha256_sigma1 w;
          r = sha2_rounds16 sha256_Round sha256_k2 w r;
          w = sha2_schedule16 sha256_sigma0 sha256_sigma1 w;
          r = sha2_rounds16 sha256_Round sha256_k3 w r
      in case r of (a, b, c, d, e, f, g, h) \<Rightarrow>
           [s ! 0 + a, s ! 1 + b, s ! 2 + c, s ! 3 + d, s ! 4 + e, s ! 5 + f, s ! 6 + g, s ! 7 + h])"

definition CSHA256_init :: "uint32_t hasher" where
  "CSHA256_init = \<lparr>hs = sha256_Initialize, hbuf = replicate 64 0, hbytes = 0\<rparr>"

definition CSHA256_Write :: "byte list \<Rightarrow> uint32_t hasher \<Rightarrow> uint32_t hasher" where
  "CSHA256_Write = hasher_Write 64 sha256_Transform"

definition CSHA256_FinalizeNoPadding :: "uint32_t hasher \<Rightarrow> bool \<Rightarrow> byte list result" where
  "CSHA256_FinalizeNoPadding h enforce_compression =
     (if enforce_compression \<and> hbytes h \<noteq> 64
      then Inl (Throw ''SHA256Compress should be invoked with a 512-bit block'')
      else Inr (concat (map (\<lambda>i. WriteBE32 (hs h ! i)) [0..<8])))"

definition CSHA256_Finalize :: "uint32_t hasher \<Rightarrow> byte list" where
  "CSHA256_Finalize h =
     (let pad = 0x80 # replicate 63 0;
          sizedesc = WriteBE64 (push_bit 3 (hbytes h));
          h1 = CSHA256_Write (take (1 + (119 - unat (hbytes h) mod 64) mod 64) pad) h;
          h2 = CSHA256_Write sizedesc h1
      in case CSHA256_FinalizeNoPadding h2 False of Inr hash \<Rightarrow> hash | Inl _ \<Rightarrow> [])"

definition CSHA256_Reset :: "uint32_t hasher \<Rightarrow> uint32_t hasher" where
  "CSHA256_Reset h = h\<lparr>hbytes := 0, hs := sha256_Initialize\<rparr>"

section \<open>SHA-512\<close>

definition sha512_Ch :: "uint64_t \<Rightarrow> uint64_t \<Rightarrow> uint64_t \<Rightarrow> uint64_t" where
  "sha512_Ch x y z = z XOR (x AND (y XOR z))"

definition sha512_Maj :: "uint64_t \<Rightarrow> uint64_t \<Rightarrow> uint64_t \<Rightarrow> uint64_t" where
  "sha512_Maj x y z = (x AND y) OR (z AND (x OR y))"

definition sha512_Sigma0 :: "uint64_t \<Rightarrow> uint64_t" where
  "sha512_Sigma0 x =
     (drop_bit 28 x OR push_bit 36 x) XOR (drop_bit 34 x OR push_bit 30 x) XOR (drop_bit 39 x OR push_bit 25 x)"

definition sha512_Sigma1 :: "uint64_t \<Rightarrow> uint64_t" where
  "sha512_Sigma1 x =
     (drop_bit 14 x OR push_bit 50 x) XOR (drop_bit 18 x OR push_bit 46 x) XOR (drop_bit 41 x OR push_bit 23 x)"

definition sha512_sigma0 :: "uint64_t \<Rightarrow> uint64_t" where
  "sha512_sigma0 x =
     (drop_bit 1 x OR push_bit 63 x) XOR (drop_bit 8 x OR push_bit 56 x) XOR drop_bit 7 x"

definition sha512_sigma1 :: "uint64_t \<Rightarrow> uint64_t" where
  "sha512_sigma1 x =
     (drop_bit 19 x OR push_bit 45 x) XOR (drop_bit 61 x OR push_bit 3 x) XOR drop_bit 6 x"

definition sha512_Round :: "uint64_t sha2_round" where
  "sha512_Round a b c d e f g h k w =
     (let t1 = h + sha512_Sigma1 e + sha512_Ch e f g + k + w;
          t2 = sha512_Sigma0 a + sha512_Maj a b c
      in (d + t1, t1 + t2))"

definition sha512_Initialize :: "uint64_t list" where
  "sha512_Initialize =
     [0x6a09e667f3bcc908, 0xbb67ae8584caa73b, 0x3c6ef372fe94f82b, 0xa54ff53a5f1d36f1,
       0x510e527fade682d1, 0x9b05688c2b3e6c1f, 0x1f83d9abfb41bd6b, 0x5be0cd19137e2179]"

text \<open>The constants of the lines of \<open>Transform\<close>, sixteen rounds at a time.\<close>

definition sha512_k0 :: "uint64_t list" where
  "sha512_k0 = map snd
      [(0::nat, 0x428a2f98d728ae22), (1, 0x7137449123ef65cd), (2, 0xb5c0fbcfec4d3b2f), (3, 0xe9b5dba58189dbbc),
       (4, 0x3956c25bf348b538), (5, 0x59f111f1b605d019), (6, 0x923f82a4af194f9b), (7, 0xab1c5ed5da6d8118),
       (8, 0xd807aa98a3030242), (9, 0x12835b0145706fbe), (10, 0x243185be4ee4b28c), (11, 0x550c7dc3d5ffb4e2),
       (12, 0x72be5d74f27b896f), (13, 0x80deb1fe3b1696b1), (14, 0x9bdc06a725c71235), (15, 0xc19bf174cf692694)]"

definition sha512_k1 :: "uint64_t list" where
  "sha512_k1 = map snd
      [(0::nat, 0xe49b69c19ef14ad2), (1, 0xefbe4786384f25e3), (2, 0x0fc19dc68b8cd5b5), (3, 0x240ca1cc77ac9c65),
       (4, 0x2de92c6f592b0275), (5, 0x4a7484aa6ea6e483), (6, 0x5cb0a9dcbd41fbd4), (7, 0x76f988da831153b5),
       (8, 0x983e5152ee66dfab), (9, 0xa831c66d2db43210), (10, 0xb00327c898fb213f), (11, 0xbf597fc7beef0ee4),
       (12, 0xc6e00bf33da88fc2), (13, 0xd5a79147930aa725), (14, 0x06ca6351e003826f), (15, 0x142929670a0e6e70)]"

definition sha512_k2 :: "uint64_t list" where
  "sha512_k2 = map snd
      [(0::nat, 0x27b70a8546d22ffc), (1, 0x2e1b21385c26c926), (2, 0x4d2c6dfc5ac42aed), (3, 0x53380d139d95b3df),
       (4, 0x650a73548baf63de), (5, 0x766a0abb3c77b2a8), (6, 0x81c2c92e47edaee6), (7, 0x92722c851482353b),
       (8, 0xa2bfe8a14cf10364), (9, 0xa81a664bbc423001), (10, 0xc24b8b70d0f89791), (11, 0xc76c51a30654be30),
       (12, 0xd192e819d6ef5218), (13, 0xd69906245565a910), (14, 0xf40e35855771202a), (15, 0x106aa07032bbd1b8)]"

definition sha512_k3 :: "uint64_t list" where
  "sha512_k3 = map snd
      [(0::nat, 0x19a4c116b8d2d0c8), (1, 0x1e376c085141ab53), (2, 0x2748774cdf8eeb99), (3, 0x34b0bcb5e19b48a8),
       (4, 0x391c0cb3c5c95a63), (5, 0x4ed8aa4ae3418acb), (6, 0x5b9cca4f7763e373), (7, 0x682e6ff3d6b2b8a3),
       (8, 0x748f82ee5defb2fc), (9, 0x78a5636f43172f60), (10, 0x84c87814a1f0ab72), (11, 0x8cc702081a6439ec),
       (12, 0x90befffa23631e28), (13, 0xa4506cebde82bde9), (14, 0xbef9a3f7b2c67915), (15, 0xc67178f2e372532b)]"

definition sha512_k4 :: "uint64_t list" where
  "sha512_k4 = map snd
      [(0::nat, 0xca273eceea26619c), (1, 0xd186b8c721c0c207), (2, 0xeada7dd6cde0eb1e), (3, 0xf57d4f7fee6ed178),
       (4, 0x06f067aa72176fba), (5, 0x0a637dc5a2c898a6), (6, 0x113f9804bef90dae), (7, 0x1b710b35131c471b),
       (8, 0x28db77f523047d84), (9, 0x32caab7b40c72493), (10, 0x3c9ebe0a15c9bebc), (11, 0x431d67c49c100d4c),
       (12, 0x4cc5d4becb3e42b6), (13, 0x597f299cfc657e2a), (14, 0x5fcb6fab3ad6faec), (15, 0x6c44198c4a475817)]"

definition sha512_Transform :: "uint64_t transform" where
  "sha512_Transform s chunk =
     (let w = map (\<lambda>i. ReadBE64 (drop (8 * i) chunk)) [0..<16];
          r = sha2_rounds16 sha512_Round sha512_k0 w (s ! 0, s ! 1, s ! 2, s ! 3, s ! 4, s ! 5, s ! 6, s ! 7);
          w = sha2_schedule16 sha512_sigma0 sha512_sigma1 w;
          r = sha2_rounds16 sha512_Round sha512_k1 w r;
          w = sha2_schedule16 sha512_sigma0 sha512_sigma1 w;
          r = sha2_rounds16 sha512_Round sha512_k2 w r;
          w = sha2_schedule16 sha512_sigma0 sha512_sigma1 w;
          r = sha2_rounds16 sha512_Round sha512_k3 w r;
          w = sha2_schedule16 sha512_sigma0 sha512_sigma1 w;
          r = sha2_rounds16 sha512_Round sha512_k4 w r
      in case r of (a, b, c, d, e, f, g, h) \<Rightarrow>
           [s ! 0 + a, s ! 1 + b, s ! 2 + c, s ! 3 + d, s ! 4 + e, s ! 5 + f, s ! 6 + g, s ! 7 + h])"

definition CSHA512_init :: "uint64_t hasher" where
  "CSHA512_init = \<lparr>hs = sha512_Initialize, hbuf = replicate 128 0, hbytes = 0\<rparr>"

definition CSHA512_Write :: "byte list \<Rightarrow> uint64_t hasher \<Rightarrow> uint64_t hasher" where
  "CSHA512_Write = hasher_Write 128 sha512_Transform"

definition CSHA512_Finalize :: "uint64_t hasher \<Rightarrow> byte list" where
  "CSHA512_Finalize h =
     (let pad = 0x80 # replicate 127 0;
          sizedesc = replicate 8 0 @ WriteBE64 (push_bit 3 (hbytes h));
          h1 = CSHA512_Write (take (1 + (239 - unat (hbytes h) mod 128) mod 128) pad) h;
          h2 = CSHA512_Write sizedesc h1
      in concat (map (\<lambda>i. WriteBE64 (hs h2 ! i)) [0..<8]))"

definition CSHA512_Reset :: "uint64_t hasher \<Rightarrow> uint64_t hasher" where
  "CSHA512_Reset h = h\<lparr>hbytes := 0, hs := sha512_Initialize\<rparr>"

section \<open>The standard: FIPS 180-4\<close>

text \<open>
  The functions of the standard, with rotations as rotations, one step of the eight working
  variables, the message schedule as a recurrence and the compression of one block.
\<close>

definition fips_Ch :: "'a::len word \<Rightarrow> 'a word \<Rightarrow> 'a word \<Rightarrow> 'a word" where
  "fips_Ch x y z = (x AND y) XOR (NOT x AND z)"

definition fips_Maj :: "'a::len word \<Rightarrow> 'a word \<Rightarrow> 'a word \<Rightarrow> 'a word" where
  "fips_Maj x y z = (x AND y) XOR (x AND z) XOR (y AND z)"

fun fips_step ::
  "('a::len word \<Rightarrow> 'a word) \<Rightarrow> ('a word \<Rightarrow> 'a word) \<Rightarrow> 'a word sha2_regs \<Rightarrow> 'a word \<times> 'a word \<Rightarrow> 'a word sha2_regs" where
  "fips_step Sigma0 Sigma1 (a, b, c, d, e, f, g, h) (k, w) =
     (let T1 = h + Sigma1 e + fips_Ch e f g + k + w;
          T2 = Sigma0 a + fips_Maj a b c
      in (T1 + T2, a, b, c, d + T1, e, f, g))"

fun fips_W :: "('a::len word \<Rightarrow> 'a word) \<Rightarrow> ('a word \<Rightarrow> 'a word) \<Rightarrow> 'a word list \<Rightarrow> nat \<Rightarrow> 'a word" where
  "fips_W sigma0 sigma1 M t =
     (if t < 16 then M ! t
      else sigma1 (fips_W sigma0 sigma1 M (t - 2)) + fips_W sigma0 sigma1 M (t - 7) +
           sigma0 (fips_W sigma0 sigma1 M (t - 15)) + fips_W sigma0 sigma1 M (t - 16))"

declare fips_W.simps [simp del]

definition fips_compress ::
  "('a::len word \<Rightarrow> 'a word) \<Rightarrow> ('a word \<Rightarrow> 'a word) \<Rightarrow> ('a word \<Rightarrow> 'a word) \<Rightarrow> ('a word \<Rightarrow> 'a word) \<Rightarrow>
   'a word list \<Rightarrow> 'a word list \<Rightarrow> 'a word list \<Rightarrow> 'a word list" where
  "fips_compress Sigma0 Sigma1 sigma0 sigma1 K H M =
     (case foldl (fips_step Sigma0 Sigma1) (H ! 0, H ! 1, H ! 2, H ! 3, H ! 4, H ! 5, H ! 6, H ! 7)
             (zip K (map (fips_W sigma0 sigma1 M) [0..<length K])) of
        (a, b, c, d, e, f, g, h) \<Rightarrow>
          [H ! 0 + a, H ! 1 + b, H ! 2 + c, H ! 3 + d, H ! 4 + e, H ! 5 + f, H ! 6 + g, H ! 7 + h])"

text \<open>The in-place round, read as a step of the standard's eight variables.\<close>

fun round_step :: "'w sha2_round \<Rightarrow> 'w sha2_regs \<Rightarrow> 'w \<times> 'w \<Rightarrow> 'w sha2_regs" where
  "round_step Round (a, b, c, d, e, f, g, h) (k, w) =
     (case Round a b c d e f g h k w of (d', h') \<Rightarrow> (h', a, b, c, d', e, f, g))"

lemma list16:
  assumes "length xs = 16"
  obtains x0 x1 x2 x3 x4 x5 x6 x7 x8 x9 x10 x11 x12 x13 x14 x15
    where "xs = [x0, x1, x2, x3, x4, x5, x6, x7, x8, x9, x10, x11, x12, x13, x14, x15]"
  using assms by (auto simp: eval_nat_numeral length_Suc_conv)

lemma sha2_rounds16_steps:
  assumes "length k = 16" "length w = 16"
  shows "sha2_rounds16 R k w r = foldl (round_step R) r (zip k w)"
proof -
  obtain a b c d e f g h where r: "r = (a, b, c, d, e, f, g, h)" by (cases r) auto
  show ?thesis
    using assms by (elim list16) (simp add: sha2_rounds16_def r split: prod.split)
qed

lemma upt_16: "map f [u..<u + 16] = [f u, f (u + 1), f (u + 2), f (u + 3), f (u + 4), f (u + 5), f (u + 6), f (u + 7),
    f (u + 8), f (u + 9), f (u + 10), f (u + 11), f (u + 12), f (u + 13), f (u + 14), f (u + 15)]" for u :: nat
proof -
  have "[u..<u + 16] = map ((+) u) [0, 1, 2, 3, 4, 5, 6, 7, 8, 9, 10, 11, 12, 13, 14, 15]"
    by (simp add: upt_conv_Cons)
  then show ?thesis by simp
qed

lemma fips_W_step:
  fixes u :: nat
  shows "fips_W s0 s1 M (u + j) + (s1 (fips_W s0 s1 M (u + (j + 14))) + fips_W s0 s1 M (u + (j + 9)) +
      s0 (fips_W s0 s1 M (u + (j + 1)))) = fips_W s0 s1 M (u + (16 + j))"
  by (subst (5) fips_W.simps) (simp add: algebra_simps)

lemma sha2_schedule16_W:
  "sha2_schedule16 s0 s1 (map (fips_W s0 s1 M) [u..<u + 16]) = map (fips_W s0 s1 M) [u + 16..<u + 16 + 16]"
proof -
  let ?W = "fips_W s0 s1 M"
  note steps = fips_W_step [of s0 s1 M u 0] fips_W_step [of s0 s1 M u 1] fips_W_step [of s0 s1 M u 2]
    fips_W_step [of s0 s1 M u 3] fips_W_step [of s0 s1 M u 4] fips_W_step [of s0 s1 M u 5]
    fips_W_step [of s0 s1 M u 6] fips_W_step [of s0 s1 M u 7] fips_W_step [of s0 s1 M u 8]
    fips_W_step [of s0 s1 M u 9] fips_W_step [of s0 s1 M u 10] fips_W_step [of s0 s1 M u 11]
    fips_W_step [of s0 s1 M u 12] fips_W_step [of s0 s1 M u 13] fips_W_step [of s0 s1 M u 14]
    fips_W_step [of s0 s1 M u 15]
  note steps' = steps [simplified add.assoc, simplified]
  show ?thesis unfolding sha2_schedule16_def upt_16
    by (simp add: steps' Let_def add.assoc cong: let_weak_cong) (simp add: add.commute)
qed

text \<open>The functions of the code are those of the standard.\<close>

lemma rotr_shifts:
  fixes x :: "'a::len word"
  assumes "0 < n" "n < LENGTH('a)" "k = LENGTH('a) - n"
  shows "drop_bit n x OR push_bit k x = word_rotr n x"
proof (rule bit_word_eqI)
  fix i assume i: "i < LENGTH('a)"
  show "bit (drop_bit n x OR push_bit k x) i = bit (word_rotr n x) i"
  proof (cases "i + n < LENGTH('a)")
    case True
    then show ?thesis using i assms by (auto simp: bit_simps add.commute)
  next
    case False
    then have "(i + n) mod LENGTH('a) = i - k" using i assms by (simp add: mod_if)
    moreover have "\<not> bit x (i + n)" using False bit_imp_le_length by blast
    moreover have "k \<le> i" using False assms by linarith
    ultimately show ?thesis using i False assms by (simp add: bit_simps add.commute)
  qed
qed

lemma Ch_fips: "z XOR (x AND (y XOR z)) = fips_Ch x y z"
  by (rule bit_word_eqI) (auto simp: fips_Ch_def bit_simps)

lemma Maj_fips: "(x AND y) OR (z AND (x OR y)) = fips_Maj x y z"
  by (rule bit_word_eqI) (auto simp: fips_Maj_def bit_simps)

lemma round_step_fips:
  assumes "\<And>a b c d e f g h k w. R a b c d e f g h k w =
      (let t1 = h + S1 e + fips_Ch e f g + k + w; t2 = S0 a + fips_Maj a b c in (d + t1, t1 + t2))"
  shows "round_step R = fips_step S0 S1"
proof (intro ext)
  fix r :: "'a word sha2_regs" and kw :: "'a word \<times> 'a word"
  obtain a b c d e f g h where r: "r = (a, b, c, d, e, f, g, h)" by (cases r) auto
  obtain k w where "kw = (k, w)" by (cases kw) auto
  then show "round_step R r kw = fips_step S0 S1 r kw" by (simp add: r assms Let_def)
qed

lemma first_words_W: "length M = 16 \<Longrightarrow> map (fips_W s0 s1 M) [0..<16] = M"
  by (rule nth_equalityI) (simp_all add: fips_W.simps)

text \<open>Groups of sixteen rounds with the schedule updated between them.\<close>

fun sha2_run ::
  "'a word sha2_round \<Rightarrow> ('a::len word \<Rightarrow> 'a word) \<Rightarrow> ('a word \<Rightarrow> 'a word) \<Rightarrow>
   'a word list list \<Rightarrow> 'a word list \<Rightarrow> 'a word sha2_regs \<Rightarrow> 'a word sha2_regs" where
  "sha2_run R s0 s1 [] w r = r"
| "sha2_run R s0 s1 (k # ks) w r = sha2_run R s0 s1 ks (sha2_schedule16 s0 s1 w) (sha2_rounds16 R k w r)"

lemma sha2_run_W:
  assumes "\<forall>k \<in> set ks. length k = 16"
  shows "sha2_run R s0 s1 ks (map (fips_W s0 s1 M) [u..<u + 16]) r =
    foldl (round_step R) r (zip (concat ks) (map (fips_W s0 s1 M) [u..<u + 16 * length ks]))"
  using assms
proof (induction ks arbitrary: u r)
  case Nil
  then show ?case by simp
next
  case (Cons k ks)
  have k: "length k = 16" using Cons.prems by simp
  have "u + 16 * length (k # ks) = u + 16 + 16 * length ks" by simp
  then have "[u..<u + 16 * length (k # ks)] = [u..<u + 16] @ [u + 16..<u + 16 + 16 * length ks]"
    using upt_add_eq_append [of u "u + 16" "16 * length ks"] by (simp only: le_add1)
  then have "foldl (round_step R) r (zip (concat (k # ks)) (map (fips_W s0 s1 M) [u..<u + 16 * length (k # ks)])) =
      foldl (round_step R) (foldl (round_step R) r (zip k (map (fips_W s0 s1 M) [u..<u + 16])))
        (zip (concat ks) (map (fips_W s0 s1 M) [u + 16..<u + 16 + 16 * length ks]))"
    using k by simp
  also have "\<dots> = sha2_run R s0 s1 (k # ks) (map (fips_W s0 s1 M) [u..<u + 16]) r"
    using Cons.IH [of "u + 16"] Cons.prems k
    by (simp only: sha2_run.simps sha2_schedule16_W sha2_rounds16_steps length_map length_upt list.set ball_simps simp_thms
        add_diff_cancel_left')
  finally show ?case ..
qed

lemma sha2_run_fips:
  assumes "\<forall>k \<in> set ks. length k = 16" "length M = 16" "round_step R = fips_step S0 S1"
  shows "(case sha2_run R s0 s1 ks M (H ! 0, H ! 1, H ! 2, H ! 3, H ! 4, H ! 5, H ! 6, H ! 7) of (a, b, c, d, e, f, g, h) \<Rightarrow>
        [H ! 0 + a, H ! 1 + b, H ! 2 + c, H ! 3 + d, H ! 4 + e, H ! 5 + f, H ! 6 + g, H ! 7 + h]) =
    fips_compress S0 S1 s0 s1 (concat ks) H M"
proof -
  have "length (concat ks) = 16 * length ks" using assms(1) by (induction ks) simp_all
  then show ?thesis
    using sha2_run_W [OF assms(1), of R s0 s1 M 0] first_words_W [OF assms(2), of s0 s1] assms(3)
    by (simp only: add_0 fips_compress_def)
qed

definition fips_Sigma0_256 :: "uint32_t \<Rightarrow> uint32_t" where
  "fips_Sigma0_256 x = word_rotr 2 x XOR word_rotr 13 x XOR word_rotr 22 x"

definition fips_Sigma1_256 :: "uint32_t \<Rightarrow> uint32_t" where
  "fips_Sigma1_256 x = word_rotr 6 x XOR word_rotr 11 x XOR word_rotr 25 x"

definition fips_sigma0_256 :: "uint32_t \<Rightarrow> uint32_t" where
  "fips_sigma0_256 x = word_rotr 7 x XOR word_rotr 18 x XOR drop_bit 3 x"

definition fips_sigma1_256 :: "uint32_t \<Rightarrow> uint32_t" where
  "fips_sigma1_256 x = word_rotr 17 x XOR word_rotr 19 x XOR drop_bit 10 x"

lemma sha256_fips_functions:
  "sha256_Sigma0 = fips_Sigma0_256" "sha256_Sigma1 = fips_Sigma1_256"
  "sha256_sigma0 = fips_sigma0_256" "sha256_sigma1 = fips_sigma1_256"
  by (simp_all add: fun_eq_iff sha256_Sigma0_def sha256_Sigma1_def sha256_sigma0_def sha256_sigma1_def
      fips_Sigma0_256_def fips_Sigma1_256_def fips_sigma0_256_def fips_sigma1_256_def rotr_shifts)

lemma sha256_round_fips: "round_step sha256_Round = fips_step fips_Sigma0_256 fips_Sigma1_256"
  by (rule round_step_fips) (simp add: sha256_Round_def sha256_Ch_def sha256_Maj_def Ch_fips Maj_fips sha256_fips_functions)

lemma sha256_k_length: "length sha256_k0 = 16" "length sha256_k1 = 16" "length sha256_k2 = 16" "length sha256_k3 = 16"
  by (simp_all add: sha256_k0_def sha256_k1_def sha256_k2_def sha256_k3_def)

lemma sha256_Transform_fips:
  "sha256_Transform s chunk =
     fips_compress fips_Sigma0_256 fips_Sigma1_256 fips_sigma0_256 fips_sigma1_256
       (concat [sha256_k0, sha256_k1, sha256_k2, sha256_k3]) s (map (\<lambda>i. ReadBE32 (drop (4 * i) chunk)) [0..<16])"
  by (subst sha2_run_fips [where R = sha256_Round, symmetric])
    (simp_all only: sha256_Transform_def Let_def sha2_run.simps sha256_fips_functions sha256_round_fips,
     simp_all add: sha256_k_length)

definition fips_Sigma0_512 :: "uint64_t \<Rightarrow> uint64_t" where
  "fips_Sigma0_512 x = word_rotr 28 x XOR word_rotr 34 x XOR word_rotr 39 x"

definition fips_Sigma1_512 :: "uint64_t \<Rightarrow> uint64_t" where
  "fips_Sigma1_512 x = word_rotr 14 x XOR word_rotr 18 x XOR word_rotr 41 x"

definition fips_sigma0_512 :: "uint64_t \<Rightarrow> uint64_t" where
  "fips_sigma0_512 x = word_rotr 1 x XOR word_rotr 8 x XOR drop_bit 7 x"

definition fips_sigma1_512 :: "uint64_t \<Rightarrow> uint64_t" where
  "fips_sigma1_512 x = word_rotr 19 x XOR word_rotr 61 x XOR drop_bit 6 x"

lemma sha512_fips_functions:
  "sha512_Sigma0 = fips_Sigma0_512" "sha512_Sigma1 = fips_Sigma1_512"
  "sha512_sigma0 = fips_sigma0_512" "sha512_sigma1 = fips_sigma1_512"
  by (simp_all add: fun_eq_iff sha512_Sigma0_def sha512_Sigma1_def sha512_sigma0_def sha512_sigma1_def
      fips_Sigma0_512_def fips_Sigma1_512_def fips_sigma0_512_def fips_sigma1_512_def rotr_shifts)

lemma sha512_round_fips: "round_step sha512_Round = fips_step fips_Sigma0_512 fips_Sigma1_512"
  by (rule round_step_fips) (simp add: sha512_Round_def sha512_Ch_def sha512_Maj_def Ch_fips Maj_fips sha512_fips_functions)

lemma sha512_k_length:
  "length sha512_k0 = 16" "length sha512_k1 = 16" "length sha512_k2 = 16" "length sha512_k3 = 16" "length sha512_k4 = 16"
  by (simp_all add: sha512_k0_def sha512_k1_def sha512_k2_def sha512_k3_def sha512_k4_def)

lemma sha512_Transform_fips:
  "sha512_Transform s chunk =
     fips_compress fips_Sigma0_512 fips_Sigma1_512 fips_sigma0_512 fips_sigma1_512
       (concat [sha512_k0, sha512_k1, sha512_k2, sha512_k3, sha512_k4]) s
       (map (\<lambda>i. ReadBE64 (drop (8 * i) chunk)) [0..<16])"
  by (subst sha2_run_fips [where R = sha512_Round, symmetric])
    (simp_all only: sha512_Transform_def Let_def sha2_run.simps sha512_fips_functions sha512_round_fips,
     simp_all add: sha512_k_length)

text \<open>
  The constants of the standard are the leading bits of the fractional parts of the cube roots, and
  the initial values of the square roots, of the first primes: \<open>root_frac e w p k\<close> says that \<open>k\<close> is the
  first \<open>w\<close> bits of the fractional part of the \<open>e\<close>-th root of \<open>p\<close>.
\<close>

definition root_frac :: "nat \<Rightarrow> nat \<Rightarrow> int \<Rightarrow> int \<Rightarrow> bool" where
  "root_frac e w p k \<longleftrightarrow>
     (\<exists>q. q ^ e \<le> p \<and> p < (q + 1) ^ e \<and> 0 \<le> k \<and> k < 2 ^ w \<and>
       (q * 2 ^ w + k) ^ e \<le> p * 2 ^ (e * w) \<and> p * 2 ^ (e * w) < (q * 2 ^ w + k + 1) ^ e)"

definition first_primes :: "int list" where
  "first_primes =
     [2, 3, 5, 7, 11, 13, 17, 19, 23, 29, 31, 37, 41, 43, 47, 53, 59, 61, 67, 71,
      73, 79, 83, 89, 97, 101, 103, 107, 109, 113, 127, 131, 137, 139, 149, 151, 157, 163, 167, 173,
      179, 181, 191, 193, 197, 199, 211, 223, 227, 229, 233, 239, 241, 251, 257, 263, 269, 271, 277, 281,
      283, 293, 307, 311, 313, 317, 331, 337, 347, 349, 353, 359, 367, 373, 379, 383, 389, 397, 401, 409]"

lemma root_fracI:
  fixes q :: int
  assumes "q ^ e \<le> p" "p < (q + 1) ^ e" "0 \<le> k" "k < 2 ^ w"
    "(q * 2 ^ w + k) ^ e \<le> p * 2 ^ (e * w)" "p * 2 ^ (e * w) < (q * 2 ^ w + k + 1) ^ e"
  shows "root_frac e w p k"
  using assms by (auto simp: root_frac_def)

fun root_fracs :: "nat \<Rightarrow> nat \<Rightarrow> int list \<Rightarrow> int list \<Rightarrow> bool" where
  "root_fracs e w (p # ps) (k # ks) \<longleftrightarrow> root_frac e w p k \<and> root_fracs e w ps ks"
| "root_fracs e w _ [] \<longleftrightarrow> True"
| "root_fracs e w [] (k # ks) \<longleftrightarrow> False"

definition icbrt :: "int \<Rightarrow> int" where
  "icbrt p = (if p < 8 then 1 else if p < 27 then 2 else if p < 64 then 3 else if p < 125 then 4
     else if p < 216 then 5 else if p < 343 then 6 else 7)"

definition isqrt :: "int \<Rightarrow> int" where
  "isqrt p = (if p < 4 then 1 else if p < 9 then 2 else if p < 16 then 3 else 4)"

lemma cube_root_frac_exec:
  assumes "p < 512" "1 \<le> p" "0 \<le> k" "k < 2 ^ w"
    "(icbrt p * 2 ^ w + k) ^ 3 \<le> p * 2 ^ (3 * w)" "p * 2 ^ (3 * w) < (icbrt p * 2 ^ w + k + 1) ^ 3"
  shows "root_frac 3 w p k"
  using assms by (intro root_fracI [of "icbrt p"]) (simp_all add: icbrt_def)

lemma square_root_frac_exec:
  assumes "p < 25" "1 \<le> p" "0 \<le> k" "k < 2 ^ w"
    "(isqrt p * 2 ^ w + k) ^ 2 \<le> p * 2 ^ (2 * w)" "p * 2 ^ (2 * w) < (isqrt p * 2 ^ w + k + 1) ^ 2"
  shows "root_frac 2 w p k"
  using assms by (intro root_fracI [of "isqrt p"]) (simp_all add: isqrt_def)

lemma sha256_constants:
  "root_fracs 3 32 first_primes (map uint (concat [sha256_k0, sha256_k1, sha256_k2, sha256_k3]))"
  by (simp add: first_primes_def sha256_k0_def sha256_k1_def sha256_k2_def sha256_k3_def cube_root_frac_exec icbrt_def)

lemma sha512_constants:
  "root_fracs 3 64 first_primes (map uint (concat [sha512_k0, sha512_k1, sha512_k2, sha512_k3, sha512_k4]))"
  by (simp add: first_primes_def sha512_k0_def sha512_k1_def sha512_k2_def sha512_k3_def sha512_k4_def cube_root_frac_exec icbrt_def)

lemma sha2_initial_values:
  "root_fracs 2 32 first_primes (map uint sha256_Initialize)" "root_fracs 2 64 first_primes (map uint sha512_Initialize)"
  by (simp_all add: first_primes_def sha256_Initialize_def sha512_Initialize_def square_root_frac_exec isqrt_def)

section \<open>Digests of messages written in pieces\<close>

definition fips_pad :: "nat \<Rightarrow> byte list \<Rightarrow> byte list \<Rightarrow> byte list" where
  "fips_pad n sizedesc m =
     m @ 0x80 # replicate (nat ((int n - 1 - int (length sizedesc) - int (length m)) mod int n)) 0 @ sizedesc"

text \<open>The message is padded to whole blocks.\<close>

lemma fips_pad_dvd: "0 < n \<Longrightarrow> n dvd length (fips_pad n sz m)"
proof -
  assume n: "0 < n"
  let ?a = "int (length m) + 1 + int (length sz)"
  have "(?a + (int n - 1 - int (length sz) - int (length m)) mod int n) mod int n =
      (?a + (int n - 1 - int (length sz) - int (length m))) mod int n" by (rule mod_add_right_eq)
  also have "\<dots> = 0" by simp
  finally have "int (length (fips_pad n sz m)) mod int n = 0"
    using n by (simp add: fips_pad_def algebra_simps)
  then show ?thesis by (metis dvd_imp_mod_0 int_dvd_int_iff mod_0_imp_dvd)
qed

lemma pad_length:
  fixes L n c :: nat
  assumes "0 < n" "n \<le> c" "c = 2 * n - 1 - s" "s < n"
  shows "(c - L mod n) mod n = nat ((int n - 1 - int s - int L) mod int n)"
proof -
  have "L mod n \<le> c" using assms(1,2) by (meson le_trans less_imp_le mod_less_divisor)
  then have "int ((c - L mod n) mod n) = (int c - int L mod int n) mod int n" by (simp add: zmod_int of_nat_diff)
  also have "\<dots> = (int c - int L) mod int n" by (rule mod_diff_right_eq)
  also have "\<dots> = (int n - 1 - int s - int L + int n) mod int n"
    using assms by (intro arg_cong [where f = "\<lambda>x. x mod int n"]) linarith
  also have "\<dots> = (int n - 1 - int s - int L) mod int n" by (rule mod_add_self2)
  finally show ?thesis by (metis nat_int)
qed

context block_hash
begin

text \<open>Padding and the length, written as two more pieces, complete the last block.\<close>

lemma Write_padding:
  assumes h: "absorbed n T s0 h m" and sz: "length sz < n" and c: "c = 2 * n - 1 - length sz" "n \<le> c"
  shows "absorbed n T s0
      (hasher_Write n T sz (hasher_Write n T (take (1 + (c - unat (hbytes h) mod n) mod n) (0x80 # replicate (n - 1) 0)) h))
      (fips_pad n sz m)"
proof -
  have "unat (hbytes h) mod n = length m mod n" using h by (simp add: absorbed_def bufsize_eq)
  then have k: "(c - unat (hbytes h) mod n) mod n = nat ((int n - 1 - int (length sz) - int (length m)) mod int n)"
    using pad_length [OF block_pos c(2) c(1) sz] by simp
  let ?k = "nat ((int n - 1 - int (length sz) - int (length m)) mod int n)"
  have "?k \<le> n - 1" using block_pos by (metis One_nat_def Suc_pred k less_Suc_eq_le mod_less_divisor)
  then have "take (1 + ?k) ((0x80 :: byte) # replicate (n - 1) 0) = 0x80 # replicate ?k 0" by simp
  then show ?thesis
    using Write_absorbs [OF Write_absorbs [OF h, of "0x80 # replicate ?k 0"], of sz]
    by (simp add: k fips_pad_def)
qed

lemma absorbed_reset:
  "length b = n \<Longrightarrow> absorbed n T s0 \<lparr>hs = s0, hbuf = b, hbytes = 0\<rparr> []"
  using block_pos by (simp add: absorbed_def blocks_less rest_def)

end

interpretation sha256: block_hash 64 sha256_Transform sha256_Initialize
  by unfold_locales simp_all

interpretation sha512: block_hash 128 sha512_Transform sha512_Initialize
  by unfold_locales simp_all

definition fips_sha256 :: "byte list \<Rightarrow> byte list" where
  "fips_sha256 m =
     (let K = concat [sha256_k0, sha256_k1, sha256_k2, sha256_k3];
          H = foldl (\<lambda>H B. fips_compress fips_Sigma0_256 fips_Sigma1_256 fips_sigma0_256 fips_sigma1_256 K H
                (map (\<lambda>i. ReadBE32 (drop (4 * i) B)) [0..<16]))
              sha256_Initialize (blocks 64 (fips_pad 64 (WriteBE64 (of_nat (8 * length m))) m))
      in concat (map (\<lambda>i. WriteBE32 (H ! i)) [0..<8]))"

definition fips_sha512 :: "byte list \<Rightarrow> byte list" where
  "fips_sha512 m =
     (let K = concat [sha512_k0, sha512_k1, sha512_k2, sha512_k3, sha512_k4];
          H = foldl (\<lambda>H B. fips_compress fips_Sigma0_512 fips_Sigma1_512 fips_sigma0_512 fips_sigma1_512 K H
                (map (\<lambda>i. ReadBE64 (drop (8 * i) B)) [0..<16]))
              sha512_Initialize (blocks 128 (fips_pad 128 (replicate 8 0 @ WriteBE64 (of_nat (8 * length m))) m))
      in concat (map (\<lambda>i. WriteBE64 (H ! i)) [0..<8]))"

lemma push_bit_length: "push_bit 3 (of_nat k :: uint64_t) = of_nat (8 * k)"
  by (simp add: push_bit_eq_mult)

lemma length_WriteBE64 [simp]: "length (WriteBE64 x) = 8"
  by (simp add: WriteBE64_def)

lemma CSHA256_Finalize_absorbed:
  assumes "absorbed 64 sha256_Transform sha256_Initialize h m"
  shows "CSHA256_Finalize h = fips_sha256 m"
proof -
  have b: "hbytes h = of_nat (length m)" using assms by (simp add: absorbed_def)
  have "absorbed 64 sha256_Transform sha256_Initialize
      (CSHA256_Write (WriteBE64 (of_nat (8 * length m)))
         (CSHA256_Write (take (1 + (119 - unat (hbytes h) mod 64) mod 64) (0x80 # replicate 63 0)) h))
      (fips_pad 64 (WriteBE64 (of_nat (8 * length m))) m)"
    using sha256.Write_padding [OF assms, of "WriteBE64 (of_nat (8 * length m))" 119] by (simp add: CSHA256_Write_def)
  then show ?thesis
    unfolding CSHA256_Finalize_def Let_def CSHA256_FinalizeNoPadding_def b push_bit_length fips_sha256_def
    by (simp add: absorbed_def sha256_Transform_fips [abs_def] del: upt_rec_numeral upt_conv_Cons)
qed

end
