(* ===== verification/Hashing.thy ===== *)
theory Hashing
  imports Sha2
begin

text \<open>
  The other hash functions and the hashes of objects: SHA-1 and RIPEMD-160
  (\<^verbatim>\<open>src/crypto/sha1.cpp\<close>, \<^verbatim>\<open>src/crypto/ripemd160.cpp\<close>), HMAC (\<^verbatim>\<open>src/crypto/hmac_sha256.cpp\<close>,
  \<^verbatim>\<open>src/crypto/hmac_sha512.cpp\<close>), and \<^verbatim>\<open>src/hash.h\<close> and \<^verbatim>\<open>src/hash.cpp\<close>: double SHA-256, the hash
  writer of serialized objects, MurmurHash3 and SipHash.
\<close>

unbundle bit_operations_syntax

section \<open>SHA-1\<close>

text \<open>
  The unrolled lines of \<open>Transform\<close> pass the five working variables rotated by one place from line to
  line. Here the rotation is part of the step: the variables are returned in the order in which the
  next line takes them. The sixteen message words are overwritten in turn; they are kept here as a
  window whose first word is the one to be overwritten next.
\<close>

type_synonym regs5 = "uint32_t \<times> uint32_t \<times> uint32_t \<times> uint32_t \<times> uint32_t"

definition sha1_f1 :: "uint32_t \<Rightarrow> uint32_t \<Rightarrow> uint32_t \<Rightarrow> uint32_t" where
  "sha1_f1 b c d = d XOR (b AND (c XOR d))"

definition sha1_f2 :: "uint32_t \<Rightarrow> uint32_t \<Rightarrow> uint32_t \<Rightarrow> uint32_t" where
  "sha1_f2 b c d = b XOR c XOR d"

definition sha1_f3 :: "uint32_t \<Rightarrow> uint32_t \<Rightarrow> uint32_t \<Rightarrow> uint32_t" where
  "sha1_f3 b c d = (b AND c) OR (d AND (b OR c))"

definition sha1_left :: "uint32_t \<Rightarrow> uint32_t" where
  "sha1_left x = push_bit 1 x OR drop_bit 31 x"

definition sha1_Round :: "(uint32_t \<Rightarrow> uint32_t \<Rightarrow> uint32_t \<Rightarrow> uint32_t) \<Rightarrow> uint32_t \<Rightarrow> uint32_t \<Rightarrow> regs5 \<Rightarrow> regs5" where
  "sha1_Round f k w = (\<lambda>(a, b, c, d, e).
     let e' = e + ((push_bit 5 a OR drop_bit 27 a) + f b c d + k + w);
         b' = push_bit 30 b OR drop_bit 2 b
     in (e', a, b', c, d))"

definition sha1_Initialize :: "uint32_t list" where
  "sha1_Initialize = [0x67452301, 0xEFCDAB89, 0x98BADCFE, 0x10325476, 0xC3D2E1F0]"

fun sha1_words :: "nat \<Rightarrow> uint32_t list \<Rightarrow> uint32_t list" where
  "sha1_words 0 w = []"
| "sha1_words (Suc n) w =
     (let x = sha1_left (w ! 0 XOR w ! 13 XOR w ! 8 XOR w ! 2) in x # sha1_words n (tl w @ [x]))"

definition sha1_rounds :: "(uint32_t \<Rightarrow> uint32_t \<Rightarrow> uint32_t \<Rightarrow> uint32_t) \<Rightarrow> uint32_t \<Rightarrow> uint32_t list \<Rightarrow> regs5 \<Rightarrow> regs5" where
  "sha1_rounds f k ws r = foldl (\<lambda>r w. sha1_Round f k w r) r ws"

definition sha1_Transform :: "uint32_t transform" where
  "sha1_Transform s chunk =
     (let w = map (\<lambda>i. ReadBE32 (drop (4 * i) chunk)) [0..<16];
          w = w @ sha1_words 64 w;
          r = sha1_rounds sha1_f1 0x5A827999 (take 20 w) (s ! 0, s ! 1, s ! 2, s ! 3, s ! 4);
          r = sha1_rounds sha1_f2 0x6ED9EBA1 (take 20 (drop 20 w)) r;
          r = sha1_rounds sha1_f3 0x8F1BBCDC (take 20 (drop 40 w)) r;
          (a, b, c, d, e) = sha1_rounds sha1_f2 0xCA62C1D6 (take 20 (drop 60 w)) r
      in [s ! 0 + a, s ! 1 + b, s ! 2 + c, s ! 3 + d, s ! 4 + e])"

definition CSHA1_init :: "uint32_t hasher" where
  "CSHA1_init = \<lparr>hs = sha1_Initialize, hbuf = replicate 64 0, hbytes = 0\<rparr>"

definition CSHA1_Write :: "byte list \<Rightarrow> uint32_t hasher \<Rightarrow> uint32_t hasher" where
  "CSHA1_Write = hasher_Write 64 sha1_Transform"

definition CSHA1_Finalize :: "uint32_t hasher \<Rightarrow> byte list" where
  "CSHA1_Finalize h =
     (let pad = 0x80 # replicate 63 0;
          sizedesc = WriteBE64 (push_bit 3 (hbytes h));
          h1 = CSHA1_Write (take (1 + (119 - unat (hbytes h) mod 64) mod 64) pad) h;
          h2 = CSHA1_Write sizedesc h1
      in concat (map (\<lambda>i. WriteBE32 (hs h2 ! i)) [0..<5]))"

definition CSHA1_Reset :: "uint32_t hasher \<Rightarrow> uint32_t hasher" where
  "CSHA1_Reset h = h\<lparr>hbytes := 0, hs := sha1_Initialize\<rparr>"

section \<open>RIPEMD-160\<close>

text \<open>
  Two lines of eighty rounds run beside each other over the same message words. For each line, the
  table has the index of the message word and the rotation of each round, in the order of the code;
  sixteen rounds use one round function.
\<close>

definition ripemd160_f1 :: "uint32_t \<Rightarrow> uint32_t \<Rightarrow> uint32_t \<Rightarrow> uint32_t" where
  "ripemd160_f1 x y z = x XOR y XOR z"

definition ripemd160_f2 :: "uint32_t \<Rightarrow> uint32_t \<Rightarrow> uint32_t \<Rightarrow> uint32_t" where
  "ripemd160_f2 x y z = (x AND y) OR (NOT x AND z)"

definition ripemd160_f3 :: "uint32_t \<Rightarrow> uint32_t \<Rightarrow> uint32_t \<Rightarrow> uint32_t" where
  "ripemd160_f3 x y z = (x OR NOT y) XOR z"

definition ripemd160_f4 :: "uint32_t \<Rightarrow> uint32_t \<Rightarrow> uint32_t \<Rightarrow> uint32_t" where
  "ripemd160_f4 x y z = (x AND z) OR (y AND NOT z)"

definition ripemd160_f5 :: "uint32_t \<Rightarrow> uint32_t \<Rightarrow> uint32_t \<Rightarrow> uint32_t" where
  "ripemd160_f5 x y z = x XOR (y OR NOT z)"

definition ripemd160_Initialize :: "uint32_t list" where
  "ripemd160_Initialize = [0x67452301, 0xEFCDAB89, 0x98BADCFE, 0x10325476, 0xC3D2E1F0]"

definition ripemd160_rol :: "uint32_t \<Rightarrow> nat \<Rightarrow> uint32_t" where
  "ripemd160_rol x i = push_bit i x OR drop_bit (32 - i) x"

definition ripemd160_Round ::
  "(uint32_t \<Rightarrow> uint32_t \<Rightarrow> uint32_t \<Rightarrow> uint32_t) \<Rightarrow> uint32_t \<Rightarrow> uint32_t \<Rightarrow> nat \<Rightarrow> regs5 \<Rightarrow> regs5" where
  "ripemd160_Round f k x r = (\<lambda>(a, b, c, d, e).
     let a' = ripemd160_rol (a + f b c d + x + k) r + e;
         c' = ripemd160_rol c 10
     in (e, a', b, c', d))"

definition ripemd160_table1 :: "(nat \<times> nat) list" where
  "ripemd160_table1 = [
      (0, 11), (1, 14), (2, 15), (3, 12), (4, 5), (5, 8), (6, 7), (7, 9),
      (8, 11), (9, 13), (10, 14), (11, 15), (12, 6), (13, 7), (14, 9), (15, 8),
      (7, 7), (4, 6), (13, 8), (1, 13), (10, 11), (6, 9), (15, 7), (3, 15),
      (12, 7), (0, 12), (9, 15), (5, 9), (2, 11), (14, 7), (11, 13), (8, 12),
      (3, 11), (10, 13), (14, 6), (4, 7), (9, 14), (15, 9), (8, 13), (1, 15),
      (2, 14), (7, 8), (0, 13), (6, 6), (13, 5), (11, 12), (5, 7), (12, 5),
      (1, 11), (9, 12), (11, 14), (10, 15), (0, 14), (8, 15), (12, 9), (4, 8),
      (13, 9), (3, 14), (7, 5), (15, 6), (14, 8), (5, 6), (6, 5), (2, 12),
      (4, 9), (0, 15), (5, 5), (9, 11), (7, 6), (12, 8), (2, 13), (10, 12),
      (14, 5), (1, 12), (3, 13), (8, 14), (11, 11), (6, 8), (15, 5), (13, 6)]"

definition ripemd160_functions1 :: "((uint32_t \<Rightarrow> uint32_t \<Rightarrow> uint32_t \<Rightarrow> uint32_t) \<times> uint32_t) list" where
  "ripemd160_functions1 =
     [(ripemd160_f1, 0),
      (ripemd160_f2, 0x5A827999),
      (ripemd160_f3, 0x6ED9EBA1),
      (ripemd160_f4, 0x8F1BBCDC),
      (ripemd160_f5, 0xA953FD4E)]"

definition ripemd160_table2 :: "(nat \<times> nat) list" where
  "ripemd160_table2 = [
      (5, 8), (14, 9), (7, 9), (0, 11), (9, 13), (2, 15), (11, 15), (4, 5),
      (13, 7), (6, 7), (15, 8), (8, 11), (1, 14), (10, 14), (3, 12), (12, 6),
      (6, 9), (11, 13), (3, 15), (7, 7), (0, 12), (13, 8), (5, 9), (10, 11),
      (14, 7), (15, 7), (8, 12), (12, 7), (4, 6), (9, 15), (1, 13), (2, 11),
      (15, 9), (5, 7), (1, 15), (3, 11), (7, 8), (14, 6), (6, 6), (9, 14),
      (11, 12), (8, 13), (12, 5), (2, 14), (10, 13), (0, 13), (4, 7), (13, 5),
      (8, 15), (6, 5), (4, 8), (1, 11), (3, 14), (11, 14), (15, 6), (0, 14),
      (5, 6), (12, 9), (2, 12), (13, 9), (9, 12), (7, 5), (10, 15), (14, 8),
      (12, 8), (15, 5), (10, 12), (4, 9), (1, 12), (5, 5), (8, 14), (7, 6),
      (6, 8), (2, 13), (13, 6), (14, 5), (0, 15), (3, 13), (9, 11), (11, 11)]"

definition ripemd160_functions2 :: "((uint32_t \<Rightarrow> uint32_t \<Rightarrow> uint32_t \<Rightarrow> uint32_t) \<times> uint32_t) list" where
  "ripemd160_functions2 =
     [(ripemd160_f5, 0x50A28BE6),
      (ripemd160_f4, 0x5C4DD124),
      (ripemd160_f3, 0x6D703EF3),
      (ripemd160_f2, 0x7A6D76E9),
      (ripemd160_f1, 0)]"

definition ripemd160_line ::
  "((uint32_t \<Rightarrow> uint32_t \<Rightarrow> uint32_t \<Rightarrow> uint32_t) \<times> uint32_t) list \<Rightarrow> (nat \<times> nat) list \<Rightarrow> uint32_t list \<Rightarrow> regs5 \<Rightarrow> regs5" where
  "ripemd160_line fs table w r =
     foldl (\<lambda>r i. case fs ! (i div 16) of (f, k) \<Rightarrow>
         case table ! i of (j, s) \<Rightarrow> ripemd160_Round f k (w ! j) s r)
       r [0..<80]"

definition ripemd160_Transform :: "uint32_t transform" where
  "ripemd160_Transform s chunk =
     (let w = map (\<lambda>i. ReadLE32 (drop (4 * i) chunk)) [0..<16];
          r = (s ! 0, s ! 1, s ! 2, s ! 3, s ! 4);
          (a1, b1, c1, d1, e1) = ripemd160_line ripemd160_functions1 ripemd160_table1 w r;
          (a2, b2, c2, d2, e2) = ripemd160_line ripemd160_functions2 ripemd160_table2 w r
      in [s ! 1 + c1 + d2, s ! 2 + d1 + e2, s ! 3 + e1 + a2, s ! 4 + a1 + b2, s ! 0 + b1 + c2])"

definition CRIPEMD160_init :: "uint32_t hasher" where
  "CRIPEMD160_init = \<lparr>hs = ripemd160_Initialize, hbuf = replicate 64 0, hbytes = 0\<rparr>"

definition CRIPEMD160_Write :: "byte list \<Rightarrow> uint32_t hasher \<Rightarrow> uint32_t hasher" where
  "CRIPEMD160_Write = hasher_Write 64 ripemd160_Transform"

definition CRIPEMD160_Finalize :: "uint32_t hasher \<Rightarrow> byte list" where
  "CRIPEMD160_Finalize h =
     (let pad = 0x80 # replicate 63 0;
          sizedesc = WriteLE64 (push_bit 3 (hbytes h));
          h1 = CRIPEMD160_Write (take (1 + (119 - unat (hbytes h) mod 64) mod 64) pad) h;
          h2 = CRIPEMD160_Write sizedesc h1
      in concat (map (\<lambda>i. WriteLE32 (hs h2 ! i)) [0..<5]))"

definition CRIPEMD160_Reset :: "uint32_t hasher \<Rightarrow> uint32_t hasher" where
  "CRIPEMD160_Reset h = h\<lparr>hbytes := 0, hs := ripemd160_Initialize\<rparr>"

section \<open>Hashes of objects\<close>

definition CHash256_Finalize :: "uint32_t hasher \<Rightarrow> byte list" where
  "CHash256_Finalize sha =
     (let buf = CSHA256_Finalize sha in CSHA256_Finalize (CSHA256_Write buf (CSHA256_Reset sha)))"

definition CHash160_Finalize :: "uint32_t hasher \<Rightarrow> byte list" where
  "CHash160_Finalize sha =
     (let buf = CSHA256_Finalize sha in CRIPEMD160_Finalize (CRIPEMD160_Write buf CRIPEMD160_init))"

definition Hash :: "byte list \<Rightarrow> uint256" where
  "Hash p = CHash256_Finalize (CSHA256_Write p CSHA256_init)"

definition Hash_concat2 :: "byte list \<Rightarrow> byte list \<Rightarrow> uint256" where
  "Hash_concat2 p1 p2 = CHash256_Finalize (CSHA256_Write p2 (CSHA256_Write p1 CSHA256_init))"

definition Hash_concat3 :: "byte list \<Rightarrow> byte list \<Rightarrow> byte list \<Rightarrow> uint256" where
  "Hash_concat3 p1 p2 p3 = CHash256_Finalize (CSHA256_Write p3 (CSHA256_Write p2 (CSHA256_Write p1 CSHA256_init)))"

definition Hash160 :: "byte list \<Rightarrow> byte list" where
  "Hash160 p = CHash160_Finalize (CSHA256_Write p CSHA256_init)"

text \<open>A \<open>CHashWriter\<close> feeds every piece of a serialization to the hash as it is written.\<close>

definition CHashWriter_write :: "byte list \<Rightarrow> uint32_t hasher \<Rightarrow> uint32_t hasher" where
  "CHashWriter_write pch ctx = CSHA256_Write pch ctx"

definition CHashWriter_GetHash :: "uint32_t hasher \<Rightarrow> uint256" where
  "CHashWriter_GetHash ctx = CHash256_Finalize ctx"

definition SerializeHash :: "byte list list \<Rightarrow> uint256" where
  "SerializeHash pieces = CHashWriter_GetHash (fold CHashWriter_write pieces CSHA256_init)"

section \<open>HMAC\<close>

definition CHMAC_SHA256_init :: "byte list \<Rightarrow> uint32_t hasher \<times> uint32_t hasher" where
  "CHMAC_SHA256_init key =
     (let rkey = (if length key \<le> 64 then key @ replicate (64 - length key) 0
                  else CSHA256_Finalize (CSHA256_Write key CSHA256_init) @ replicate 32 0);
          rkey1 = map (\<lambda>x. x XOR 0x5c) rkey;
          outer = CSHA256_Write rkey1 CSHA256_init;
          rkey2 = map (\<lambda>x. x XOR (0x5c XOR 0x36)) rkey1;
          inner = CSHA256_Write rkey2 CSHA256_init
      in (outer, inner))"

definition CHMAC_SHA256_Write :: "byte list \<Rightarrow> uint32_t hasher \<times> uint32_t hasher \<Rightarrow> uint32_t hasher \<times> uint32_t hasher" where
  "CHMAC_SHA256_Write data h = (fst h, CSHA256_Write data (snd h))"

definition CHMAC_SHA256_Finalize :: "uint32_t hasher \<times> uint32_t hasher \<Rightarrow> byte list" where
  "CHMAC_SHA256_Finalize h =
     (let temp = CSHA256_Finalize (snd h) in CSHA256_Finalize (CSHA256_Write temp (fst h)))"

definition CHMAC_SHA512_init :: "byte list \<Rightarrow> uint64_t hasher \<times> uint64_t hasher" where
  "CHMAC_SHA512_init key =
     (let rkey = (if length key \<le> 128 then key @ replicate (128 - length key) 0
                  else CSHA512_Finalize (CSHA512_Write key CSHA512_init) @ replicate 64 0);
          rkey1 = map (\<lambda>x. x XOR 0x5c) rkey;
          outer = CSHA512_Write rkey1 CSHA512_init;
          rkey2 = map (\<lambda>x. x XOR (0x5c XOR 0x36)) rkey1;
          inner = CSHA512_Write rkey2 CSHA512_init
      in (outer, inner))"

definition CHMAC_SHA512_Write :: "byte list \<Rightarrow> uint64_t hasher \<times> uint64_t hasher \<Rightarrow> uint64_t hasher \<times> uint64_t hasher" where
  "CHMAC_SHA512_Write data h = (fst h, CSHA512_Write data (snd h))"

definition CHMAC_SHA512_Finalize :: "uint64_t hasher \<times> uint64_t hasher \<Rightarrow> byte list" where
  "CHMAC_SHA512_Finalize h =
     (let temp = CSHA512_Finalize (snd h) in CSHA512_Finalize (CSHA512_Write temp (fst h)))"

definition BIP32Hash :: "byte list \<Rightarrow> uint32_t \<Rightarrow> byte \<Rightarrow> byte list \<Rightarrow> byte list" where
  "BIP32Hash chainCode nChild header data =
     (let num = [ucast (drop_bit 24 nChild AND 0xFF), ucast (drop_bit 16 nChild AND 0xFF),
                 ucast (drop_bit 8 nChild AND 0xFF), ucast (nChild AND 0xFF)]
      in CHMAC_SHA512_Finalize (CHMAC_SHA512_Write num (CHMAC_SHA512_Write data
           (CHMAC_SHA512_Write [header] (CHMAC_SHA512_init chainCode)))))"

section \<open>MurmurHash3\<close>

definition ROTL32 :: "uint32_t \<Rightarrow> nat \<Rightarrow> uint32_t" where
  "ROTL32 x r = push_bit r x OR drop_bit (32 - r) x"

definition murmur_c1 :: uint32_t where "murmur_c1 = 0xcc9e2d51"
definition murmur_c2 :: uint32_t where "murmur_c2 = 0x1b873593"

definition murmur_block :: "uint32_t \<Rightarrow> uint32_t \<Rightarrow> uint32_t" where
  "murmur_block h1 k1 =
     (let k1 = k1 * murmur_c1; k1 = ROTL32 k1 15; k1 = k1 * murmur_c2;
          h1 = h1 XOR k1; h1 = ROTL32 h1 13
      in h1 * 5 + 0xe6546b64)"

definition murmur_tail :: "uint32_t \<Rightarrow> byte list \<Rightarrow> uint32_t" where
  "murmur_tail h1 tail =
     (if tail = [] then h1
      else let k1 = 0;
               k1 = (if length tail \<ge> 3 then k1 XOR push_bit 16 (ucast (tail ! 2)) else k1);
               k1 = (if length tail \<ge> 2 then k1 XOR push_bit 8 (ucast (tail ! 1)) else k1);
               k1 = k1 XOR ucast (tail ! 0);
               k1 = k1 * murmur_c1; k1 = ROTL32 k1 15; k1 = k1 * murmur_c2
           in h1 XOR k1)"

definition MurmurHash3 :: "uint32_t \<Rightarrow> byte list \<Rightarrow> uint32_t" where
  "MurmurHash3 nHashSeed vDataToHash =
     (let h1 = nHashSeed;
          nblocks = length vDataToHash div 4;
          h1 = foldl (\<lambda>h i. murmur_block h (ReadLE32 (drop (i * 4) vDataToHash))) h1 [0..<nblocks];
          h1 = murmur_tail h1 (drop (nblocks * 4) vDataToHash);
          h1 = h1 XOR of_nat (length vDataToHash);
          h1 = h1 XOR drop_bit 16 h1;
          h1 = h1 * 0x85ebca6b;
          h1 = h1 XOR drop_bit 13 h1;
          h1 = h1 * 0xc2b2ae35
      in h1 XOR drop_bit 16 h1)"

section \<open>SipHash-2-4\<close>

type_synonym sip_state = "uint64_t \<times> uint64_t \<times> uint64_t \<times> uint64_t"

definition sip_ROTL :: "uint64_t \<Rightarrow> nat \<Rightarrow> uint64_t" where
  "sip_ROTL x b = push_bit b x OR drop_bit (64 - b) x"

definition SIPROUND :: "sip_state \<Rightarrow> sip_state" where
  "SIPROUND = (\<lambda>(v0, v1, v2, v3).
     let v0 = v0 + v1; v1 = sip_ROTL v1 13; v1 = v1 XOR v0;
         v0 = sip_ROTL v0 32;
         v2 = v2 + v3; v3 = sip_ROTL v3 16; v3 = v3 XOR v2;
         v0 = v0 + v3; v3 = sip_ROTL v3 21; v3 = v3 XOR v0;
         v2 = v2 + v1; v1 = sip_ROTL v1 17; v1 = v1 XOR v2;
         v2 = sip_ROTL v2 32
     in (v0, v1, v2, v3))"

record CSipHasher =
  sip_v :: sip_state
  sip_tmp :: uint64_t
  sip_count :: int

definition CSipHasher_init :: "uint64_t \<Rightarrow> uint64_t \<Rightarrow> CSipHasher" where
  "CSipHasher_init k0 k1 =
     \<lparr>sip_v = (0x736f6d6570736575 XOR k0, 0x646f72616e646f6d XOR k1, 0x6c7967656e657261 XOR k0, 0x7465646279746573 XOR k1),
      sip_tmp = 0, sip_count = 0\<rparr>"

definition sip_absorb :: "uint64_t \<Rightarrow> sip_state \<Rightarrow> sip_state" where
  "sip_absorb data v =
     (case v of (v0, v1, v2, v3) \<Rightarrow>
        case SIPROUND (SIPROUND (v0, v1, v2, v3 XOR data)) of (v0, v1, v2, v3) \<Rightarrow> (v0 XOR data, v1, v2, v3))"

definition CSipHasher_Write64 :: "uint64_t \<Rightarrow> CSipHasher \<Rightarrow> CSipHasher" where
  "CSipHasher_Write64 data h = h\<lparr>sip_v := sip_absorb data (sip_v h), sip_count := sip_count h + 8\<rparr>"

fun CSipHasher_Write :: "byte list \<Rightarrow> CSipHasher \<Rightarrow> CSipHasher" where
  "CSipHasher_Write [] h = h"
| "CSipHasher_Write (x # data) h =
     (let t = sip_tmp h OR push_bit (8 * nat (sip_count h mod 8)) (ucast x);
          c = sip_count h + 1
      in if c mod 8 = 0
         then CSipHasher_Write data (h\<lparr>sip_v := sip_absorb t (sip_v h), sip_tmp := 0, sip_count := c\<rparr>)
         else CSipHasher_Write data (h\<lparr>sip_tmp := t, sip_count := c\<rparr>))"

definition sip_final :: "sip_state \<Rightarrow> uint64_t" where
  "sip_final v =
     (case v of (v0, v1, v2, v3) \<Rightarrow>
        case SIPROUND (SIPROUND (SIPROUND (SIPROUND (v0, v1, v2 XOR 0xFF, v3)))) of
          (v0, v1, v2, v3) \<Rightarrow> v0 XOR v1 XOR v2 XOR v3)"

definition CSipHasher_Finalize :: "CSipHasher \<Rightarrow> uint64_t" where
  "CSipHasher_Finalize h =
     (let t = sip_tmp h OR push_bit 56 (word_of_int (sip_count h)) in sip_final (sip_absorb t (sip_v h)))"

definition GetUint64 :: "uint256 \<Rightarrow> nat \<Rightarrow> uint64_t" where
  "GetUint64 val pos =
     (let ptr = drop (pos * 8) val
      in ucast (ptr ! 0) OR push_bit 8 (ucast (ptr ! 1)) OR push_bit 16 (ucast (ptr ! 2)) OR push_bit 24 (ucast (ptr ! 3)) OR
         push_bit 32 (ucast (ptr ! 4)) OR push_bit 40 (ucast (ptr ! 5)) OR push_bit 48 (ucast (ptr ! 6)) OR
         push_bit 56 (ucast (ptr ! 7)))"

definition SipHashUint256 :: "uint64_t \<Rightarrow> uint64_t \<Rightarrow> uint256 \<Rightarrow> uint64_t" where
  "SipHashUint256 k0 k1 val =
     (let d = GetUint64 val 0;
          (v0, v1, v2, v3) = SIPROUND (SIPROUND (0x736f6d6570736575 XOR k0, 0x646f72616e646f6d XOR k1,
                               0x6c7967656e657261 XOR k0, (0x7465646279746573 XOR k1) XOR d));
          v0 = v0 XOR d;
          d = GetUint64 val 1;
          (v0, v1, v2, v3) = SIPROUND (SIPROUND (v0, v1, v2, v3 XOR d));
          v0 = v0 XOR d;
          d = GetUint64 val 2;
          (v0, v1, v2, v3) = SIPROUND (SIPROUND (v0, v1, v2, v3 XOR d));
          v0 = v0 XOR d;
          d = GetUint64 val 3;
          (v0, v1, v2, v3) = SIPROUND (SIPROUND (v0, v1, v2, v3 XOR d));
          v0 = v0 XOR d;
          (v0, v1, v2, v3) = SIPROUND (SIPROUND (v0, v1, v2, v3 XOR push_bit 59 4));
          v0 = v0 XOR push_bit 59 4;
          (v0, v1, v2, v3) = SIPROUND (SIPROUND (SIPROUND (SIPROUND (v0, v1, v2 XOR 0xFF, v3))))
      in v0 XOR v1 XOR v2 XOR v3)"

section \<open>What the hash classes compute\<close>

interpretation sha1: block_hash 64 sha1_Transform sha1_Initialize
  by unfold_locales simp_all

interpretation ripemd160: block_hash 64 ripemd160_Transform ripemd160_Initialize
  by unfold_locales simp_all

lemma CSHA512_Finalize_absorbed:
  assumes "absorbed 128 sha512_Transform sha512_Initialize h m"
  shows "CSHA512_Finalize h = fips_sha512 m"
proof -
  let ?sz = "replicate 8 0 @ WriteBE64 (of_nat (8 * length m))"
  have b: "hbytes h = of_nat (length m)" using assms by (simp add: absorbed_def)
  have "absorbed 128 sha512_Transform sha512_Initialize
      (CSHA512_Write ?sz (CSHA512_Write (take (1 + (239 - unat (hbytes h) mod 128) mod 128) (0x80 # replicate 127 0)) h))
      (fips_pad 128 ?sz m)"
    using sha512.Write_padding [OF assms, of ?sz 239] by (simp add: CSHA512_Write_def)
  then show ?thesis
    unfolding CSHA512_Finalize_def Let_def b push_bit_length fips_sha512_def
    by (simp add: absorbed_def sha512_Transform_fips [abs_def] del: upt_rec_numeral upt_conv_Cons)
qed

text \<open>RIPEMD-160 and SHA-1 as functions of the whole message.\<close>

definition ripemd160_digest :: "byte list \<Rightarrow> byte list" where
  "ripemd160_digest m =
     (let H = foldl ripemd160_Transform ripemd160_Initialize
                (blocks 64 (fips_pad 64 (WriteLE64 (of_nat (8 * length m))) m))
      in concat (map (\<lambda>i. WriteLE32 (H ! i)) [0..<5]))"

definition sha1_digest :: "byte list \<Rightarrow> byte list" where
  "sha1_digest m =
     (let H = foldl sha1_Transform sha1_Initialize (blocks 64 (fips_pad 64 (WriteBE64 (of_nat (8 * length m))) m))
      in concat (map (\<lambda>i. WriteBE32 (H ! i)) [0..<5]))"

lemma length_WriteLE64 [simp]: "length (WriteLE64 x) = 8"
  by (simp add: WriteLE64_def)

lemma CRIPEMD160_Finalize_absorbed:
  assumes "absorbed 64 ripemd160_Transform ripemd160_Initialize h m"
  shows "CRIPEMD160_Finalize h = ripemd160_digest m"
proof -
  let ?sz = "WriteLE64 (of_nat (8 * length m))"
  have b: "hbytes h = of_nat (length m)" using assms by (simp add: absorbed_def)
  have "absorbed 64 ripemd160_Transform ripemd160_Initialize
      (CRIPEMD160_Write ?sz (CRIPEMD160_Write (take (1 + (119 - unat (hbytes h) mod 64) mod 64) (0x80 # replicate 63 0)) h))
      (fips_pad 64 ?sz m)"
    using ripemd160.Write_padding [OF assms, of ?sz 119] by (simp add: CRIPEMD160_Write_def)
  then show ?thesis
    unfolding CRIPEMD160_Finalize_def Let_def b push_bit_length ripemd160_digest_def
    by (simp add: absorbed_def del: upt_rec_numeral upt_conv_Cons)
qed

lemma CSHA1_Finalize_absorbed:
  assumes "absorbed 64 sha1_Transform sha1_Initialize h m"
  shows "CSHA1_Finalize h = sha1_digest m"
proof -
  let ?sz = "WriteBE64 (of_nat (8 * length m))"
  have b: "hbytes h = of_nat (length m)" using assms by (simp add: absorbed_def)
  have "absorbed 64 sha1_Transform sha1_Initialize
      (CSHA1_Write ?sz (CSHA1_Write (take (1 + (119 - unat (hbytes h) mod 64) mod 64) (0x80 # replicate 63 0)) h))
      (fips_pad 64 ?sz m)"
    using sha1.Write_padding [OF assms, of ?sz 119] by (simp add: CSHA1_Write_def)
  then show ?thesis
    unfolding CSHA1_Finalize_def Let_def b push_bit_length sha1_digest_def
    by (simp add: absorbed_def del: upt_rec_numeral upt_conv_Cons)
qed

text \<open>Hashing a message in any number of pieces, from the constructor or after \<open>Reset\<close>.\<close>

lemma CSHA256_pieces: "absorbed 64 sha256_Transform sha256_Initialize (fold CSHA256_Write ds CSHA256_init) (concat ds)"
  using sha256.fold_Write_absorbs [OF sha256.absorbed_init] by (simp add: CSHA256_Write_def CSHA256_init_def)

lemma CSHA256_reset_absorbed:
  "absorbed 64 sha256_Transform sha256_Initialize h m \<Longrightarrow>
   absorbed 64 sha256_Transform sha256_Initialize (CSHA256_Reset h) []"
  using sha256.absorbed_reset [of "hbuf h"] by (simp add: absorbed_def CSHA256_Reset_def)

lemma CSHA512_pieces: "absorbed 128 sha512_Transform sha512_Initialize (fold CSHA512_Write ds CSHA512_init) (concat ds)"
  using sha512.fold_Write_absorbs [OF sha512.absorbed_init] by (simp add: CSHA512_Write_def CSHA512_init_def)

lemma CHash256_Finalize_absorbed:
  assumes "absorbed 64 sha256_Transform sha256_Initialize h m"
  shows "CHash256_Finalize h = fips_sha256 (fips_sha256 m)"
  unfolding CHash256_Finalize_def Let_def CSHA256_Finalize_absorbed [OF assms]
  using sha256.Write_absorbs [OF CSHA256_reset_absorbed [OF assms], of "fips_sha256 m"]
  by (simp add: CSHA256_Finalize_absorbed CSHA256_Write_def)

lemma CHash160_Finalize_absorbed:
  assumes "absorbed 64 sha256_Transform sha256_Initialize h m"
  shows "CHash160_Finalize h = ripemd160_digest (fips_sha256 m)"
  unfolding CHash160_Finalize_def Let_def CSHA256_Finalize_absorbed [OF assms]
  using ripemd160.Write_absorbs [OF ripemd160.absorbed_init, of "fips_sha256 m"]
  by (simp add: CRIPEMD160_Finalize_absorbed CRIPEMD160_Write_def CRIPEMD160_init_def)

lemma Hash_eq: "Hash p = fips_sha256 (fips_sha256 p)"
  using CHash256_Finalize_absorbed [OF CSHA256_pieces [of "[p]"]] by (simp add: Hash_def)

lemma Hash160_eq: "Hash160 p = ripemd160_digest (fips_sha256 p)"
  using CHash160_Finalize_absorbed [OF CSHA256_pieces [of "[p]"]] by (simp add: Hash160_def)

lemma SerializeHash_eq: "SerializeHash ps = Hash (concat ps)"
  using CHash256_Finalize_absorbed [OF CSHA256_pieces [of ps]]
  by (simp add: SerializeHash_def CHashWriter_GetHash_def CHashWriter_write_def [abs_def] Hash_eq)

lemma Hash_concat2_eq: "Hash_concat2 p1 p2 = Hash (p1 @ p2)"
  using CHash256_Finalize_absorbed [OF CSHA256_pieces [of "[p1, p2]"]] by (simp add: Hash_concat2_def Hash_eq)

lemma Hash_concat3_eq: "Hash_concat3 p1 p2 p3 = Hash (p1 @ p2 @ p3)"
  using CHash256_Finalize_absorbed [OF CSHA256_pieces [of "[p1, p2, p3]"]] by (simp add: Hash_concat3_def Hash_eq)

lemma length_WriteBE32 [simp]: "length (WriteBE32 x) = 4"
  by (simp add: WriteBE32_def WriteLE32_def)

lemma length_fips_sha256 [simp]: "length (fips_sha256 m) = 32"
  by (simp add: fips_sha256_def Let_def length_concat o_def sum_list_triv del: upt_rec_numeral)

lemma length_fips_sha512 [simp]: "length (fips_sha512 m) = 64"
  by (simp add: fips_sha512_def Let_def length_concat o_def sum_list_triv del: upt_rec_numeral)

lemma length_Hash [simp]: "length (Hash p) = 32"
  by (simp add: Hash_eq)

text \<open>
  C18. Hashing a message with \<open>CSHA256\<close> and \<open>CSHA512\<close>, written in any number of pieces of any size, gives the
  digest FIPS 180-4 defines for the whole message; the constants of the code are the leading fractional
  bits of the cube and square roots of the first primes, as the standard requires.
\<close>

theorem sha2_meets_standard:
  "CSHA256_Finalize (fold CSHA256_Write pieces CSHA256_init) = fips_sha256 (concat pieces) \<and>
   CSHA512_Finalize (fold CSHA512_Write pieces CSHA512_init) = fips_sha512 (concat pieces) \<and>
   root_fracs 3 32 first_primes (map uint (concat [sha256_k0, sha256_k1, sha256_k2, sha256_k3])) \<and>
   root_fracs 3 64 first_primes (map uint (concat [sha512_k0, sha512_k1, sha512_k2, sha512_k3, sha512_k4])) \<and>
   root_fracs 2 32 first_primes (map uint sha256_Initialize) \<and> root_fracs 2 64 first_primes (map uint sha512_Initialize)"
  by (intro conjI CSHA256_Finalize_absorbed CSHA512_Finalize_absorbed CSHA256_pieces CSHA512_pieces
      sha256_constants sha512_constants sha2_initial_values)

section \<open>HMAC as RFC 2104 defines it\<close>

definition rfc2104_hmac :: "(byte list \<Rightarrow> byte list) \<Rightarrow> nat \<Rightarrow> byte list \<Rightarrow> byte list \<Rightarrow> byte list" where
  "rfc2104_hmac H B K text =
     (let K0 = (if length K \<le> B then K else H K) in
      let K1 = K0 @ replicate (B - length K0) 0
      in H (map (\<lambda>x. x XOR 0x5c) K1 @ H (map (\<lambda>x. x XOR 0x36) K1 @ text)))"

lemma ipad_from_opad: "(x XOR 0x5c) XOR 0x6a = (x XOR 0x36 :: byte)"
  by (simp add: xor.assoc)

lemma fold_CHMAC_SHA256_Write: "fold CHMAC_SHA256_Write ps h = (fst h, fold CSHA256_Write ps (snd h))"
  by (induction ps arbitrary: h) (simp_all add: CHMAC_SHA256_Write_def)

lemma fold_CHMAC_SHA512_Write: "fold CHMAC_SHA512_Write ps h = (fst h, fold CSHA512_Write ps (snd h))"
  by (induction ps arbitrary: h) (simp_all add: CHMAC_SHA512_Write_def)

lemma sha256_digest_pieces: "CSHA256_Finalize (fold CSHA256_Write ds CSHA256_init) = fips_sha256 (concat ds)"
  by (rule CSHA256_Finalize_absorbed [OF CSHA256_pieces])

lemma sha512_digest_pieces: "CSHA512_Finalize (fold CSHA512_Write ds CSHA512_init) = fips_sha512 (concat ds)"
  by (rule CSHA512_Finalize_absorbed [OF CSHA512_pieces])

lemma hmac256_of_blocks:
  "CHMAC_SHA256_Finalize (CSHA256_Write ko CSHA256_init, fold CSHA256_Write ps (CSHA256_Write ki CSHA256_init)) =
   fips_sha256 (ko @ fips_sha256 (ki @ concat ps))"
  using sha256_digest_pieces [of "[ko, fips_sha256 (ki @ concat ps)]"] sha256_digest_pieces [of "ki # ps"]
  by (simp add: CHMAC_SHA256_Finalize_def)

lemma hmac512_of_blocks:
  "CHMAC_SHA512_Finalize (CSHA512_Write ko CSHA512_init, fold CSHA512_Write ps (CSHA512_Write ki CSHA512_init)) =
   fips_sha512 (ko @ fips_sha512 (ki @ concat ps))"
  using sha512_digest_pieces [of "[ko, fips_sha512 (ki @ concat ps)]"] sha512_digest_pieces [of "ki # ps"]
  by (simp add: CHMAC_SHA512_Finalize_def)

lemma CHMAC_SHA256_meets_rfc2104:
  "CHMAC_SHA256_Finalize (fold CHMAC_SHA256_Write pieces (CHMAC_SHA256_init key)) =
     rfc2104_hmac fips_sha256 64 key (concat pieces)"
  using sha256_digest_pieces [of "[key]"]
  by (simp add: CHMAC_SHA256_init_def Let_def fold_CHMAC_SHA256_Write hmac256_of_blocks rfc2104_hmac_def
      ipad_from_opad o_def)

lemma CHMAC_SHA512_meets_rfc2104:
  "CHMAC_SHA512_Finalize (fold CHMAC_SHA512_Write pieces (CHMAC_SHA512_init key)) =
     rfc2104_hmac fips_sha512 128 key (concat pieces)"
  using sha512_digest_pieces [of "[key]"]
  by (simp add: CHMAC_SHA512_init_def Let_def fold_CHMAC_SHA512_Write hmac512_of_blocks rfc2104_hmac_def
      ipad_from_opad o_def)

text \<open>
  C19. The keyed hash of \<open>CHMAC_SHA256\<close> and \<open>CHMAC_SHA512\<close>, fed in any pieces, is the HMAC of RFC 2104 over
  SHA-256 and SHA-512, for keys of any length.
\<close>

theorem hmac_meets_rfc2104:
  "CHMAC_SHA256_Finalize (fold CHMAC_SHA256_Write pieces (CHMAC_SHA256_init key)) =
     rfc2104_hmac fips_sha256 64 key (concat pieces) \<and>
   CHMAC_SHA512_Finalize (fold CHMAC_SHA512_Write pieces (CHMAC_SHA512_init key)) =
     rfc2104_hmac fips_sha512 128 key (concat pieces)"
  using CHMAC_SHA256_meets_rfc2104 CHMAC_SHA512_meets_rfc2104 by blast

section \<open>SipHash\<close>

lemma list8:
  assumes "length xs = 8"
  obtains x0 x1 x2 x3 x4 x5 x6 x7 where "xs = [x0, x1, x2, x3, x4, x5, x6, x7]"
  using assms by (auto simp: eval_nat_numeral length_Suc_conv)

lemma sip_write_word:
  assumes "sip_tmp h = 0" "sip_count h mod 8 = 0" "length bs = 8"
  shows "CSipHasher_Write (bs @ data) h = CSipHasher_Write data (CSipHasher_Write64 (GetUint64 bs 0) h)"
proof -
  obtain q where q: "sip_count h = 8 * q" using assms(2) by auto
  have m: "(8 * q + i) mod 8 = i" if "0 \<le> i" "i < 8" for i using that by (simp add: mod_add_eq)
  obtain b0 b1 b2 b3 b4 b5 b6 b7 where bs: "bs = [b0, b1, b2, b3, b4, b5, b6, b7]" using list8 [OF assms(3)] .
  obtain v t c where h: "h = \<lparr>sip_v = v, sip_tmp = t, sip_count = c\<rparr>" by (cases h) auto
  have "(8 * q + 8) mod 8 = 0" by simp
  then show ?thesis
    using assms(1) q m [of 0] m [of 1] m [of 2] m [of 3] m [of 4] m [of 5] m [of 6] m [of 7]
    by (simp add: h bs GetUint64_def CSipHasher_Write64_def or.assoc add.commute)
qed


lemma sip_write_64:
  "sip_tmp (CSipHasher_Write64 d h) = sip_tmp h" "sip_count (CSipHasher_Write64 d h) = sip_count h + 8"
  by (simp_all add: CSipHasher_Write64_def)

lemma GetUint64_drop: "GetUint64 (drop (i * 8) val) 0 = GetUint64 val i"
  by (simp add: GetUint64_def)

lemma GetUint64_take: "8 \<le> length ys \<Longrightarrow> GetUint64 (take 8 ys) 0 = GetUint64 ys 0"
  by (simp add: GetUint64_def)

lemma sip_write_next:
  assumes "sip_tmp h = 0" "sip_count h mod 8 = 0" "length val = (i + 1) * 8 + n"
  shows "CSipHasher_Write (drop (i * 8) val) h =
    CSipHasher_Write (drop ((i + 1) * 8) val) (CSipHasher_Write64 (GetUint64 val i) h)"
proof -
  have "drop (i * 8) val = take 8 (drop (i * 8) val) @ drop ((i + 1) * 8) val"
    by (simp add: algebra_simps) (metis append_take_drop_id drop_drop)
  moreover have "length (take 8 (drop (i * 8) val)) = 8" "8 \<le> length (drop (i * 8) val)" using assms(3) by simp_all
  ultimately show ?thesis
    using sip_write_word [OF assms(1,2), of "take 8 (drop (i * 8) val)"] by (metis GetUint64_drop GetUint64_take)
qed

lemma sip_write_uint256:
  assumes "length val = 32"
  shows "CSipHasher_Write val (CSipHasher_init k0 k1) =
    CSipHasher_Write64 (GetUint64 val 3) (CSipHasher_Write64 (GetUint64 val 2)
      (CSipHasher_Write64 (GetUint64 val 1) (CSipHasher_Write64 (GetUint64 val 0) (CSipHasher_init k0 k1))))"
proof -
  let ?h = "CSipHasher_init k0 k1"
  have h: "sip_tmp ?h = 0" "sip_count ?h = 0" by (simp_all add: CSipHasher_init_def)
  note step = sip_write_next [where val = val, simplified sip_write_64]
  show ?thesis
    using step [of ?h 0 24] step [of "CSipHasher_Write64 (GetUint64 val 0) ?h" 1 16]
      step [of "CSipHasher_Write64 (GetUint64 val 1) (CSipHasher_Write64 (GetUint64 val 0) ?h)" 2 8]
      step [of "CSipHasher_Write64 (GetUint64 val 2) (CSipHasher_Write64 (GetUint64 val 1) (CSipHasher_Write64 (GetUint64 val 0) ?h))" 3 0]
      assms h
    by (simp add: sip_write_64)
qed

text \<open>
  The specialised \<open>SipHashUint256\<close> is, as its comment says, the general hasher fed with the four 64-bit
  words of the value, and also with its 32 bytes.
\<close>

lemma SipHashUint256_equals_general:
  assumes "length val = 32"
  shows "SipHashUint256 k0 k1 val =
      CSipHasher_Finalize (CSipHasher_Write64 (GetUint64 val 3) (CSipHasher_Write64 (GetUint64 val 2)
        (CSipHasher_Write64 (GetUint64 val 1) (CSipHasher_Write64 (GetUint64 val 0) (CSipHasher_init k0 k1))))) \<and>
    SipHashUint256 k0 k1 val = CSipHasher_Finalize (CSipHasher_Write val (CSipHasher_init k0 k1))"
proof -
  obtain a1 b1 c1 d1 where r1: "SIPROUND (SIPROUND (0x736f6d6570736575 XOR k0, 0x646f72616e646f6d XOR k1,
      0x6c7967656e657261 XOR k0, (0x7465646279746573 XOR k1) XOR GetUint64 val 0)) = (a1, b1, c1, d1)"
    by (metis prod_cases4)
  obtain a2 b2 c2 d2 where r2: "SIPROUND (SIPROUND (a1 XOR GetUint64 val 0, b1, c1, d1 XOR GetUint64 val 1)) = (a2, b2, c2, d2)"
    by (metis prod_cases4)
  obtain a3 b3 c3 d3 where r3: "SIPROUND (SIPROUND (a2 XOR GetUint64 val 1, b2, c2, d2 XOR GetUint64 val 2)) = (a3, b3, c3, d3)"
    by (metis prod_cases4)
  obtain a4 b4 c4 d4 where r4: "SIPROUND (SIPROUND (a3 XOR GetUint64 val 2, b3, c3, d3 XOR GetUint64 val 3)) = (a4, b4, c4, d4)"
    by (metis prod_cases4)
  obtain a5 b5 c5 d5 where r5: "SIPROUND (SIPROUND (a4 XOR GetUint64 val 3, b4, c4, d4 XOR push_bit 59 4)) = (a5, b5, c5, d5)"
    by (metis prod_cases4)
  have "push_bit 56 32 = (push_bit 59 4 :: uint64_t)" by simp
  then show ?thesis
    unfolding sip_write_uint256 [OF assms] conj_absorb
    using r1 r2 r3 r4 r5
    by (simp add: SipHashUint256_def CSipHasher_Finalize_def CSipHasher_Write64_def CSipHasher_init_def sip_absorb_def
        sip_final_def Let_def)
qed

end
