(* ===== verification/Transaction.thy ===== *)
theory Transaction
  imports Hashing Consensus
begin

text \<open>
  Transactions: \<^verbatim>\<open>src/primitives/transaction.h\<close>, \<^verbatim>\<open>src/primitives/transaction.cpp\<close> and the proof types of
  \<^verbatim>\<open>src/zcash/Proof.hpp\<close>. The theory has the data types, their serialization in the Sprout, Overwinter and
  Sapling formats with the proof that each format is exact, the constructors with the cached hash, and the
  sums of transparent and shielded values.
\<close>

unbundle bit_operations_syntax

section \<open>Transaction parts\<close>

record COutPoint =
  op_hash :: uint256
  op_n :: uint32_t

definition COutPoint_null :: COutPoint where
  "COutPoint_null = \<lparr>op_hash = replicate 32 0, op_n = - 1\<rparr>"

definition COutPoint_IsNull :: "COutPoint \<Rightarrow> bool" where
  "COutPoint_IsNull p \<longleftrightarrow> list_all (\<lambda>b. b = 0) (op_hash p) \<and> op_n p = - 1"

record CTxIn =
  prevout :: COutPoint
  scriptSig :: CScript
  nSequence :: uint32_t

definition CTxIn_IsFinal :: "CTxIn \<Rightarrow> bool" where
  "CTxIn_IsFinal i \<longleftrightarrow> nSequence i = - 1"

record CTxOut =
  nValue :: CAmount
  scriptPubKey :: CScript

definition CTxOut_null :: CTxOut where
  "CTxOut_null = \<lparr>nValue = - 1, scriptPubKey = []\<rparr>"

definition CTxOut_IsNull :: "CTxOut \<Rightarrow> bool" where
  "CTxOut_IsNull o1 \<longleftrightarrow> nValue o1 = - 1"

record SpendDescription =
  sd_cv :: uint256
  sd_anchor :: uint256
  sd_nullifier :: uint256
  sd_rk :: uint256
  sd_zkproof :: "byte list"
  sd_spendAuthSig :: "byte list"

record OutputDescription =
  od_cv :: uint256
  od_cmu :: uint256
  od_ephemeralKey :: uint256
  od_encCiphertext :: "byte list"
  od_outCiphertext :: "byte list"
  od_zkproof :: "byte list"

record CompressedG1 =
  g1_y_lsb :: bool
  g1_x :: "byte list"

record CompressedG2 =
  g2_y_gt :: bool
  g2_x :: "byte list"

record PHGRProof =
  g_A :: CompressedG1
  g_A_prime :: CompressedG1
  g_B :: CompressedG2
  g_B_prime :: CompressedG1
  g_C :: CompressedG1
  g_C_prime :: CompressedG1
  g_K :: CompressedG1
  g_H :: CompressedG1

datatype SproutProof = PHGR PHGRProof | Groth "byte list"

record JSDescription =
  vpub_old :: CAmount
  vpub_new :: CAmount
  js_anchor :: uint256
  js_nullifiers :: "uint256 list"
  js_commitments :: "uint256 list"
  js_ephemeralKey :: uint256
  js_ciphertexts :: "byte list list"
  js_randomSeed :: uint256
  js_macs :: "uint256 list"
  js_proof :: SproutProof

definition GROTH_PROOF_SIZE :: nat where "GROTH_PROOF_SIZE = 48 + 96 + 48"
definition ZC_NUM_JS_INPUTS :: nat where "ZC_NUM_JS_INPUTS = 2"
definition ZC_NUM_JS_OUTPUTS :: nat where "ZC_NUM_JS_OUTPUTS = 2"
definition ZC_NOTEPLAINTEXT_SIZE :: nat where "ZC_NOTEPLAINTEXT_SIZE = 1 + 8 + 32 + 32 + 512"
definition NOTEENCRYPTION_AUTH_BYTES :: nat where "NOTEENCRYPTION_AUTH_BYTES = 16"
definition ZC_SAPLING_ENCCIPHERTEXT_SIZE :: nat where
  "ZC_SAPLING_ENCCIPHERTEXT_SIZE = (1 + 11 + 8 + 32 + 512) + NOTEENCRYPTION_AUTH_BYTES"
definition ZC_SAPLING_OUTCIPHERTEXT_SIZE :: nat where
  "ZC_SAPLING_OUTCIPHERTEXT_SIZE = (32 + 32) + NOTEENCRYPTION_AUTH_BYTES"
definition OUTPUTDESCRIPTION_SIZE :: nat where "OUTPUTDESCRIPTION_SIZE = 948"
definition SPENDDESCRIPTION_SIZE :: nat where "SPENDDESCRIPTION_SIZE = 384"
definition OVERWINTER_TX_VERSION :: int where "OVERWINTER_TX_VERSION = 3"
definition SAPLING_TX_VERSION :: int where "SAPLING_TX_VERSION = 4"
definition OVERWINTER_VERSION_GROUP_ID :: uint32_t where "OVERWINTER_VERSION_GROUP_ID = 0x03C48270"
definition SAPLING_VERSION_GROUP_ID :: uint32_t where "SAPLING_VERSION_GROUP_ID = 0x892F2085"

definition JOINSPLIT_SIZE :: "int \<Rightarrow> nat" where
  "JOINSPLIT_SIZE transactionVersion = (if transactionVersion \<ge> SAPLING_TX_VERSION then 1698 else 1802)"

section \<open>Serialization of the parts\<close>

definition ser_COutPoint :: "COutPoint \<Rightarrow> byte list" where
  "ser_COutPoint p = op_hash p @ ser_writedata32 (op_n p)"

definition unser_COutPoint :: "COutPoint reader" where
  "unser_COutPoint =
     rbind (read_bytes 32) (\<lambda>h. rbind ser_readdata32 (\<lambda>n. rreturn \<lparr>op_hash = h, op_n = n\<rparr>))"

definition ser_CTxIn :: "CTxIn \<Rightarrow> byte list" where
  "ser_CTxIn i = ser_COutPoint (prevout i) @ ser_bytes (scriptSig i) @ ser_writedata32 (nSequence i)"

definition unser_CTxIn :: "CTxIn reader" where
  "unser_CTxIn =
     rbind unser_COutPoint (\<lambda>p. rbind unser_bytes (\<lambda>s. rbind ser_readdata32 (\<lambda>n.
       rreturn \<lparr>prevout = p, scriptSig = s, nSequence = n\<rparr>)))"

definition ser_CTxOut :: "CTxOut \<Rightarrow> byte list" where
  "ser_CTxOut o1 = ser_int64 (nValue o1) @ ser_bytes (scriptPubKey o1)"

definition unser_CTxOut :: "CTxOut reader" where
  "unser_CTxOut =
     rbind unser_int64 (\<lambda>v. rbind unser_bytes (\<lambda>s. rreturn \<lparr>nValue = v, scriptPubKey = s\<rparr>))"

definition ser_SpendDescription :: "SpendDescription \<Rightarrow> byte list" where
  "ser_SpendDescription d =
     sd_cv d @ sd_anchor d @ sd_nullifier d @ sd_rk d @ sd_zkproof d @ sd_spendAuthSig d"

definition unser_SpendDescription :: "SpendDescription reader" where
  "unser_SpendDescription =
     rbind (read_bytes 32) (\<lambda>cv. rbind (read_bytes 32) (\<lambda>anchor. rbind (read_bytes 32) (\<lambda>nullifier.
     rbind (read_bytes 32) (\<lambda>rk. rbind (read_bytes GROTH_PROOF_SIZE) (\<lambda>zkproof. rbind (read_bytes 64) (\<lambda>spendAuthSig.
       rreturn \<lparr>sd_cv = cv, sd_anchor = anchor, sd_nullifier = nullifier, sd_rk = rk, sd_zkproof = zkproof,
         sd_spendAuthSig = spendAuthSig\<rparr>))))))"

definition ser_OutputDescription :: "OutputDescription \<Rightarrow> byte list" where
  "ser_OutputDescription d =
     od_cv d @ od_cmu d @ od_ephemeralKey d @ od_encCiphertext d @ od_outCiphertext d @ od_zkproof d"

definition unser_OutputDescription :: "OutputDescription reader" where
  "unser_OutputDescription =
     rbind (read_bytes 32) (\<lambda>cv. rbind (read_bytes 32) (\<lambda>cmu. rbind (read_bytes 32) (\<lambda>ephemeralKey.
     rbind (read_bytes ZC_SAPLING_ENCCIPHERTEXT_SIZE) (\<lambda>enc. rbind (read_bytes ZC_SAPLING_OUTCIPHERTEXT_SIZE) (\<lambda>out.
     rbind (read_bytes GROTH_PROOF_SIZE) (\<lambda>zkproof.
       rreturn \<lparr>od_cv = cv, od_cmu = cmu, od_ephemeralKey = ephemeralKey, od_encCiphertext = enc,
         od_outCiphertext = out, od_zkproof = zkproof\<rparr>))))))"

definition G1_PREFIX_MASK :: byte where "G1_PREFIX_MASK = 0x02"
definition G2_PREFIX_MASK :: byte where "G2_PREFIX_MASK = 0x0a"

definition ser_CompressedG1 :: "CompressedG1 \<Rightarrow> byte list" where
  "ser_CompressedG1 p = ser_writedata8 (if g1_y_lsb p then G1_PREFIX_MASK OR 1 else G1_PREFIX_MASK) @ g1_x p"

definition unser_CompressedG1 :: "CompressedG1 reader" where
  "unser_CompressedG1 =
     rbind ser_readdata8 (\<lambda>leadingByte.
       if leadingByte AND NOT 1 \<noteq> G1_PREFIX_MASK then rthrow ''lead byte of G1 point not recognized''
       else rbind (read_bytes 32) (\<lambda>x. rreturn \<lparr>g1_y_lsb = (leadingByte AND 1 \<noteq> 0), g1_x = x\<rparr>))"

definition ser_CompressedG2 :: "CompressedG2 \<Rightarrow> byte list" where
  "ser_CompressedG2 p = ser_writedata8 (if g2_y_gt p then G2_PREFIX_MASK OR 1 else G2_PREFIX_MASK) @ g2_x p"

definition unser_CompressedG2 :: "CompressedG2 reader" where
  "unser_CompressedG2 =
     rbind ser_readdata8 (\<lambda>leadingByte.
       if leadingByte AND NOT 1 \<noteq> G2_PREFIX_MASK then rthrow ''lead byte of G2 point not recognized''
       else rbind (read_bytes 64) (\<lambda>x. rreturn \<lparr>g2_y_gt = (leadingByte AND 1 \<noteq> 0), g2_x = x\<rparr>))"

definition ser_PHGRProof :: "PHGRProof \<Rightarrow> byte list" where
  "ser_PHGRProof p =
     ser_CompressedG1 (g_A p) @ ser_CompressedG1 (g_A_prime p) @ ser_CompressedG2 (g_B p) @
     ser_CompressedG1 (g_B_prime p) @ ser_CompressedG1 (g_C p) @ ser_CompressedG1 (g_C_prime p) @
     ser_CompressedG1 (g_K p) @ ser_CompressedG1 (g_H p)"

definition unser_PHGRProof :: "PHGRProof reader" where
  "unser_PHGRProof =
     rbind unser_CompressedG1 (\<lambda>a. rbind unser_CompressedG1 (\<lambda>a'. rbind unser_CompressedG2 (\<lambda>b.
     rbind unser_CompressedG1 (\<lambda>b'. rbind unser_CompressedG1 (\<lambda>c. rbind unser_CompressedG1 (\<lambda>c'.
     rbind unser_CompressedG1 (\<lambda>k. rbind unser_CompressedG1 (\<lambda>h.
       rreturn \<lparr>g_A = a, g_A_prime = a', g_B = b, g_B_prime = b', g_C = c, g_C_prime = c', g_K = k, g_H = h\<rparr>))))))))"

text \<open>Writing can throw as well: the proof in a JoinSplit must be of the kind its transaction format has.\<close>

definition SproutProofSerializer :: "bool \<Rightarrow> SproutProof \<Rightarrow> byte list result" where
  "SproutProofSerializer useGroth p =
     (case p of
        PHGR proof \<Rightarrow>
          (if useGroth then Inl (Throw ''Invalid Sprout proof for transaction format (expected GrothProof, found PHGRProof)'')
           else Inr (ser_PHGRProof proof))
      | Groth proof \<Rightarrow>
          (if \<not> useGroth then Inl (Throw ''Invalid Sprout proof for transaction format (expected PHGRProof, found GrothProof)'')
           else Inr proof))"

definition unser_SproutProof :: "bool \<Rightarrow> SproutProof reader" where
  "unser_SproutProof useGroth =
     (if useGroth then rbind (read_bytes GROTH_PROOF_SIZE) (\<lambda>p. rreturn (Groth p))
      else rbind unser_PHGRProof (\<lambda>p. rreturn (PHGR p)))"

definition js_useGroth :: "uint32_t \<Rightarrow> bool" where
  "js_useGroth header \<longleftrightarrow>
     (let fOverwintered = bit header 31;
          txVersion = uint (header AND 0x7FFFFFFF)
      in fOverwintered \<and> txVersion \<ge> SAPLING_TX_VERSION)"

definition ser_JSDescription :: "uint32_t \<Rightarrow> JSDescription \<Rightarrow> byte list result" where
  "ser_JSDescription header js =
     (case SproutProofSerializer (js_useGroth header) (js_proof js) of
        Inl e \<Rightarrow> Inl e
      | Inr p \<Rightarrow>
          Inr (ser_int64 (vpub_old js) @ ser_int64 (vpub_new js) @ js_anchor js @ ser_elems id (js_nullifiers js) @
               ser_elems id (js_commitments js) @ js_ephemeralKey js @ js_randomSeed js @ ser_elems id (js_macs js) @ p @
               ser_elems id (js_ciphertexts js)))"

definition unser_JSDescription :: "uint32_t \<Rightarrow> JSDescription reader" where
  "unser_JSDescription header =
     rbind unser_int64 (\<lambda>v_old. rbind unser_int64 (\<lambda>v_new. rbind (read_bytes 32) (\<lambda>anchor.
     rbind (unser_elems (read_bytes 32) ZC_NUM_JS_INPUTS) (\<lambda>nullifiers.
     rbind (unser_elems (read_bytes 32) ZC_NUM_JS_OUTPUTS) (\<lambda>commitments.
     rbind (read_bytes 32) (\<lambda>ephemeralKey. rbind (read_bytes 32) (\<lambda>randomSeed.
     rbind (unser_elems (read_bytes 32) ZC_NUM_JS_INPUTS) (\<lambda>macs.
     rbind (unser_SproutProof (js_useGroth header)) (\<lambda>prf.
     rbind (unser_elems (read_bytes (ZC_NOTEPLAINTEXT_SIZE + NOTEENCRYPTION_AUTH_BYTES)) ZC_NUM_JS_OUTPUTS) (\<lambda>ciphertexts.
       rreturn \<lparr>vpub_old = v_old, vpub_new = v_new, js_anchor = anchor, js_nullifiers = nullifiers,
         js_commitments = commitments, js_ephemeralKey = ephemeralKey, js_ciphertexts = ciphertexts,
         js_randomSeed = randomSeed, js_macs = macs, js_proof = prf\<rparr>))))))))))"

section \<open>Transactions\<close>

text \<open>
  \<open>CTransaction\<close> has the members of \<open>CMutableTransaction\<close> and the cached hash. What both classes
  do is defined once on the common members.
\<close>

record CMutableTransaction =
  fOverwintered :: bool
  tx_nVersion :: int
  nVersionGroupId :: uint32_t
  vin :: "CTxIn list"
  vout :: "CTxOut list"
  nLockTime :: uint32_t
  nExpiryHeight :: uint32_t
  valueBalance :: CAmount
  vShieldedSpend :: "SpendDescription list"
  vShieldedOutput :: "OutputDescription list"
  vJoinSplit :: "JSDescription list"
  joinSplitPubKey :: uint256
  joinSplitSig :: "byte list"
  bindingSig :: "byte list"

record CTransaction = CMutableTransaction +
  tx_hash :: uint256

definition SPROUT_MIN_CURRENT_VERSION :: int where "SPROUT_MIN_CURRENT_VERSION = 1"

definition CMutableTransaction_default :: CMutableTransaction where
  "CMutableTransaction_default = \<lparr>fOverwintered = False, tx_nVersion = SPROUT_MIN_CURRENT_VERSION, nVersionGroupId = 0,
     vin = [], vout = [], nLockTime = 0, nExpiryHeight = 0, valueBalance = 0, vShieldedSpend = [], vShieldedOutput = [],
     vJoinSplit = [], joinSplitPubKey = replicate 32 0, joinSplitSig = replicate 64 0, bindingSig = replicate 64 0\<rparr>"

definition GetHeader :: "'a CMutableTransaction_scheme \<Rightarrow> uint32_t" where
  "GetHeader tx =
     (let header = word_of_int (tx_nVersion tx)
      in if fOverwintered tx then header OR push_bit 31 1 else header)"

definition isOverwinterV3 :: "'a CMutableTransaction_scheme \<Rightarrow> bool" where
  "isOverwinterV3 tx \<longleftrightarrow>
     fOverwintered tx \<and> nVersionGroupId tx = OVERWINTER_VERSION_GROUP_ID \<and> tx_nVersion tx = OVERWINTER_TX_VERSION"

definition isSaplingV4 :: "'a CMutableTransaction_scheme \<Rightarrow> bool" where
  "isSaplingV4 tx \<longleftrightarrow>
     fOverwintered tx \<and> nVersionGroupId tx = SAPLING_VERSION_GROUP_ID \<and> tx_nVersion tx = SAPLING_TX_VERSION"

fun ser_JoinSplits :: "uint32_t \<Rightarrow> JSDescription list \<Rightarrow> byte list result" where
  "ser_JoinSplits header [] = Inr []"
| "ser_JoinSplits header (js # jss) =
     (case ser_JSDescription header js of
        Inl e \<Rightarrow> Inl e
      | Inr b \<Rightarrow> (case ser_JoinSplits header jss of Inl e \<Rightarrow> Inl e | Inr bs \<Rightarrow> Inr (b @ bs)))"

definition ser_tx :: "'a CMutableTransaction_scheme \<Rightarrow> byte list result" where
  "ser_tx tx =
     (let header = GetHeader tx in
      if fOverwintered tx \<and> \<not> (isOverwinterV3 tx \<or> isSaplingV4 tx) then Inl (Throw ''Unknown transaction format'')
      else case (if tx_nVersion tx \<ge> 2 then ser_JoinSplits header (vJoinSplit tx) else Inr []) of
        Inl e \<Rightarrow> Inl e
      | Inr js \<Rightarrow>
        Inr (ser_writedata32 header @
             (if fOverwintered tx then ser_writedata32 (nVersionGroupId tx) else []) @
             ser_vector ser_CTxIn (vin tx) @
             ser_vector ser_CTxOut (vout tx) @
             ser_writedata32 (nLockTime tx) @
             (if isOverwinterV3 tx \<or> isSaplingV4 tx then ser_writedata32 (nExpiryHeight tx) else []) @
             (if isSaplingV4 tx then
                ser_int64 (valueBalance tx) @ ser_vector ser_SpendDescription (vShieldedSpend tx) @
                ser_vector ser_OutputDescription (vShieldedOutput tx)
              else []) @
             (if tx_nVersion tx \<ge> 2 then
                WriteCompactSize (of_nat (length (vJoinSplit tx))) @ js @
                (if length (vJoinSplit tx) > 0 then joinSplitPubKey tx @ joinSplitSig tx else [])
              else []) @
             (if isSaplingV4 tx \<and> \<not> (vShieldedSpend tx = [] \<and> vShieldedOutput tx = []) then bindingSig tx else [])))"

text \<open>
  Reading fills in the members of an existing object; members the format does not carry keep their
  values. The steps below are the \<open>READWRITE\<close>s in order, each guarded as in the code.
\<close>

type_synonym tx = CMutableTransaction

definition rwhen :: "bool \<Rightarrow> (tx \<Rightarrow> tx reader) \<Rightarrow> tx \<Rightarrow> tx reader" where
  "rwhen c f tx = (if c then f tx else rreturn tx)"

definition read_header :: "tx \<Rightarrow> tx reader" where
  "read_header tx =
     rbind ser_readdata32 (\<lambda>header.
       rreturn (tx\<lparr>fOverwintered := bit header 31, tx_nVersion := uint (header AND 0x7FFFFFFF)\<rparr>))"

definition read_group :: "tx \<Rightarrow> tx reader" where
  "read_group tx = rbind ser_readdata32 (\<lambda>g. rreturn (tx\<lparr>nVersionGroupId := g\<rparr>))"

definition read_transparent :: "tx \<Rightarrow> tx reader" where
  "read_transparent tx =
     rbind (unser_vector unser_CTxIn) (\<lambda>i. rbind (unser_vector unser_CTxOut) (\<lambda>o1. rbind ser_readdata32 (\<lambda>l.
       rreturn (tx\<lparr>vin := i, vout := o1, nLockTime := l\<rparr>))))"

definition read_expiry :: "tx \<Rightarrow> tx reader" where
  "read_expiry tx = rbind ser_readdata32 (\<lambda>e. rreturn (tx\<lparr>nExpiryHeight := e\<rparr>))"

definition read_sapling :: "tx \<Rightarrow> tx reader" where
  "read_sapling tx =
     rbind unser_int64 (\<lambda>v. rbind (unser_vector unser_SpendDescription) (\<lambda>sp.
     rbind (unser_vector unser_OutputDescription) (\<lambda>op.
       rreturn (tx\<lparr>valueBalance := v, vShieldedSpend := sp, vShieldedOutput := op\<rparr>))))"

definition read_joinsplit_sig :: "tx \<Rightarrow> tx reader" where
  "read_joinsplit_sig tx =
     rbind (read_bytes 32) (\<lambda>k. rbind (read_bytes 64) (\<lambda>sig. rreturn (tx\<lparr>joinSplitPubKey := k, joinSplitSig := sig\<rparr>)))"

definition read_joinsplits :: "tx \<Rightarrow> tx reader" where
  "read_joinsplits tx =
     rbind (unser_vector (unser_JSDescription (GetHeader tx))) (\<lambda>jss.
       rwhen (length jss > 0) read_joinsplit_sig (tx\<lparr>vJoinSplit := jss\<rparr>))"

definition read_binding_sig :: "tx \<Rightarrow> tx reader" where
  "read_binding_sig tx = rbind (read_bytes 64) (\<lambda>sig. rreturn (tx\<lparr>bindingSig := sig\<rparr>))"

definition unser_tx :: "tx \<Rightarrow> tx reader" where
  "unser_tx tx0 =
     rbind (read_header tx0) (\<lambda>tx.
     rbind (rwhen (fOverwintered tx) read_group tx) (\<lambda>tx.
     if fOverwintered tx \<and> \<not> (isOverwinterV3 tx \<or> isSaplingV4 tx) then rthrow ''Unknown transaction format''
     else
     rbind (read_transparent tx) (\<lambda>tx.
     rbind (rwhen (isOverwinterV3 tx \<or> isSaplingV4 tx) read_expiry tx) (\<lambda>tx.
     rbind (rwhen (isSaplingV4 tx) read_sapling tx) (\<lambda>tx.
     rbind (rwhen (tx_nVersion tx \<ge> 2) read_joinsplits tx) (\<lambda>tx.
     rwhen (isSaplingV4 tx \<and> \<not> (vShieldedSpend tx = [] \<and> vShieldedOutput tx = [])) read_binding_sig tx))))))"

text \<open>The constructor that deserializes starts from the default members.\<close>

definition CMutableTransaction_deserialize :: "tx reader" where
  "CMutableTransaction_deserialize = unser_tx CMutableTransaction_default"

definition UpdateHash :: "CTransaction \<Rightarrow> CTransaction" where
  "UpdateHash tx = tx\<lparr>tx_hash := (case ser_tx tx of Inr bs \<Rightarrow> Hash bs | Inl _ \<Rightarrow> tx_hash tx)\<rparr>"

definition CTransaction_members :: "'a CMutableTransaction_scheme \<Rightarrow> CTransaction" where
  "CTransaction_members tx = \<lparr>fOverwintered = fOverwintered tx, tx_nVersion = tx_nVersion tx, nVersionGroupId = nVersionGroupId tx,
     vin = vin tx, vout = vout tx, nLockTime = nLockTime tx, nExpiryHeight = nExpiryHeight tx, valueBalance = valueBalance tx,
     vShieldedSpend = vShieldedSpend tx, vShieldedOutput = vShieldedOutput tx, vJoinSplit = vJoinSplit tx,
     joinSplitPubKey = joinSplitPubKey tx, joinSplitSig = joinSplitSig tx, bindingSig = bindingSig tx, tx_hash = replicate 32 0\<rparr>"

definition CTransaction_copy :: "tx \<Rightarrow> CTransaction" where
  "CTransaction_copy tx = UpdateHash (CTransaction_members tx)"

definition CTransaction_move :: "tx \<Rightarrow> CTransaction" where
  "CTransaction_move tx = UpdateHash ((CTransaction_members tx)\<lparr>bindingSig := replicate 64 0\<rparr>)"

definition CMutableTransaction_of :: "CTransaction \<Rightarrow> tx" where
  "CMutableTransaction_of tx = CMutableTransaction.truncate tx"

definition CTransaction_deserialize :: "CTransaction reader" where
  "CTransaction_deserialize = rbind CMutableTransaction_deserialize (\<lambda>tx. rreturn (CTransaction_move tx))"

definition CTransaction_Unserialize :: "CTransaction \<Rightarrow> CTransaction reader" where
  "CTransaction_Unserialize tx0 = rbind (unser_tx (CMutableTransaction_of tx0)) (\<lambda>tx. rreturn (CTransaction_copy tx))"

definition CTransaction_assign :: "CTransaction \<Rightarrow> CTransaction \<Rightarrow> CTransaction" where
  "CTransaction_assign this tx = tx"

definition tx_IsNull :: "'a CMutableTransaction_scheme \<Rightarrow> bool" where
  "tx_IsNull tx \<longleftrightarrow> vin tx = [] \<and> vout tx = []"

definition IsCoinBase :: "'a CMutableTransaction_scheme \<Rightarrow> bool" where
  "IsCoinBase tx \<longleftrightarrow> length (vin tx) = 1 \<and> COutPoint_IsNull (prevout (vin tx ! 0))"

section \<open>Values\<close>

text \<open>
  Sums of amounts, checked after every addend. The check of the addend precedes any use of the sum, so
  an addition that would leave the 64-bit range ends in the throw as well.
\<close>

fun sum_checked :: "string \<Rightarrow> CAmount list \<Rightarrow> CAmount \<Rightarrow> CAmount result" where
  "sum_checked msg [] acc = Inr acc"
| "sum_checked msg (v # vs) acc =
     (let acc = acc + v
      in if \<not> MoneyRange v \<or> \<not> MoneyRange acc then Inl (Throw msg) else sum_checked msg vs acc)"

definition GetValueOut :: "'a CMutableTransaction_scheme \<Rightarrow> CAmount result" where
  "GetValueOut tx =
     (let msg = ''CTransaction::GetValueOut(): value out of range'' in
      case sum_checked msg (map nValue (vout tx)) 0 of
        Inl e \<Rightarrow> Inl e
      | Inr nValueOut \<Rightarrow>
          (case (if valueBalance tx \<le> 0 then sum_checked msg [- valueBalance tx] nValueOut else Inr nValueOut) of
             Inl e \<Rightarrow> Inl e
           | Inr nValueOut \<Rightarrow> sum_checked msg (map vpub_old (vJoinSplit tx)) nValueOut))"

definition GetShieldedValueIn :: "'a CMutableTransaction_scheme \<Rightarrow> CAmount result" where
  "GetShieldedValueIn tx =
     (let msg = ''CTransaction::GetShieldedValueIn(): value out of range'' in
      case (if valueBalance tx \<ge> 0 then sum_checked msg [valueBalance tx] 0 else Inr 0) of
        Inl e \<Rightarrow> Inl e
      | Inr nValueIn \<Rightarrow> sum_checked msg (map vpub_new (vJoinSplit tx)) nValueIn)"

section \<open>Formats that are exact\<close>

text \<open>
  A format is exact when, besides being read back, every byte string it accepts is the one that would be
  written for the value it gives: no value has two encodings.
\<close>

locale exact_codec = codec +
  assumes exact: "unser s = Inr (x, r) \<Longrightarrow> ok x \<and> s = ser x @ r"
begin

lemma elems_exact:
  "unser_elems unser n s = Inr (xs, r) \<Longrightarrow> length xs = n \<and> (\<forall>x \<in> set xs. ok x) \<and> s = ser_elems ser xs @ r"
proof (induction n arbitrary: s xs)
  case 0
  then show ?case by (simp add: rreturn_def ser_elems_def)
next
  case (Suc n)
  from Suc.prems obtain x t ys where x: "unser s = Inr (x, t)" and ys: "unser_elems unser n t = Inr (ys, r)" "xs = x # ys"
    by (auto simp: rbind_Inr rreturn_def)
  from exact [OF x] Suc.IH [OF ys(1)] ys(2) show ?case by (simp add: ser_elems_def)
qed

lemma array_exact: "exact_codec (ser_elems ser) (unser_elems unser n) (\<lambda>xs. length xs = n \<and> (\<forall>x \<in> set xs. ok x))"
  by unfold_locales (auto simp: elems dest: elems_exact)

lemma vector_exact: "exact_codec (ser_vector ser) (unser_vector unser) (\<lambda>xs. fits xs \<and> (\<forall>x \<in> set xs. ok x))"
proof (intro exact_codec.intro vector_codec exact_codec_axioms.intro)
  fix s xs r
  assume "unser_vector unser s = Inr (xs, r)"
  then obtain n t where n: "ReadCompactSize s = Inr (n, t)" and xs: "unser_elems unser (unat n) t = Inr (xs, r)"
    by (auto simp: unser_vector_def rbind_Inr)
  have "length xs = unat n" using elems_exact [OF xs] by simp
  moreover have "n \<le> MAX_SIZE" "s = WriteCompactSize n @ t" using ReadCompactSize_exact [OF n] by simp_all
  ultimately show "(fits xs \<and> (\<forall>x \<in> set xs. ok x)) \<and> s = ser_vector ser xs @ r"
    using elems_exact [OF xs] by (simp add: fits_def word_le_nat_alt ser_vector_def)
qed

end

interpretation xu8: exact_codec ser_writedata8 ser_readdata8 "\<lambda>_. True"
  by unfold_locales (simp add: readdata_exact)

interpretation xu32: exact_codec ser_writedata32 ser_readdata32 "\<lambda>_. True"
  by unfold_locales (simp add: readdata_exact)

interpretation xi64: exact_codec ser_int64 unser_int64 "\<lambda>x. - (2 ^ 63) \<le> x \<and> x < 2 ^ 63"
proof unfold_locales
  fix s x r
  assume "unser_int64 s = Inr (x, r)"
  then obtain w where w: "ser_readdata64 s = Inr (w, r)" "x = sint w" by (auto simp: unser_int64_def rbind_Inr rreturn_def)
  then show "(- (2 ^ 63) \<le> x \<and> x < 2 ^ 63) \<and> s = ser_int64 x @ r"
    using readdata_exact(4) [OF w(1)] sint_greater_eq [of w] sint_less [of w] by (simp add: ser_int64_def)
qed

interpretation xblob: exact_codec "\<lambda>x. x" "read_bytes n" "\<lambda>x. length x = n" for n
  by unfold_locales (auto dest: read_bytes_exact)

interpretation xbytes: exact_codec ser_bytes unser_bytes fits
proof unfold_locales
  fix s xs r
  assume "unser_bytes s = Inr (xs, r)"
  then obtain n t where n: "ReadCompactSize s = Inr (n, t)" and xs: "read_bytes (unat n) t = Inr (xs, r)"
    by (auto simp: unser_bytes_def rbind_Inr)
  then show "fits xs \<and> s = ser_bytes xs @ r"
    using ReadCompactSize_exact [OF n] read_bytes_exact [OF xs] by (auto simp: fits_def word_le_nat_alt ser_bytes_def)
qed

lemma id_elems: "ser_elems id xs = ser_elems (\<lambda>x. x) xs"
  by (simp add: ser_elems_def)

lemmas blobs_exact = xblob.array_exact

interpretation xblobs: exact_codec "ser_elems (\<lambda>x. x)" "unser_elems (read_bytes m) n"
    "\<lambda>xs. length xs = n \<and> (\<forall>x \<in> set xs. length x = m)" for m n
  by (rule xblob.array_exact)

section \<open>The parts are exact\<close>

definition ok_COutPoint :: "COutPoint \<Rightarrow> bool" where
  "ok_COutPoint p \<longleftrightarrow> length (op_hash p) = 32"

definition ok_amount :: "CAmount \<Rightarrow> bool" where
  "ok_amount v \<longleftrightarrow> - (2 ^ 63) \<le> v \<and> v < 2 ^ 63"

definition ok_CTxIn :: "CTxIn \<Rightarrow> bool" where
  "ok_CTxIn i \<longleftrightarrow> ok_COutPoint (prevout i) \<and> fits (scriptSig i)"

definition ok_CTxOut :: "CTxOut \<Rightarrow> bool" where
  "ok_CTxOut o1 \<longleftrightarrow> ok_amount (nValue o1) \<and> fits (scriptPubKey o1)"

definition ok_SpendDescription :: "SpendDescription \<Rightarrow> bool" where
  "ok_SpendDescription d \<longleftrightarrow> length (sd_cv d) = 32 \<and> length (sd_anchor d) = 32 \<and> length (sd_nullifier d) = 32 \<and>
     length (sd_rk d) = 32 \<and> length (sd_zkproof d) = GROTH_PROOF_SIZE \<and> length (sd_spendAuthSig d) = 64"

definition ok_OutputDescription :: "OutputDescription \<Rightarrow> bool" where
  "ok_OutputDescription d \<longleftrightarrow> length (od_cv d) = 32 \<and> length (od_cmu d) = 32 \<and> length (od_ephemeralKey d) = 32 \<and>
     length (od_encCiphertext d) = ZC_SAPLING_ENCCIPHERTEXT_SIZE \<and> length (od_outCiphertext d) = ZC_SAPLING_OUTCIPHERTEXT_SIZE \<and>
     length (od_zkproof d) = GROTH_PROOF_SIZE"

definition ok_G1 :: "CompressedG1 \<Rightarrow> bool" where
  "ok_G1 p \<longleftrightarrow> length (g1_x p) = 32"

definition ok_G2 :: "CompressedG2 \<Rightarrow> bool" where
  "ok_G2 p \<longleftrightarrow> length (g2_x p) = 64"

definition ok_PHGRProof :: "PHGRProof \<Rightarrow> bool" where
  "ok_PHGRProof p \<longleftrightarrow> ok_G1 (g_A p) \<and> ok_G1 (g_A_prime p) \<and> ok_G2 (g_B p) \<and> ok_G1 (g_B_prime p) \<and> ok_G1 (g_C p) \<and>
     ok_G1 (g_C_prime p) \<and> ok_G1 (g_K p) \<and> ok_G1 (g_H p)"

definition ok_SproutProof :: "bool \<Rightarrow> SproutProof \<Rightarrow> bool" where
  "ok_SproutProof useGroth p \<longleftrightarrow>
     (case p of PHGR q \<Rightarrow> \<not> useGroth \<and> ok_PHGRProof q | Groth q \<Rightarrow> useGroth \<and> length q = GROTH_PROOF_SIZE)"

definition ok_JSDescription :: "uint32_t \<Rightarrow> JSDescription \<Rightarrow> bool" where
  "ok_JSDescription header js \<longleftrightarrow> ok_amount (vpub_old js) \<and> ok_amount (vpub_new js) \<and> length (js_anchor js) = 32 \<and>
     length (js_nullifiers js) = ZC_NUM_JS_INPUTS \<and> (\<forall>x \<in> set (js_nullifiers js). length x = 32) \<and>
     length (js_commitments js) = ZC_NUM_JS_OUTPUTS \<and> (\<forall>x \<in> set (js_commitments js). length x = 32) \<and>
     length (js_ephemeralKey js) = 32 \<and> length (js_randomSeed js) = 32 \<and>
     length (js_macs js) = ZC_NUM_JS_INPUTS \<and> (\<forall>x \<in> set (js_macs js). length x = 32) \<and>
     ok_SproutProof (js_useGroth header) (js_proof js) \<and>
     length (js_ciphertexts js) = ZC_NUM_JS_OUTPUTS \<and>
     (\<forall>x \<in> set (js_ciphertexts js). length x = ZC_NOTEPLAINTEXT_SIZE + NOTEENCRYPTION_AUTH_BYTES)"

named_theorems codec_simps \<open>reading what was written, field by field\<close>
named_theorems exact_dests \<open>what a successful read consumed\<close>

lemmas basic_binds [codec_simps] =
  u8.bind [OF TrueI] u32.bind [OF TrueI] i64.bind blob.bind bytes.bind xblobs.bind rreturn_def ok_amount_def append_assoc

lemmas basic_exacts [exact_dests] =
  xu8.exact xu32.exact xi64.exact xblob.exact xbytes.exact xblobs.exact

interpretation outpoint: exact_codec ser_COutPoint unser_COutPoint ok_COutPoint
  by unfold_locales
    (auto simp: ser_COutPoint_def unser_COutPoint_def ok_COutPoint_def codec_simps rbind_Inr dest!: exact_dests)

interpretation txin: exact_codec ser_CTxIn unser_CTxIn ok_CTxIn
  by unfold_locales
    (auto simp: ser_CTxIn_def unser_CTxIn_def ok_CTxIn_def outpoint.bind codec_simps rbind_Inr
      dest!: outpoint.exact exact_dests)

interpretation txout: exact_codec ser_CTxOut unser_CTxOut ok_CTxOut
  by unfold_locales
    (auto simp: ser_CTxOut_def unser_CTxOut_def ok_CTxOut_def codec_simps rbind_Inr dest!: exact_dests)

interpretation spendd: exact_codec ser_SpendDescription unser_SpendDescription ok_SpendDescription
  by unfold_locales
    (auto simp: ser_SpendDescription_def unser_SpendDescription_def ok_SpendDescription_def codec_simps rbind_Inr
      dest!: exact_dests)

interpretation outputd: exact_codec ser_OutputDescription unser_OutputDescription ok_OutputDescription
  by unfold_locales
    (auto simp: ser_OutputDescription_def unser_OutputDescription_def ok_OutputDescription_def codec_simps rbind_Inr
      dest!: exact_dests)

lemma lead_byte:
  fixes b :: byte
  assumes "b AND NOT 1 = m"
  shows "b = (if b AND 1 \<noteq> 0 then m OR 1 else m)"
proof -
  have "b = (b AND NOT 1) OR (b AND 1)" by (rule bit_word_eqI) (auto simp: bit_simps)
  moreover have "b AND 1 = (if b AND 1 \<noteq> 0 then 1 else 0)" by (simp add: and_one_eq odd_iff_mod_2_eq_one)
  ultimately show ?thesis using assms by (metis or.right_neutral)
qed

interpretation g1: exact_codec ser_CompressedG1 unser_CompressedG1 ok_G1
proof unfold_locales
  fix x s
  assume "ok_G1 x"
  then show "unser_CompressedG1 (ser_CompressedG1 x @ s) = Inr (x, s)"
    by (cases "g1_y_lsb x") (simp_all add: ser_CompressedG1_def unser_CompressedG1_def ok_G1_def codec_simps G1_PREFIX_MASK_def)
next
  fix s x r
  assume "unser_CompressedG1 s = Inr (x, r)"
  then obtain b t y where b: "ser_readdata8 s = Inr (b, t)" "b AND NOT 1 = G1_PREFIX_MASK" "read_bytes 32 t = Inr (y, r)"
      "x = \<lparr>g1_y_lsb = (b AND 1 \<noteq> 0), g1_x = y\<rparr>"
    by (auto simp: unser_CompressedG1_def rbind_Inr rreturn_def rthrow_def split: if_splits)
  then show "ok_G1 x \<and> s = ser_CompressedG1 x @ r"
    using xu8.exact [OF b(1)] xblob.exact [OF b(3)] lead_byte [OF b(2)] by (simp add: ok_G1_def ser_CompressedG1_def)
qed

interpretation g2: exact_codec ser_CompressedG2 unser_CompressedG2 ok_G2
proof unfold_locales
  fix x s
  assume "ok_G2 x"
  then show "unser_CompressedG2 (ser_CompressedG2 x @ s) = Inr (x, s)"
    by (cases "g2_y_gt x") (simp_all add: ser_CompressedG2_def unser_CompressedG2_def ok_G2_def codec_simps G2_PREFIX_MASK_def)
next
  fix s x r
  assume "unser_CompressedG2 s = Inr (x, r)"
  then obtain b t y where b: "ser_readdata8 s = Inr (b, t)" "b AND NOT 1 = G2_PREFIX_MASK" "read_bytes 64 t = Inr (y, r)"
      "x = \<lparr>g2_y_gt = (b AND 1 \<noteq> 0), g2_x = y\<rparr>"
    by (auto simp: unser_CompressedG2_def rbind_Inr rreturn_def rthrow_def split: if_splits)
  then show "ok_G2 x \<and> s = ser_CompressedG2 x @ r"
    using xu8.exact [OF b(1)] xblob.exact [OF b(3)] lead_byte [OF b(2)] by (simp add: ok_G2_def ser_CompressedG2_def)
qed

interpretation phgr: exact_codec ser_PHGRProof unser_PHGRProof ok_PHGRProof
  by unfold_locales
    (auto simp: ser_PHGRProof_def unser_PHGRProof_def ok_PHGRProof_def g1.bind g2.bind codec_simps rbind_Inr
      dest!: g1.exact g2.exact)

definition sproutproof_bytes :: "bool \<Rightarrow> SproutProof \<Rightarrow> byte list" where
  "sproutproof_bytes g p = projr (SproutProofSerializer g p)"

definition js_bytes :: "uint32_t \<Rightarrow> JSDescription \<Rightarrow> byte list" where
  "js_bytes header js = projr (ser_JSDescription header js)"

lemma SproutProofSerializer_ok: "ok_SproutProof g p \<Longrightarrow> SproutProofSerializer g p = Inr (sproutproof_bytes g p)"
  by (auto simp: sproutproof_bytes_def SproutProofSerializer_def ok_SproutProof_def split: SproutProof.splits)

interpretation sproutproof: exact_codec "sproutproof_bytes g" "unser_SproutProof g" "ok_SproutProof g" for g
proof unfold_locales
  fix x s
  assume "ok_SproutProof g x"
  then show "unser_SproutProof g (sproutproof_bytes g x @ s) = Inr (x, s)"
    by (cases x)
      (auto simp: sproutproof_bytes_def SproutProofSerializer_def ok_SproutProof_def unser_SproutProof_def codec_simps phgr.bind)
next
  fix s x r
  assume "unser_SproutProof g s = Inr (x, r)"
  then show "ok_SproutProof g x \<and> s = sproutproof_bytes g x @ r"
    by (auto simp: sproutproof_bytes_def SproutProofSerializer_def ok_SproutProof_def unser_SproutProof_def rbind_Inr rreturn_def
        split: if_splits dest!: phgr.exact exact_dests)
qed

lemma ser_JSDescription_ok:
  "ok_SproutProof (js_useGroth header) (js_proof js) \<Longrightarrow> ser_JSDescription header js =
     Inr (ser_int64 (vpub_old js) @ ser_int64 (vpub_new js) @ js_anchor js @ ser_elems id (js_nullifiers js) @
       ser_elems id (js_commitments js) @ js_ephemeralKey js @ js_randomSeed js @ ser_elems id (js_macs js) @
       sproutproof_bytes (js_useGroth header) (js_proof js) @ ser_elems id (js_ciphertexts js))"
  by (simp add: ser_JSDescription_def SproutProofSerializer_ok)

interpretation js: exact_codec "js_bytes h" "unser_JSDescription h" "ok_JSDescription h" for h
  by unfold_locales
    (auto simp: js_bytes_def ser_JSDescription_ok unser_JSDescription_def ok_JSDescription_def id_elems sproutproof.bind codec_simps
      rbind_Inr dest!: sproutproof.exact exact_dests)

lemma ser_JoinSplits_ok:
  "\<forall>j \<in> set jss. ok_JSDescription h j \<Longrightarrow> ser_JoinSplits h jss = Inr (ser_elems (js_bytes h) jss)"
  by (induction jss) (auto simp: ser_elems_def js_bytes_def ok_JSDescription_def ser_JSDescription_ok)

interpretation txins: exact_codec "ser_vector ser_CTxIn" "unser_vector unser_CTxIn" "\<lambda>xs. fits xs \<and> (\<forall>x \<in> set xs. ok_CTxIn x)"
  by (rule txin.vector_exact)

interpretation txouts: exact_codec "ser_vector ser_CTxOut" "unser_vector unser_CTxOut" "\<lambda>xs. fits xs \<and> (\<forall>x \<in> set xs. ok_CTxOut x)"
  by (rule txout.vector_exact)

interpretation spends: exact_codec "ser_vector ser_SpendDescription" "unser_vector unser_SpendDescription"
    "\<lambda>xs. fits xs \<and> (\<forall>x \<in> set xs. ok_SpendDescription x)"
  by (rule spendd.vector_exact)

interpretation outputs: exact_codec "ser_vector ser_OutputDescription" "unser_vector unser_OutputDescription"
    "\<lambda>xs. fits xs \<and> (\<forall>x \<in> set xs. ok_OutputDescription x)"
  by (rule outputd.vector_exact)

interpretation jss: exact_codec "ser_vector (js_bytes h)" "unser_vector (unser_JSDescription h)"
    "\<lambda>xs. fits xs \<and> (\<forall>x \<in> set xs. ok_JSDescription h x)" for h
  by (rule js.vector_exact)

section \<open>The transaction format is exact\<close>

text \<open>
  A transaction is well formed when its arrays have their sizes, its version fits the header, its format is
  known, and the members its format does not carry have the values of a fresh object.
\<close>

definition ok_tx :: "'a CMutableTransaction_scheme \<Rightarrow> bool" where
  "ok_tx tx \<longleftrightarrow>
     0 \<le> tx_nVersion tx \<and> tx_nVersion tx < 2 ^ 31 \<and>
     (fOverwintered tx \<longrightarrow> isOverwinterV3 tx \<or> isSaplingV4 tx) \<and>
     (fits (vin tx) \<and> (\<forall>i \<in> set (vin tx). ok_CTxIn i)) \<and> (fits (vout tx) \<and> (\<forall>o1 \<in> set (vout tx). ok_CTxOut o1)) \<and>
     (\<not> fOverwintered tx \<longrightarrow> nVersionGroupId tx = 0 \<and> nExpiryHeight tx = 0) \<and>
     (if isSaplingV4 tx
      then ok_amount (valueBalance tx) \<and> (fits (vShieldedSpend tx) \<and> (\<forall>d \<in> set (vShieldedSpend tx). ok_SpendDescription d)) \<and>
        (fits (vShieldedOutput tx) \<and> (\<forall>d \<in> set (vShieldedOutput tx). ok_OutputDescription d))
      else valueBalance tx = 0 \<and> vShieldedSpend tx = [] \<and> vShieldedOutput tx = []) \<and>
     (if tx_nVersion tx \<ge> 2
      then fits (vJoinSplit tx) \<and> (\<forall>j \<in> set (vJoinSplit tx). ok_JSDescription (GetHeader tx) j)
      else vJoinSplit tx = []) \<and>
     length (joinSplitPubKey tx) = 32 \<and> length (joinSplitSig tx) = 64 \<and> length (bindingSig tx) = 64 \<and>
     (vJoinSplit tx = [] \<longrightarrow> joinSplitPubKey tx = replicate 32 0 \<and> joinSplitSig tx = replicate 64 0) \<and>
     (vShieldedSpend tx = [] \<and> vShieldedOutput tx = [] \<longrightarrow> bindingSig tx = replicate 64 0)"

definition tx_bytes :: "'a CMutableTransaction_scheme \<Rightarrow> byte list" where
  "tx_bytes tx = projr (ser_tx tx)"

lemma bit_flag31: "bit (push_bit 31 1 :: uint32_t) n \<longleftrightarrow> n = 31"
  by (simp only: push_bit_of_1 bit_exp_iff possible_bit_word) auto

lemma header_decode:
  assumes "0 \<le> tx_nVersion tx" "tx_nVersion tx < 2 ^ 31"
  shows "bit (GetHeader tx) 31 = fOverwintered tx" "uint (GetHeader tx AND 0x7FFFFFFF) = tx_nVersion tx"
proof -
  define v where "v = tx_nVersion tx"
  have v: "0 \<le> v" "v < 2 ^ 31" using assms by (simp_all add: v_def)
  have m: "(0x7FFFFFFF :: uint32_t) = mask 31" by (simp add: mask_eq_exp_minus_1)
  have u: "uint (word_of_int v :: uint32_t) = v" using v by (simp add: unsigned_of_int take_bit_int_eq_self)
  have "take_bit 31 v = v" using v by (simp add: take_bit_int_eq_self)
  then have b: "bit v n \<longleftrightarrow> n < 31 \<and> bit v n" for n by (metis bit_take_bit_iff)
  have h: "GetHeader tx = (if fOverwintered tx then word_of_int v OR push_bit 31 1 else word_of_int v)"
    by (simp add: GetHeader_def v_def)
  show "bit (GetHeader tx) 31 = fOverwintered tx"
    using b [of 31] by (simp only: h bit_or_iff bit_push_bit_iff bit_word_of_int_iff split: if_splits) simp
  have "GetHeader tx AND mask 31 = word_of_int v"
  proof (rule bit_word_eqI)
    fix n
    assume "n < LENGTH(32)"
    then show "bit (GetHeader tx AND mask 31) n = bit (word_of_int v :: uint32_t) n"
      using b [of n] unfolding h
      by (cases "fOverwintered tx")
        (simp_all only: if_True if_False bit_or_iff bit_and_iff bit_mask_iff bit_flag31 bit_word_of_int_iff, auto)
  qed
  then show "uint (GetHeader tx AND 0x7FFFFFFF) = tx_nVersion tx" by (simp add: m u v_def [symmetric])
qed

lemma header_encode:
  assumes "fOverwintered tx = bit w 31" "tx_nVersion tx = uint (w AND 0x7FFFFFFF)"
  shows "GetHeader tx = w" "0 \<le> tx_nVersion tx" "tx_nVersion tx < 2 ^ 31"
proof -
  have m: "(0x7FFFFFFF :: uint32_t) = mask 31" by (simp add: mask_eq_exp_minus_1)
  have e: "word_of_int (tx_nVersion tx) = w AND mask 31" by (simp add: assms m)
  show "GetHeader tx = w"
  proof (rule bit_word_eqI)
    fix n
    assume "n < LENGTH(32)"
    moreover have "n < 31 \<or> n = 31" using \<open>n < LENGTH(32)\<close> by auto
    ultimately show "bit (GetHeader tx) n = bit w n"
      unfolding GetHeader_def e assms(1) Let_def
      by (cases "bit w 31") (simp_all only: if_True if_False bit_or_iff bit_and_iff bit_mask_iff bit_flag31, auto)
  qed
  have "uint (w AND mask 31) = take_bit 31 (uint w)" by (simp add: take_bit_eq_mask [symmetric] unsigned_take_bit_eq)
  then show "0 \<le> tx_nVersion tx" "tx_nVersion tx < 2 ^ 31" using take_bit_int_less_exp [of 31 "uint w"] by (simp_all add: assms m)
qed

lemma ser_tx_ok:
  assumes "ok_tx tx"
  shows "ser_tx tx = Inr (tx_bytes tx)"
proof -
  have "ser_JoinSplits (GetHeader tx) (vJoinSplit tx) = Inr (ser_elems (js_bytes (GetHeader tx)) (vJoinSplit tx))" if "tx_nVersion tx \<ge> 2"
    using assms that by (intro ser_JoinSplits_ok) (simp add: ok_tx_def)
  then show ?thesis using assms by (auto simp: tx_bytes_def ser_tx_def Let_def ok_tx_def)
qed

lemma tx_bytes_eq:
  assumes "ok_tx tx"
  shows "tx_bytes tx = ser_writedata32 (GetHeader tx) @
     (if fOverwintered tx then ser_writedata32 (nVersionGroupId tx) else []) @
     ser_vector ser_CTxIn (vin tx) @ ser_vector ser_CTxOut (vout tx) @ ser_writedata32 (nLockTime tx) @
     (if fOverwintered tx then ser_writedata32 (nExpiryHeight tx) else []) @
     (if isSaplingV4 tx then ser_int64 (valueBalance tx) @ ser_vector ser_SpendDescription (vShieldedSpend tx) @
        ser_vector ser_OutputDescription (vShieldedOutput tx) else []) @
     (if tx_nVersion tx \<ge> 2 then ser_vector (js_bytes (GetHeader tx)) (vJoinSplit tx) @
        (if vJoinSplit tx \<noteq> [] then joinSplitPubKey tx @ joinSplitSig tx else []) else []) @
     (if isSaplingV4 tx \<and> \<not> (vShieldedSpend tx = [] \<and> vShieldedOutput tx = []) then bindingSig tx else [])"
proof -
  have "ser_JoinSplits (GetHeader tx) (vJoinSplit tx) = Inr (ser_elems (js_bytes (GetHeader tx)) (vJoinSplit tx))" if "tx_nVersion tx \<ge> 2"
    using assms that by (intro ser_JoinSplits_ok) (simp add: ok_tx_def)
  moreover have "isOverwinterV3 tx \<or> isSaplingV4 tx \<longleftrightarrow> fOverwintered tx"
    using assms by (auto simp: ok_tx_def isOverwinterV3_def isSaplingV4_def)
  ultimately show ?thesis
    by (cases "fOverwintered tx") (auto simp: tx_bytes_def ser_tx_def Let_def ser_vector_def)
qed

lemmas tx_binds = txins.bind txouts.bind spends.bind outputs.bind jss.bind codec_simps

lemma tx_parts:
  "ok_tx tx \<Longrightarrow> fits (vin tx) \<and> (\<forall>i \<in> set (vin tx). ok_CTxIn i)"
  "ok_tx tx \<Longrightarrow> fits (vout tx) \<and> (\<forall>o1 \<in> set (vout tx). ok_CTxOut o1)"
  "ok_tx tx \<Longrightarrow> isSaplingV4 tx \<Longrightarrow> fits (vShieldedSpend tx) \<and> (\<forall>d \<in> set (vShieldedSpend tx). ok_SpendDescription d)"
  "ok_tx tx \<Longrightarrow> isSaplingV4 tx \<Longrightarrow> fits (vShieldedOutput tx) \<and> (\<forall>d \<in> set (vShieldedOutput tx). ok_OutputDescription d)"
  "ok_tx tx \<Longrightarrow> isSaplingV4 tx \<Longrightarrow> - (2 ^ 63) \<le> valueBalance tx \<and> valueBalance tx < 2 ^ 63"
  "ok_tx tx \<Longrightarrow> tx_nVersion tx \<ge> 2 \<Longrightarrow> fits (vJoinSplit tx) \<and> (\<forall>j \<in> set (vJoinSplit tx). ok_JSDescription (GetHeader tx) j)"
  by (simp_all add: ok_tx_def ok_amount_def)

text \<open>Every step of the reader, on the bytes the writer made for it.\<close>

lemma read_header_bytes:
  assumes "ok_tx tx"
  shows "read_header tx0 (ser_writedata32 (GetHeader tx) @ s) =
    Inr (tx0\<lparr>fOverwintered := fOverwintered tx, tx_nVersion := tx_nVersion tx\<rparr>, s)"
  using assms by (simp add: read_header_def u32.bind rreturn_def header_decode ok_tx_def)

lemma read_group_bytes: "read_group tx0 (ser_writedata32 g @ s) = Inr (tx0\<lparr>nVersionGroupId := g\<rparr>, s)"
  by (simp add: read_group_def u32.bind rreturn_def)

lemma read_expiry_bytes: "read_expiry tx0 (ser_writedata32 g @ s) = Inr (tx0\<lparr>nExpiryHeight := g\<rparr>, s)"
  by (simp add: read_expiry_def u32.bind rreturn_def)

lemma read_transparent_bytes:
  assumes "ok_tx tx"
  shows "read_transparent tx0 (ser_vector ser_CTxIn (vin tx) @ ser_vector ser_CTxOut (vout tx) @ ser_writedata32 (nLockTime tx) @ s) =
    Inr (tx0\<lparr>vin := vin tx, vout := vout tx, nLockTime := nLockTime tx\<rparr>, s)"
  using tx_parts [OF assms] by (simp add: read_transparent_def tx_binds)

lemma read_sapling_bytes:
  assumes "ok_tx tx" "isSaplingV4 tx"
  shows "read_sapling tx0 (ser_int64 (valueBalance tx) @ ser_vector ser_SpendDescription (vShieldedSpend tx) @
      ser_vector ser_OutputDescription (vShieldedOutput tx) @ s) =
    Inr (tx0\<lparr>valueBalance := valueBalance tx, vShieldedSpend := vShieldedSpend tx, vShieldedOutput := vShieldedOutput tx\<rparr>, s)"
  using tx_parts [OF assms(1)] assms(2) by (simp add: read_sapling_def tx_binds)

lemma read_joinsplits_bytes:
  assumes "ok_tx tx" "tx_nVersion tx \<ge> 2" "GetHeader tx0 = GetHeader tx"
  shows "read_joinsplits tx0 (ser_vector (js_bytes (GetHeader tx)) (vJoinSplit tx) @
      (if vJoinSplit tx \<noteq> [] then joinSplitPubKey tx @ joinSplitSig tx else []) @ s) =
    Inr (if vJoinSplit tx \<noteq> []
      then tx0\<lparr>vJoinSplit := vJoinSplit tx, joinSplitPubKey := joinSplitPubKey tx, joinSplitSig := joinSplitSig tx\<rparr>
      else tx0\<lparr>vJoinSplit := []\<rparr>, s)"
  using tx_parts [OF assms(1)] assms
  by (simp add: read_joinsplits_def read_joinsplit_sig_def rwhen_def tx_binds ok_tx_def)

lemma read_binding_sig_bytes: "length b = 64 \<Longrightarrow> read_binding_sig tx0 (b @ s) = Inr (tx0\<lparr>bindingSig := b\<rparr>, s)"
  by (simp add: read_binding_sig_def blob.bind rreturn_def)

lemma rbind_step: "r s = Inr (x, t) \<Longrightarrow> rbind r f s = f x t"
  by (simp add: rbind_def)

lemmas format_defs = isOverwinterV3_def isSaplingV4_def OVERWINTER_TX_VERSION_def SAPLING_TX_VERSION_def
  OVERWINTER_VERSION_GROUP_ID_def SAPLING_VERSION_GROUP_ID_def

lemmas read_steps = read_header_bytes read_group_bytes read_expiry_bytes read_transparent_bytes read_sapling_bytes
  read_binding_sig_bytes

lemma GetHeader_cong: "fOverwintered tx = fOverwintered tx' \<Longrightarrow> tx_nVersion tx = tx_nVersion tx' \<Longrightarrow> GetHeader tx = GetHeader tx'"
  by (simp add: GetHeader_def)

text \<open>
  The steps of the reader as a chain of states, from the empty object to the transaction that was
  written: each step fills in the members of its part, or finds them already at their default values.
\<close>

definition filled1 :: "tx \<Rightarrow> tx" where
  "filled1 tx = CMutableTransaction_default\<lparr>fOverwintered := fOverwintered tx, tx_nVersion := tx_nVersion tx\<rparr>"

definition filled2 :: "tx \<Rightarrow> tx" where
  "filled2 tx = (filled1 tx)\<lparr>nVersionGroupId := nVersionGroupId tx\<rparr>"

definition filled3 :: "tx \<Rightarrow> tx" where
  "filled3 tx = (filled2 tx)\<lparr>vin := vin tx, vout := vout tx, nLockTime := nLockTime tx\<rparr>"

definition filled4 :: "tx \<Rightarrow> tx" where
  "filled4 tx = (filled3 tx)\<lparr>nExpiryHeight := nExpiryHeight tx\<rparr>"

definition filled5 :: "tx \<Rightarrow> tx" where
  "filled5 tx = (filled4 tx)\<lparr>valueBalance := valueBalance tx, vShieldedSpend := vShieldedSpend tx, vShieldedOutput := vShieldedOutput tx\<rparr>"

definition filled6 :: "tx \<Rightarrow> tx" where
  "filled6 tx = (filled5 tx)\<lparr>vJoinSplit := vJoinSplit tx, joinSplitPubKey := joinSplitPubKey tx, joinSplitSig := joinSplitSig tx\<rparr>"

lemmas filled_defs = filled6_def filled5_def filled4_def filled3_def filled2_def filled1_def CMutableTransaction_default_def

lemma filled_format:
  "isOverwinterV3 (filled2 tx) = isOverwinterV3 tx" "isSaplingV4 (filled2 tx) = isSaplingV4 tx"
  "isOverwinterV3 (filled3 tx) = isOverwinterV3 tx" "isSaplingV4 (filled3 tx) = isSaplingV4 tx"
  "isSaplingV4 (filled4 tx) = isSaplingV4 tx" "isSaplingV4 (filled6 tx) = isSaplingV4 tx"
  "fOverwintered (filled1 tx) = fOverwintered tx" "fOverwintered (filled2 tx) = fOverwintered tx"
  "tx_nVersion (filled5 tx) = tx_nVersion tx" "GetHeader (filled5 tx) = GetHeader tx"
  "vShieldedSpend (filled6 tx) = vShieldedSpend tx" "vShieldedOutput (filled6 tx) = vShieldedOutput tx"
  by (simp_all add: filled_defs isOverwinterV3_def isSaplingV4_def GetHeader_def)

lemma ok_tx_format: "ok_tx tx \<Longrightarrow> isOverwinterV3 tx \<or> isSaplingV4 tx \<longleftrightarrow> fOverwintered tx"
  by (auto simp: ok_tx_def isOverwinterV3_def isSaplingV4_def)

lemma fill1:
  assumes ok: "ok_tx tx"
  shows "read_header CMutableTransaction_default (ser_writedata32 (GetHeader tx) @ s) = Inr (filled1 tx, s)"
  using ok by (simp add: read_header_bytes filled1_def)

lemma fill2:
  assumes ok: "ok_tx tx"
  shows "rwhen (fOverwintered tx) read_group (filled1 tx) ((if fOverwintered tx then ser_writedata32 (nVersionGroupId tx) else []) @ s) =
    Inr (filled2 tx, s)"
  using ok by (simp add: rwhen_def read_group_bytes rreturn_def filled_defs ok_tx_def)

lemma fill3:
  assumes ok: "ok_tx tx"
  shows "read_transparent (filled2 tx) (ser_vector ser_CTxIn (vin tx) @ ser_vector ser_CTxOut (vout tx) @ ser_writedata32 (nLockTime tx) @ s) =
    Inr (filled3 tx, s)"
  using ok by (simp add: read_transparent_bytes filled3_def)

lemma fill4:
  assumes ok: "ok_tx tx"
  shows "rwhen (fOverwintered tx) read_expiry (filled3 tx) ((if fOverwintered tx then ser_writedata32 (nExpiryHeight tx) else []) @ s) =
    Inr (filled4 tx, s)"
  using ok by (simp add: rwhen_def read_expiry_bytes rreturn_def filled_defs ok_tx_def)

lemma fill5:
  assumes ok: "ok_tx tx"
  shows "rwhen (isSaplingV4 tx) read_sapling (filled4 tx)
     ((if isSaplingV4 tx then ser_int64 (valueBalance tx) @ ser_vector ser_SpendDescription (vShieldedSpend tx) @
        ser_vector ser_OutputDescription (vShieldedOutput tx) else []) @ s) = Inr (filled5 tx, s)"
proof (cases "isSaplingV4 tx")
  case True
  then show ?thesis using read_sapling_bytes [OF ok True] by (simp add: rwhen_def filled5_def)
next
  case False
  then show ?thesis using ok by (simp add: rwhen_def rreturn_def filled_defs ok_tx_def)
qed

lemma fill6:
  assumes ok: "ok_tx tx"
  shows "rwhen (tx_nVersion tx \<ge> 2) read_joinsplits (filled5 tx)
     ((if tx_nVersion tx \<ge> 2 then ser_vector (js_bytes (GetHeader tx)) (vJoinSplit tx) @
        (if vJoinSplit tx \<noteq> [] then joinSplitPubKey tx @ joinSplitSig tx else []) else []) @ s) = Inr (filled6 tx, s)"
proof (cases "tx_nVersion tx \<ge> 2")
  case True
  have "vJoinSplit tx = [] \<Longrightarrow> joinSplitPubKey tx = replicate 32 0 \<and> joinSplitSig tx = replicate 64 0"
    using ok by (simp add: ok_tx_def)
  then have "(if vJoinSplit tx \<noteq> []
      then (filled5 tx)\<lparr>vJoinSplit := vJoinSplit tx, joinSplitPubKey := joinSplitPubKey tx, joinSplitSig := joinSplitSig tx\<rparr>
      else (filled5 tx)\<lparr>vJoinSplit := []\<rparr>) = filled6 tx" by (simp add: filled_defs)
  then show ?thesis using read_joinsplits_bytes [OF ok True filled_format(10), of s] True by (simp add: rwhen_def)
next
  case False
  then show ?thesis using ok by (simp add: rwhen_def rreturn_def filled_defs ok_tx_def)
qed

lemma fill7:
  assumes ok: "ok_tx tx"
  shows "rwhen (isSaplingV4 tx \<and> \<not> (vShieldedSpend tx = [] \<and> vShieldedOutput tx = [])) read_binding_sig (filled6 tx)
     ((if isSaplingV4 tx \<and> \<not> (vShieldedSpend tx = [] \<and> vShieldedOutput tx = []) then bindingSig tx else []) @ s) = Inr (tx, s)"
proof -
  have "(filled6 tx)\<lparr>bindingSig := bindingSig tx\<rparr> = tx" by (simp add: filled_defs)
  moreover have "filled6 tx = (filled6 tx)\<lparr>bindingSig := bindingSig tx\<rparr>"
    if "\<not> (isSaplingV4 tx \<and> \<not> (vShieldedSpend tx = [] \<and> vShieldedOutput tx = []))"
  proof -
    have "bindingSig tx = replicate 64 0" using that ok by (auto simp: ok_tx_def split: if_splits)
    then show ?thesis by (simp add: filled_defs)
  qed
  moreover have "length (bindingSig tx) = 64" using ok by (simp add: ok_tx_def)
  ultimately show ?thesis by (auto simp: rwhen_def rreturn_def read_binding_sig_bytes)
qed

lemma tx_roundtrip:
  assumes ok: "ok_tx tx"
  shows "CMutableTransaction_deserialize (tx_bytes tx @ s) = Inr (tx, s)"
proof -
  have f: "fOverwintered tx \<and> \<not> fOverwintered tx \<longleftrightarrow> False" by simp
  note fills = fill1 [OF ok] fill2 [OF ok] fill3 [OF ok] fill4 [OF ok] fill5 [OF ok] fill6 [OF ok] fill7 [OF ok]
  show ?thesis
    unfolding CMutableTransaction_deserialize_def unser_tx_def tx_bytes_eq [OF ok] append_assoc rbind_def
    by (simp only: fills sum.case prod.case filled_format f if_False ok_tx_format [OF ok])
qed

text \<open>What each step of the reader consumed and changed, when it succeeds.\<close>

lemma read_header_exact:
  assumes "read_header tx0 s = Inr (tx, r)"
  shows "s = ser_writedata32 (GetHeader tx) @ r \<and> 0 \<le> tx_nVersion tx \<and> tx_nVersion tx < 2 ^ 31 \<and>
    tx = tx0\<lparr>fOverwintered := fOverwintered tx, tx_nVersion := tx_nVersion tx\<rparr>"
proof -
  from assms obtain w where w: "ser_readdata32 s = Inr (w, r)"
      "tx = tx0\<lparr>fOverwintered := bit w 31, tx_nVersion := uint (w AND 0x7FFFFFFF)\<rparr>"
    by (auto simp: read_header_def rbind_Inr rreturn_def)
  have "fOverwintered tx = bit w 31" "tx_nVersion tx = uint (w AND 0x7FFFFFFF)" by (simp_all add: w(2))
  note h = header_encode [OF this]
  have "tx = tx0\<lparr>fOverwintered := fOverwintered tx, tx_nVersion := tx_nVersion tx\<rparr>" by (simp add: w(2))
  then show ?thesis using xu32.exact [OF w(1)] h by simp
qed

lemma read_group_exact:
  "rwhen c read_group tx0 s = Inr (tx, r) \<Longrightarrow>
    s = (if c then ser_writedata32 (nVersionGroupId tx) else []) @ r \<and> tx = tx0\<lparr>nVersionGroupId := nVersionGroupId tx\<rparr> \<and>
    (\<not> c \<longrightarrow> tx = tx0)"
  by (auto simp: rwhen_def read_group_def rbind_Inr rreturn_def split: if_splits dest!: xu32.exact)

lemma read_transparent_exact:
  "read_transparent tx0 s = Inr (tx, r) \<Longrightarrow>
    s = ser_vector ser_CTxIn (vin tx) @ ser_vector ser_CTxOut (vout tx) @ ser_writedata32 (nLockTime tx) @ r \<and>
    (fits (vin tx) \<and> (\<forall>i \<in> set (vin tx). ok_CTxIn i)) \<and> (fits (vout tx) \<and> (\<forall>o1 \<in> set (vout tx). ok_CTxOut o1)) \<and>
    tx = tx0\<lparr>vin := vin tx, vout := vout tx, nLockTime := nLockTime tx\<rparr>"
  by (auto simp: read_transparent_def rbind_Inr rreturn_def dest!: txins.exact txouts.exact xu32.exact)

lemma read_expiry_exact:
  "rwhen c read_expiry tx0 s = Inr (tx, r) \<Longrightarrow>
    s = (if c then ser_writedata32 (nExpiryHeight tx) else []) @ r \<and> tx = tx0\<lparr>nExpiryHeight := nExpiryHeight tx\<rparr> \<and>
    (\<not> c \<longrightarrow> tx = tx0)"
  by (auto simp: rwhen_def read_expiry_def rbind_Inr rreturn_def split: if_splits dest!: xu32.exact)

lemma read_sapling_exact:
  "rwhen c read_sapling tx0 s = Inr (tx, r) \<Longrightarrow>
    s = (if c then ser_int64 (valueBalance tx) @ ser_vector ser_SpendDescription (vShieldedSpend tx) @
        ser_vector ser_OutputDescription (vShieldedOutput tx) else []) @ r \<and>
    (c \<longrightarrow> ok_amount (valueBalance tx) \<and> (fits (vShieldedSpend tx) \<and> (\<forall>d \<in> set (vShieldedSpend tx). ok_SpendDescription d)) \<and>
       (fits (vShieldedOutput tx) \<and> (\<forall>d \<in> set (vShieldedOutput tx). ok_OutputDescription d))) \<and>
    tx = tx0\<lparr>valueBalance := valueBalance tx, vShieldedSpend := vShieldedSpend tx, vShieldedOutput := vShieldedOutput tx\<rparr> \<and>
    (\<not> c \<longrightarrow> tx = tx0)"
  by (auto simp: rwhen_def read_sapling_def rbind_Inr rreturn_def ok_amount_def split: if_splits
      dest!: xi64.exact spends.exact outputs.exact)

lemma read_joinsplits_exact:
  assumes "rwhen c read_joinsplits tx0 s = Inr (tx, r)"
  shows "s = (if c then ser_vector (js_bytes (GetHeader tx0)) (vJoinSplit tx) @
        (if vJoinSplit tx \<noteq> [] then joinSplitPubKey tx @ joinSplitSig tx else []) else []) @ r \<and>
    (c \<longrightarrow> fits (vJoinSplit tx) \<and> (\<forall>j \<in> set (vJoinSplit tx). ok_JSDescription (GetHeader tx0) j)) \<and>
    (c \<and> vJoinSplit tx \<noteq> [] \<longrightarrow> length (joinSplitPubKey tx) = 32 \<and> length (joinSplitSig tx) = 64) \<and>
    (vJoinSplit tx0 = [] \<and> vJoinSplit tx = [] \<longrightarrow> joinSplitPubKey tx = joinSplitPubKey tx0 \<and> joinSplitSig tx = joinSplitSig tx0) \<and>
    tx = tx0\<lparr>vJoinSplit := vJoinSplit tx, joinSplitPubKey := joinSplitPubKey tx, joinSplitSig := joinSplitSig tx\<rparr> \<and>
    (\<not> c \<longrightarrow> tx = tx0)"
proof (cases c)
  case True
  then obtain jss t where j: "unser_vector (unser_JSDescription (GetHeader tx0)) s = Inr (jss, t)"
      "rwhen (length jss > 0) read_joinsplit_sig (tx0\<lparr>vJoinSplit := jss\<rparr>) t = Inr (tx, r)"
    using assms by (auto simp: rwhen_def read_joinsplits_def rbind_Inr)
  note e = jss.exact [OF j(1)]
  show ?thesis
  proof (cases "jss = []")
    case J: True
    then have "tx = tx0\<lparr>vJoinSplit := []\<rparr>" "t = r" using j(2) by (simp_all add: rwhen_def rreturn_def)
    then show ?thesis using e J True by simp
  next
    case J: False
    then obtain k sig u where k: "read_bytes 32 t = Inr (k, u)" "read_bytes 64 u = Inr (sig, r)"
        "tx = tx0\<lparr>vJoinSplit := jss, joinSplitPubKey := k, joinSplitSig := sig\<rparr>"
      using j(2) by (auto simp: rwhen_def read_joinsplit_sig_def rbind_Inr rreturn_def)
    then show ?thesis using e J True xblob.exact [OF k(1)] xblob.exact [OF k(2)] by simp
  qed
next
  case False
  then show ?thesis using assms by (simp add: rwhen_def rreturn_def)
qed

lemma read_binding_sig_exact:
  "rwhen c read_binding_sig tx0 s = Inr (tx, r) \<Longrightarrow>
    s = (if c then bindingSig tx else []) @ r \<and> (c \<longrightarrow> length (bindingSig tx) = 64) \<and> tx = tx0\<lparr>bindingSig := bindingSig tx\<rparr> \<and>
    (\<not> c \<longrightarrow> tx = tx0)"
  by (auto simp: rwhen_def read_binding_sig_def rbind_Inr rreturn_def split: if_splits dest!: xblob.exact)

lemma unser_tx_elim:
  assumes "unser_tx tx0 s = Inr (tx, r)"
  obtains t1 t2 t3 t4 t5 t6 s1 s2 s3 s4 s5 s6 where
    "read_header tx0 s = Inr (t1, s1)" "rwhen (fOverwintered t1) read_group t1 s1 = Inr (t2, s2)"
    "fOverwintered t2 \<longrightarrow> isOverwinterV3 t2 \<or> isSaplingV4 t2" "read_transparent t2 s2 = Inr (t3, s3)"
    "rwhen (isOverwinterV3 t3 \<or> isSaplingV4 t3) read_expiry t3 s3 = Inr (t4, s4)"
    "rwhen (isSaplingV4 t4) read_sapling t4 s4 = Inr (t5, s5)" "rwhen (tx_nVersion t5 \<ge> 2) read_joinsplits t5 s5 = Inr (t6, s6)"
    "rwhen (isSaplingV4 t6 \<and> \<not> (vShieldedSpend t6 = [] \<and> vShieldedOutput t6 = [])) read_binding_sig t6 s6 = Inr (tx, r)"
  using assms by (auto simp: unser_tx_def rbind_Inr rthrow_def split: if_splits)

lemma read_joinsplits_fresh:
  assumes "rwhen c read_joinsplits tx0 s = Inr (tx, r)"
    and "vJoinSplit tx0 = []" "joinSplitPubKey tx0 = replicate 32 0" "joinSplitSig tx0 = replicate 64 0"
  shows "s = (if c then ser_vector (js_bytes (GetHeader tx0)) (vJoinSplit tx) @
        (if vJoinSplit tx \<noteq> [] then joinSplitPubKey tx @ joinSplitSig tx else []) else []) @ r"
    and "c \<longrightarrow> fits (vJoinSplit tx) \<and> (\<forall>j \<in> set (vJoinSplit tx). ok_JSDescription (GetHeader tx0) j)"
    and "\<not> c \<longrightarrow> vJoinSplit tx = []"
    and "vJoinSplit tx = [] \<longrightarrow> joinSplitPubKey tx = replicate 32 0 \<and> joinSplitSig tx = replicate 64 0"
    and "length (joinSplitPubKey tx) = 32 \<and> length (joinSplitSig tx) = 64"
proof -
  note e = read_joinsplits_exact [OF assms(1), unfolded assms(2-4)]
  show "s = (if c then ser_vector (js_bytes (GetHeader tx0)) (vJoinSplit tx) @
        (if vJoinSplit tx \<noteq> [] then joinSplitPubKey tx @ joinSplitSig tx else []) else []) @ r"
    "c \<longrightarrow> fits (vJoinSplit tx) \<and> (\<forall>j \<in> set (vJoinSplit tx). ok_JSDescription (GetHeader tx0) j)" using e by blast+
  show j: "\<not> c \<longrightarrow> vJoinSplit tx = []" using e assms(2) by metis
  show z: "vJoinSplit tx = [] \<longrightarrow> joinSplitPubKey tx = replicate 32 0 \<and> joinSplitSig tx = replicate 64 0" using e by blast
  show "length (joinSplitPubKey tx) = 32 \<and> length (joinSplitSig tx) = 64"
  proof (cases "vJoinSplit tx = []")
    case True
    then show ?thesis using z by simp
  next
    case False
    then show ?thesis using e j by blast
  qed
qed

lemma read_binding_sig_fresh:
  assumes "rwhen c read_binding_sig tx0 s = Inr (tx, r)" "bindingSig tx0 = replicate 64 0"
  shows "s = (if c then bindingSig tx else []) @ r" "length (bindingSig tx) = 64" "\<not> c \<longrightarrow> bindingSig tx = replicate 64 0"
  using read_binding_sig_exact [OF assms(1)] assms(2) by (cases c; simp)+

lemma tx_exact:
  assumes "CMutableTransaction_deserialize s = Inr (tx, r)"
  shows "ok_tx tx \<and> s = tx_bytes tx @ r"
proof -
  let ?d = CMutableTransaction_default
  obtain t1 t2 t3 t4 t5 t6 s1 s2 s3 s4 s5 s6 where
    r1: "read_header ?d s = Inr (t1, s1)" and r2: "rwhen (fOverwintered t1) read_group t1 s1 = Inr (t2, s2)" and
    f2: "fOverwintered t2 \<longrightarrow> isOverwinterV3 t2 \<or> isSaplingV4 t2" and r3: "read_transparent t2 s2 = Inr (t3, s3)" and
    r4: "rwhen (isOverwinterV3 t3 \<or> isSaplingV4 t3) read_expiry t3 s3 = Inr (t4, s4)" and
    r5: "rwhen (isSaplingV4 t4) read_sapling t4 s4 = Inr (t5, s5)" and
    r6: "rwhen (tx_nVersion t5 \<ge> 2) read_joinsplits t5 s5 = Inr (t6, s6)" and
    r7: "rwhen (isSaplingV4 t6 \<and> \<not> (vShieldedSpend t6 = [] \<and> vShieldedOutput t6 = [])) read_binding_sig t6 s6 = Inr (tx, r)"
    using assms unfolding CMutableTransaction_deserialize_def by (rule unser_tx_elim)
  note e1 = read_header_exact [OF r1] and e2 = read_group_exact [OF r2] and e3 = read_transparent_exact [OF r3]
    and e4 = read_expiry_exact [OF r4] and e5 = read_sapling_exact [OF r5] and e6 = read_joinsplits_exact [OF r6]
    and e7 = read_binding_sig_exact [OF r7]
  obtain fo v where t1: "t1 = ?d\<lparr>fOverwintered := fo, tx_nVersion := v\<rparr>" using e1 by blast
  obtain g where t2: "t2 = t1\<lparr>nVersionGroupId := g\<rparr>" using e2 by blast
  obtain i o1 l where t3: "t3 = t2\<lparr>vin := i, vout := o1, nLockTime := l\<rparr>" using e3 by blast
  obtain e where t4: "t4 = t3\<lparr>nExpiryHeight := e\<rparr>" using e4 by blast
  obtain b sp op where t5: "t5 = t4\<lparr>valueBalance := b, vShieldedSpend := sp, vShieldedOutput := op\<rparr>" using e5 by blast
  obtain j k sg where t6: "t6 = t5\<lparr>vJoinSplit := j, joinSplitPubKey := k, joinSplitSig := sg\<rparr>" using e6 by blast
  obtain bs where tx: "tx = t6\<lparr>bindingSig := bs\<rparr>" using e7 by blast
  define V4 where "V4 \<longleftrightarrow> isSaplingV4 tx"
  have fmt: "isSaplingV4 t6 = V4" "isSaplingV4 t4 = V4" "isSaplingV4 t3 = V4" "isSaplingV4 t2 = V4"
    "isOverwinterV3 t3 = isOverwinterV3 tx" "isOverwinterV3 t2 = isOverwinterV3 tx" "GetHeader t5 = GetHeader tx" "GetHeader t1 = GetHeader tx"
    by (simp_all add: V4_def tx t6 t5 t4 t3 t2 isSaplingV4_def isOverwinterV3_def GetHeader_def)
  have fo: "isOverwinterV3 tx \<or> V4 \<longleftrightarrow> fo"
    using f2 by (auto simp: V4_def tx t6 t5 t4 t3 t2 t1 isSaplingV4_def isOverwinterV3_def)
  have flds: "fOverwintered tx = fo" "tx_nVersion tx = v" "nVersionGroupId tx = g" "vin tx = i" "vout tx = o1" "nLockTime tx = l"
    "nExpiryHeight tx = e" "valueBalance tx = b" "vShieldedSpend tx = sp" "vShieldedOutput tx = op" "vJoinSplit tx = j"
    "joinSplitPubKey tx = k" "joinSplitSig tx = sg" "bindingSig tx = bs"
    by (simp_all add: tx t6 t5 t4 t3 t2 t1)
  note ts = t1 t2 t3 t4 t5 t6 tx and dd = CMutableTransaction_default_def
  have b1: "s = ser_writedata32 (GetHeader tx) @ s1" "0 \<le> v" "v < 2 ^ 31" using e1 fmt by (simp_all add: t1)
  have b2: "s1 = (if fo then ser_writedata32 g else []) @ s2" "\<not> fo \<longrightarrow> g = 0"
    using e2 by (auto simp: t1 t2 dd)
  have b3: "s2 = ser_vector ser_CTxIn i @ ser_vector ser_CTxOut o1 @ ser_writedata32 l @ s3"
    "fits i \<and> (\<forall>x \<in> set i. ok_CTxIn x)" "fits o1 \<and> (\<forall>x \<in> set o1. ok_CTxOut x)"
    using e3 by (simp_all add: t3)
  have b4: "s3 = (if fo then ser_writedata32 e else []) @ s4" "\<not> fo \<longrightarrow> e = 0"
    using e4 unfolding fmt fo by (auto simp: t4 t3 t2 t1 dd)
  have b5: "s4 = (if V4 then ser_int64 b @ ser_vector ser_SpendDescription sp @ ser_vector ser_OutputDescription op else []) @ s5"
    "V4 \<longrightarrow> ok_amount b \<and> (fits sp \<and> (\<forall>d \<in> set sp. ok_SpendDescription d)) \<and> (fits op \<and> (\<forall>d \<in> set op. ok_OutputDescription d))"
    "\<not> V4 \<longrightarrow> b = 0 \<and> sp = [] \<and> op = []"
    using e5 unfolding fmt by (auto simp: t5 t4 t3 t2 t1 dd)
  have p5: "tx_nVersion t5 = v" "vJoinSplit t5 = []" "joinSplitPubKey t5 = replicate 32 0" "joinSplitSig t5 = replicate 64 0"
    by (simp_all add: t5 t4 t3 t2 t1 dd)
  note b6 = read_joinsplits_fresh [OF r6 p5(2-4), unfolded fmt p5(1)]
  have q6: "vJoinSplit t6 = j" "joinSplitPubKey t6 = k" "joinSplitSig t6 = sg" by (simp_all add: t6)
  have p6: "vShieldedSpend t6 = sp" "vShieldedOutput t6 = op" "bindingSig t6 = replicate 64 0"
    by (simp_all add: t6 t5 t4 t3 t2 t1 dd)
  note b7 = read_binding_sig_fresh [OF r7 p6(3), unfolded fmt p6 flds]
  have ok: "ok_tx tx"
    unfolding ok_tx_def flds V4_def [symmetric]
    using b1(2,3) b2(2) b3(2,3) b4(2) b5(2,3) b6(2-5) [unfolded q6] b7(2,3) fo by auto
  then show ?thesis
    using b1(1) b2(1) b3(1) b4(1) b5(1) b6(1) [unfolded q6] b7(1)
    by (simp only: tx_bytes_eq [OF ok] flds V4_def [symmetric] append_assoc simp_thms)
qed

interpretation txcodec: exact_codec "tx_bytes :: tx \<Rightarrow> byte list" CMutableTransaction_deserialize ok_tx
  by unfold_locales (simp_all add: tx_roundtrip tx_exact)


section \<open>Sizes\<close>

lemma length_ser_int64 [simp]: "length (ser_int64 v) = 8"
  by (simp add: ser_int64_def ser_writedata64_def)

lemma length_blobs: "\<forall>x \<in> set xs. length x = n \<Longrightarrow> length (ser_elems id xs) = length xs * n"
  by (induction xs) (simp_all add: ser_elems_def)

lemma length_points: "ok_G1 p \<Longrightarrow> length (ser_CompressedG1 p) = 33" "ok_G2 q \<Longrightarrow> length (ser_CompressedG2 q) = 65"
  by (simp_all add: ok_G1_def ok_G2_def ser_CompressedG1_def ser_CompressedG2_def ser_writedata8_def)

lemma length_sproutproof: "ok_SproutProof g p \<Longrightarrow> length (sproutproof_bytes g p) = (if g then 192 else 296)"
  by (auto simp: ok_SproutProof_def sproutproof_bytes_def SproutProofSerializer_def GROTH_PROOF_SIZE_def
      ok_PHGRProof_def ser_PHGRProof_def length_points split: SproutProof.splits)

text \<open>
  Shielded descriptions have the sizes their constants state: 384 bytes for a spend, 948 for an
  output, and \<open>JOINSPLIT_SIZE\<close> for a JoinSplit in an overwintered transaction of that version or in a
  transaction of version below 4.
\<close>

lemma description_sizes:
  assumes "ok_SpendDescription sd" "ok_OutputDescription od" "ok_JSDescription header js"
    and "v = uint (header AND 0x7FFFFFFF)" "bit header 31 \<or> v < SAPLING_TX_VERSION"
  shows "length (ser_SpendDescription sd) = SPENDDESCRIPTION_SIZE \<and>
    length (ser_OutputDescription od) = OUTPUTDESCRIPTION_SIZE \<and>
    length (js_bytes header js) = JOINSPLIT_SIZE v"
proof -
  have lens: "length (ser_elems id (js_nullifiers js)) = 64" "length (ser_elems id (js_commitments js)) = 64"
    "length (ser_elems id (js_macs js)) = 64" "length (ser_elems id (js_ciphertexts js)) = 1202"
    using assms(3) length_blobs [of "js_nullifiers js" 32] length_blobs [of "js_commitments js" 32]
      length_blobs [of "js_macs js" 32] length_blobs [of "js_ciphertexts js" 601]
    by (simp_all add: ok_JSDescription_def ZC_NUM_JS_INPUTS_def ZC_NUM_JS_OUTPUTS_def ZC_NOTEPLAINTEXT_SIZE_def
        NOTEENCRYPTION_AUTH_BYTES_def)
  have "js_useGroth header \<longleftrightarrow> v \<ge> SAPLING_TX_VERSION" using assms(4,5) by (auto simp: js_useGroth_def)
  then show ?thesis
    using assms(1-3)
    by (auto simp: ser_SpendDescription_def ok_SpendDescription_def SPENDDESCRIPTION_SIZE_def ser_OutputDescription_def
        ok_OutputDescription_def OUTPUTDESCRIPTION_SIZE_def GROTH_PROOF_SIZE_def ZC_SAPLING_ENCCIPHERTEXT_SIZE_def
        ZC_SAPLING_OUTCIPHERTEXT_SIZE_def NOTEENCRYPTION_AUTH_BYTES_def js_bytes_def ok_JSDescription_def ser_JSDescription_ok
        length_sproutproof lens ZC_NUM_JS_INPUTS_def ZC_NUM_JS_OUTPUTS_def ZC_NOTEPLAINTEXT_SIZE_def JOINSPLIT_SIZE_def)
qed

definition ex_spend :: SpendDescription where
  "ex_spend = \<lparr>sd_cv = replicate 32 1, sd_anchor = replicate 32 2, sd_nullifier = replicate 32 3, sd_rk = replicate 32 4,
     sd_zkproof = replicate 192 5, sd_spendAuthSig = replicate 64 6\<rparr>"

definition ex_output :: OutputDescription where
  "ex_output = \<lparr>od_cv = replicate 32 1, od_cmu = replicate 32 2, od_ephemeralKey = replicate 32 3,
     od_encCiphertext = replicate 580 4, od_outCiphertext = replicate 80 5, od_zkproof = replicate 192 6\<rparr>"

definition ex_js :: JSDescription where
  "ex_js = \<lparr>vpub_old = 5, vpub_new = 0, js_anchor = replicate 32 1, js_nullifiers = [replicate 32 2, replicate 32 3],
     js_commitments = [replicate 32 4, replicate 32 5], js_ephemeralKey = replicate 32 6,
     js_ciphertexts = [replicate 601 7, replicate 601 8], js_randomSeed = replicate 32 9,
     js_macs = [replicate 32 10, replicate 32 11], js_proof = Groth (replicate 192 12)\<rparr>"

lemma ex_parts_ok: "ok_SpendDescription ex_spend" "ok_OutputDescription ex_output" "ok_JSDescription 0x80000004 ex_js"
proof -
  have g: "js_useGroth 0x80000004"
    using bit_flag31 [of 31] by (simp add: js_useGroth_def SAPLING_TX_VERSION_def bit_iff_odd)
  show "ok_SpendDescription ex_spend" "ok_OutputDescription ex_output"
    by (simp_all add: ok_SpendDescription_def ex_spend_def ok_OutputDescription_def ex_output_def GROTH_PROOF_SIZE_def
      ZC_SAPLING_ENCCIPHERTEXT_SIZE_def ZC_SAPLING_OUTCIPHERTEXT_SIZE_def NOTEENCRYPTION_AUTH_BYTES_def)
  show "ok_JSDescription 0x80000004 ex_js"
    using g by (simp add: ok_JSDescription_def ex_js_def ok_amount_def ok_SproutProof_def GROTH_PROOF_SIZE_def
      ZC_NUM_JS_INPUTS_def ZC_NUM_JS_OUTPUTS_def ZC_NOTEPLAINTEXT_SIZE_def NOTEENCRYPTION_AUTH_BYTES_def)
qed

section \<open>Amounts\<close>

lemma sum_checked_eq:
  "MoneyRange acc \<Longrightarrow> sum_checked msg vs acc =
     (if (\<forall>v \<in> set vs. MoneyRange v) \<and> MoneyRange (acc + sum_list vs) then Inr (acc + sum_list vs) else Inl (Throw msg))"
proof (induction vs arbitrary: acc)
  case Nil
  then show ?case by simp
next
  case (Cons v vs)
  show ?case
  proof (cases "MoneyRange v \<and> MoneyRange (acc + v)")
    case True
    then show ?thesis using Cons.IH [of "acc + v"] by (simp add: Let_def add.assoc)
  next
    case False
    have "\<not> ((\<forall>x \<in> set (v # vs). MoneyRange x) \<and> MoneyRange (acc + sum_list (v # vs)))"
    proof
      assume r: "(\<forall>x \<in> set (v # vs). MoneyRange x) \<and> MoneyRange (acc + sum_list (v # vs))"
      then have "0 \<le> sum_list vs" by (intro sum_list_nonneg) (simp add: MoneyRange_def)
      then show False using r False Cons.prems by (auto simp: MoneyRange_def)
    qed
    then show ?thesis using False by (auto simp: Let_def)
  qed
qed

definition value_out_parts :: "'a CMutableTransaction_scheme \<Rightarrow> CAmount list" where
  "value_out_parts tx = map nValue (vout tx) @ (if valueBalance tx \<le> 0 then [- valueBalance tx] else []) @ map vpub_old (vJoinSplit tx)"

definition value_in_parts :: "'a CMutableTransaction_scheme \<Rightarrow> CAmount list" where
  "value_in_parts tx = (if valueBalance tx \<ge> 0 then [valueBalance tx] else []) @ map vpub_new (vJoinSplit tx)"

lemma sum_checked_append:
  "sum_checked msg (xs @ ys) acc = (case sum_checked msg xs acc of Inl e \<Rightarrow> Inl e | Inr a \<Rightarrow> sum_checked msg ys a)"
  by (induction xs arbitrary: acc) (simp_all add: Let_def)

lemma MoneyRange_0 [simp]: "MoneyRange 0"
  by (simp add: MoneyRange_def MAX_MONEY_def COIN_def)

lemma GetValueOut_parts:
  "GetValueOut tx = sum_checked ''CTransaction::GetValueOut(): value out of range'' (value_out_parts tx) 0"
  by (simp add: GetValueOut_def value_out_parts_def sum_checked_append Let_def split: sum.split)

lemma GetShieldedValueIn_parts:
  "GetShieldedValueIn tx = sum_checked ''CTransaction::GetShieldedValueIn(): value out of range'' (value_in_parts tx) 0"
  by (simp add: GetShieldedValueIn_def value_in_parts_def sum_checked_append Let_def split: sum.split)

text \<open>
  C21. The transparent value a transaction hands out and the value it draws from the shielded pools are
  the exact sums of their parts, and are returned exactly when every part and the total are in the money
  range; in every other case the code throws.
\<close>

theorem transaction_values_in_range:
  "GetValueOut tx = (if (\<forall>v \<in> set (value_out_parts tx). MoneyRange v) \<and> MoneyRange (sum_list (value_out_parts tx))
     then Inr (sum_list (value_out_parts tx)) else Inl (Throw ''CTransaction::GetValueOut(): value out of range'')) \<and>
   GetShieldedValueIn tx = (if (\<forall>v \<in> set (value_in_parts tx). MoneyRange v) \<and> MoneyRange (sum_list (value_in_parts tx))
     then Inr (sum_list (value_in_parts tx)) else Inl (Throw ''CTransaction::GetShieldedValueIn(): value out of range''))"
  by (simp add: GetValueOut_parts GetShieldedValueIn_parts sum_checked_eq)

theorem transaction_values_in_range_witness:
  "GetValueOut (CMutableTransaction_default\<lparr>vout := [\<lparr>nValue = 3, scriptPubKey = []\<rparr>], valueBalance := - 4\<rparr>) = Inr 7"
  using transaction_values_in_range [of "CMutableTransaction_default\<lparr>vout := [\<lparr>nValue = 3, scriptPubKey = []\<rparr>], valueBalance := - 4\<rparr>"]
  by (simp add: value_out_parts_def CMutableTransaction_default_def MoneyRange_def MAX_MONEY_def COIN_def)

section \<open>Constructing a transaction from a stream\<close>

lemma ser_tx_cong:
  assumes "fOverwintered tx = fOverwintered tx'" "tx_nVersion tx = tx_nVersion tx'" "nVersionGroupId tx = nVersionGroupId tx'"
    "vin tx = vin tx'" "vout tx = vout tx'" "nLockTime tx = nLockTime tx'" "nExpiryHeight tx = nExpiryHeight tx'"
    "valueBalance tx = valueBalance tx'" "vShieldedSpend tx = vShieldedSpend tx'" "vShieldedOutput tx = vShieldedOutput tx'"
    "vJoinSplit tx = vJoinSplit tx'" "joinSplitPubKey tx = joinSplitPubKey tx'" "joinSplitSig tx = joinSplitSig tx'"
    "bindingSig tx = bindingSig tx'"
  shows "ser_tx tx = ser_tx tx'"
  unfolding ser_tx_def GetHeader_def isOverwinterV3_def isSaplingV4_def assms ..

lemma ser_tx_CTransaction:
  "ser_tx (CTransaction_members tx) = ser_tx tx" "ser_tx ((CTransaction_members tx)\<lparr>bindingSig := b\<rparr>) = ser_tx (tx\<lparr>bindingSig := b\<rparr>)"
  "ser_tx (UpdateHash ctx) = ser_tx ctx"
  by (rule ser_tx_cong; simp add: CTransaction_members_def UpdateHash_def)+

definition ex_sapling_tx :: tx where
  "ex_sapling_tx = CMutableTransaction_default\<lparr>fOverwintered := True, tx_nVersion := 4, nVersionGroupId := SAPLING_VERSION_GROUP_ID,
     vShieldedSpend := [ex_spend], vShieldedOutput := [ex_output], bindingSig := replicate 64 7\<rparr>"

lemma ex_sapling_tx_ok: "ok_tx ex_sapling_tx" "isSaplingV4 ex_sapling_tx"
  using ex_parts_ok
  by (simp_all add: ok_tx_def ex_sapling_tx_def CMutableTransaction_default_def isSaplingV4_def fits_def MAX_SIZE_def ok_amount_def SAPLING_TX_VERSION_def)

text \<open>
  C22. Copying a deserialized Sapling transaction keeps its binding signature, while the deserializing
  constructor of \<open>CTransaction\<close> loses it: it moves a \<open>CMutableTransaction\<close> into the new object, and the
  moving constructor does not take the binding signature over. The object then serializes to other bytes
  than those read, and its cached hash is the hash of those other bytes.
\<close>

theorem deserializing_constructor_drops_binding_sig:
  assumes "ok_tx tx" "isSaplingV4 tx" "vShieldedSpend tx \<noteq> []" "bindingSig tx \<noteq> replicate 64 0"
  shows "CTransaction_deserialize (tx_bytes tx) = Inr (CTransaction_move tx, []) \<and>
    bindingSig (CTransaction_move tx) = replicate 64 0 \<and> ser_tx (CTransaction_move tx) \<noteq> ser_tx tx \<and>
    tx_hash (CTransaction_move tx) = Hash (tx_bytes (tx\<lparr>bindingSig := replicate 64 0\<rparr>)) \<and>
    bindingSig (CTransaction_copy tx) = bindingSig tx \<and> ser_tx (CTransaction_copy tx) = ser_tx tx \<and>
    tx_hash (CTransaction_copy tx) = Hash (tx_bytes tx)"
proof -
  let ?z = "tx\<lparr>bindingSig := replicate 64 0\<rparr>"
  have "GetHeader ?z = GetHeader tx" "isOverwinterV3 ?z = isOverwinterV3 tx" "isSaplingV4 ?z = isSaplingV4 tx"
    by (simp_all add: isOverwinterV3_def isSaplingV4_def GetHeader_def)
  then have z: "ok_tx ?z" using assms(1,3) by (simp add: ok_tx_def)
  have "?z \<noteq> tx" using assms(4) by (metis CMutableTransaction.select_convs(14) CMutableTransaction.surjective
    CMutableTransaction.update_convs(14))
  then have ne: "tx_bytes ?z \<noteq> tx_bytes tx" using txcodec.prefix_free [OF z assms(1), of "[]" "[]"] by auto
  have des: "CTransaction_deserialize (tx_bytes tx) = Inr (CTransaction_move tx, [])"
    using tx_roundtrip [OF assms(1), of "[]"] by (simp add: CTransaction_deserialize_def rbind_def rreturn_def)
  have ser: "ser_tx (CTransaction_move tx) = Inr (tx_bytes ?z)" "ser_tx (CTransaction_copy tx) = Inr (tx_bytes tx)" "ser_tx tx = Inr (tx_bytes tx)"
    using ser_tx_ok [OF z] ser_tx_ok [OF assms(1)]
    by (simp_all add: CTransaction_move_def CTransaction_copy_def ser_tx_CTransaction)
  have "bindingSig (CTransaction_move tx) = replicate 64 0" "bindingSig (CTransaction_copy tx) = bindingSig tx"
    by (simp_all add: CTransaction_move_def CTransaction_copy_def UpdateHash_def CTransaction_members_def)
  moreover have "tx_hash (CTransaction_move tx) = Hash (tx_bytes ?z)" "tx_hash (CTransaction_copy tx) = Hash (tx_bytes tx)"
    using ser_tx_ok [OF z] ser_tx_ok [OF assms(1)]
    by (simp_all add: CTransaction_move_def CTransaction_copy_def UpdateHash_def ser_tx_CTransaction)
  ultimately show ?thesis using des ser ne by simp
qed

theorem deserializing_constructor_drops_binding_sig_witness:
  "bindingSig ex_sapling_tx = replicate 64 7 \<and> ser_tx (CTransaction_move ex_sapling_tx) \<noteq> ser_tx ex_sapling_tx \<and>
   CTransaction_deserialize (tx_bytes ex_sapling_tx) = Inr (CTransaction_move ex_sapling_tx, [])"
proof -
  have "vShieldedSpend ex_sapling_tx \<noteq> []" "bindingSig ex_sapling_tx = replicate 64 7" "bindingSig ex_sapling_tx \<noteq> replicate 64 0"
    by (simp_all add: ex_sapling_tx_def replicate_eq_replicate)
  then show ?thesis using deserializing_constructor_drops_binding_sig [OF ex_sapling_tx_ok] by blast
qed

end
