(* ===== verification/Script.thy ===== *)
theory Script
  imports Transaction
begin

text \<open>
  Scripts: \<^verbatim>\<open>src/script/script.h\<close> and \<^verbatim>\<open>src/script/script.cpp\<close>. A script is its bytes, a position in it is the
  bytes that are left. The theory has the opcodes, script numbers with their sign-and-magnitude encoding,
  pushes, the instruction decoder, signature operation counts and the script patterns; it shows that the
  encoding of numbers is canonical, that pushes are read back, and that counts cannot overflow.
\<close>

unbundle bit_operations_syntax

section \<open>Limits and opcodes\<close>

definition MAX_SCRIPT_ELEMENT_SIZE :: nat where "MAX_SCRIPT_ELEMENT_SIZE = 520"
definition MAX_SCRIPT_SIZE :: nat where "MAX_SCRIPT_SIZE = 10000"
definition LOCKTIME_THRESHOLD :: uint32_t where "LOCKTIME_THRESHOLD = 500000000"

text \<open>An opcode is its byte; the names of the enumeration abbreviate the values the source gives them.\<close>

type_synonym opcodetype = byte

abbreviation (input) OP_0 :: opcodetype where "OP_0 \<equiv> 0x00"
abbreviation (input) OP_FALSE :: opcodetype where "OP_FALSE \<equiv> 0x00"
abbreviation (input) OP_PUSHDATA1 :: opcodetype where "OP_PUSHDATA1 \<equiv> 0x4c"
abbreviation (input) OP_PUSHDATA2 :: opcodetype where "OP_PUSHDATA2 \<equiv> 0x4d"
abbreviation (input) OP_PUSHDATA4 :: opcodetype where "OP_PUSHDATA4 \<equiv> 0x4e"
abbreviation (input) OP_1NEGATE :: opcodetype where "OP_1NEGATE \<equiv> 0x4f"
abbreviation (input) OP_RESERVED :: opcodetype where "OP_RESERVED \<equiv> 0x50"
abbreviation (input) OP_1 :: opcodetype where "OP_1 \<equiv> 0x51"
abbreviation (input) OP_TRUE :: opcodetype where "OP_TRUE \<equiv> 0x51"
abbreviation (input) OP_2 :: opcodetype where "OP_2 \<equiv> 0x52"
abbreviation (input) OP_3 :: opcodetype where "OP_3 \<equiv> 0x53"
abbreviation (input) OP_4 :: opcodetype where "OP_4 \<equiv> 0x54"
abbreviation (input) OP_5 :: opcodetype where "OP_5 \<equiv> 0x55"
abbreviation (input) OP_6 :: opcodetype where "OP_6 \<equiv> 0x56"
abbreviation (input) OP_7 :: opcodetype where "OP_7 \<equiv> 0x57"
abbreviation (input) OP_8 :: opcodetype where "OP_8 \<equiv> 0x58"
abbreviation (input) OP_9 :: opcodetype where "OP_9 \<equiv> 0x59"
abbreviation (input) OP_10 :: opcodetype where "OP_10 \<equiv> 0x5a"
abbreviation (input) OP_11 :: opcodetype where "OP_11 \<equiv> 0x5b"
abbreviation (input) OP_12 :: opcodetype where "OP_12 \<equiv> 0x5c"
abbreviation (input) OP_13 :: opcodetype where "OP_13 \<equiv> 0x5d"
abbreviation (input) OP_14 :: opcodetype where "OP_14 \<equiv> 0x5e"
abbreviation (input) OP_15 :: opcodetype where "OP_15 \<equiv> 0x5f"
abbreviation (input) OP_16 :: opcodetype where "OP_16 \<equiv> 0x60"
abbreviation (input) OP_NOP :: opcodetype where "OP_NOP \<equiv> 0x61"
abbreviation (input) OP_VER :: opcodetype where "OP_VER \<equiv> 0x62"
abbreviation (input) OP_IF :: opcodetype where "OP_IF \<equiv> 0x63"
abbreviation (input) OP_NOTIF :: opcodetype where "OP_NOTIF \<equiv> 0x64"
abbreviation (input) OP_VERIF :: opcodetype where "OP_VERIF \<equiv> 0x65"
abbreviation (input) OP_VERNOTIF :: opcodetype where "OP_VERNOTIF \<equiv> 0x66"
abbreviation (input) OP_ELSE :: opcodetype where "OP_ELSE \<equiv> 0x67"
abbreviation (input) OP_ENDIF :: opcodetype where "OP_ENDIF \<equiv> 0x68"
abbreviation (input) OP_VERIFY :: opcodetype where "OP_VERIFY \<equiv> 0x69"
abbreviation (input) OP_RETURN :: opcodetype where "OP_RETURN \<equiv> 0x6a"
abbreviation (input) OP_TOALTSTACK :: opcodetype where "OP_TOALTSTACK \<equiv> 0x6b"
abbreviation (input) OP_FROMALTSTACK :: opcodetype where "OP_FROMALTSTACK \<equiv> 0x6c"
abbreviation (input) OP_2DROP :: opcodetype where "OP_2DROP \<equiv> 0x6d"
abbreviation (input) OP_2DUP :: opcodetype where "OP_2DUP \<equiv> 0x6e"
abbreviation (input) OP_3DUP :: opcodetype where "OP_3DUP \<equiv> 0x6f"
abbreviation (input) OP_2OVER :: opcodetype where "OP_2OVER \<equiv> 0x70"
abbreviation (input) OP_2ROT :: opcodetype where "OP_2ROT \<equiv> 0x71"
abbreviation (input) OP_2SWAP :: opcodetype where "OP_2SWAP \<equiv> 0x72"
abbreviation (input) OP_IFDUP :: opcodetype where "OP_IFDUP \<equiv> 0x73"
abbreviation (input) OP_DEPTH :: opcodetype where "OP_DEPTH \<equiv> 0x74"
abbreviation (input) OP_DROP :: opcodetype where "OP_DROP \<equiv> 0x75"
abbreviation (input) OP_DUP :: opcodetype where "OP_DUP \<equiv> 0x76"
abbreviation (input) OP_NIP :: opcodetype where "OP_NIP \<equiv> 0x77"
abbreviation (input) OP_OVER :: opcodetype where "OP_OVER \<equiv> 0x78"
abbreviation (input) OP_PICK :: opcodetype where "OP_PICK \<equiv> 0x79"
abbreviation (input) OP_ROLL :: opcodetype where "OP_ROLL \<equiv> 0x7a"
abbreviation (input) OP_ROT :: opcodetype where "OP_ROT \<equiv> 0x7b"
abbreviation (input) OP_SWAP :: opcodetype where "OP_SWAP \<equiv> 0x7c"
abbreviation (input) OP_TUCK :: opcodetype where "OP_TUCK \<equiv> 0x7d"
abbreviation (input) OP_CAT :: opcodetype where "OP_CAT \<equiv> 0x7e"
abbreviation (input) OP_SUBSTR :: opcodetype where "OP_SUBSTR \<equiv> 0x7f"
abbreviation (input) OP_LEFT :: opcodetype where "OP_LEFT \<equiv> 0x80"
abbreviation (input) OP_RIGHT :: opcodetype where "OP_RIGHT \<equiv> 0x81"
abbreviation (input) OP_SIZE :: opcodetype where "OP_SIZE \<equiv> 0x82"
abbreviation (input) OP_INVERT :: opcodetype where "OP_INVERT \<equiv> 0x83"
abbreviation (input) OP_AND :: opcodetype where "OP_AND \<equiv> 0x84"
abbreviation (input) OP_OR :: opcodetype where "OP_OR \<equiv> 0x85"
abbreviation (input) OP_XOR :: opcodetype where "OP_XOR \<equiv> 0x86"
abbreviation (input) OP_EQUAL :: opcodetype where "OP_EQUAL \<equiv> 0x87"
abbreviation (input) OP_EQUALVERIFY :: opcodetype where "OP_EQUALVERIFY \<equiv> 0x88"
abbreviation (input) OP_RESERVED1 :: opcodetype where "OP_RESERVED1 \<equiv> 0x89"
abbreviation (input) OP_RESERVED2 :: opcodetype where "OP_RESERVED2 \<equiv> 0x8a"
abbreviation (input) OP_1ADD :: opcodetype where "OP_1ADD \<equiv> 0x8b"
abbreviation (input) OP_1SUB :: opcodetype where "OP_1SUB \<equiv> 0x8c"
abbreviation (input) OP_2MUL :: opcodetype where "OP_2MUL \<equiv> 0x8d"
abbreviation (input) OP_2DIV :: opcodetype where "OP_2DIV \<equiv> 0x8e"
abbreviation (input) OP_NEGATE :: opcodetype where "OP_NEGATE \<equiv> 0x8f"
abbreviation (input) OP_ABS :: opcodetype where "OP_ABS \<equiv> 0x90"
abbreviation (input) OP_NOT :: opcodetype where "OP_NOT \<equiv> 0x91"
abbreviation (input) OP_0NOTEQUAL :: opcodetype where "OP_0NOTEQUAL \<equiv> 0x92"
abbreviation (input) OP_ADD :: opcodetype where "OP_ADD \<equiv> 0x93"
abbreviation (input) OP_SUB :: opcodetype where "OP_SUB \<equiv> 0x94"
abbreviation (input) OP_MUL :: opcodetype where "OP_MUL \<equiv> 0x95"
abbreviation (input) OP_DIV :: opcodetype where "OP_DIV \<equiv> 0x96"
abbreviation (input) OP_MOD :: opcodetype where "OP_MOD \<equiv> 0x97"
abbreviation (input) OP_LSHIFT :: opcodetype where "OP_LSHIFT \<equiv> 0x98"
abbreviation (input) OP_RSHIFT :: opcodetype where "OP_RSHIFT \<equiv> 0x99"
abbreviation (input) OP_BOOLAND :: opcodetype where "OP_BOOLAND \<equiv> 0x9a"
abbreviation (input) OP_BOOLOR :: opcodetype where "OP_BOOLOR \<equiv> 0x9b"
abbreviation (input) OP_NUMEQUAL :: opcodetype where "OP_NUMEQUAL \<equiv> 0x9c"
abbreviation (input) OP_NUMEQUALVERIFY :: opcodetype where "OP_NUMEQUALVERIFY \<equiv> 0x9d"
abbreviation (input) OP_NUMNOTEQUAL :: opcodetype where "OP_NUMNOTEQUAL \<equiv> 0x9e"
abbreviation (input) OP_LESSTHAN :: opcodetype where "OP_LESSTHAN \<equiv> 0x9f"
abbreviation (input) OP_GREATERTHAN :: opcodetype where "OP_GREATERTHAN \<equiv> 0xa0"
abbreviation (input) OP_LESSTHANOREQUAL :: opcodetype where "OP_LESSTHANOREQUAL \<equiv> 0xa1"
abbreviation (input) OP_GREATERTHANOREQUAL :: opcodetype where "OP_GREATERTHANOREQUAL \<equiv> 0xa2"
abbreviation (input) OP_MIN :: opcodetype where "OP_MIN \<equiv> 0xa3"
abbreviation (input) OP_MAX :: opcodetype where "OP_MAX \<equiv> 0xa4"
abbreviation (input) OP_WITHIN :: opcodetype where "OP_WITHIN \<equiv> 0xa5"
abbreviation (input) OP_RIPEMD160 :: opcodetype where "OP_RIPEMD160 \<equiv> 0xa6"
abbreviation (input) OP_SHA1 :: opcodetype where "OP_SHA1 \<equiv> 0xa7"
abbreviation (input) OP_SHA256 :: opcodetype where "OP_SHA256 \<equiv> 0xa8"
abbreviation (input) OP_HASH160 :: opcodetype where "OP_HASH160 \<equiv> 0xa9"
abbreviation (input) OP_HASH256 :: opcodetype where "OP_HASH256 \<equiv> 0xaa"
abbreviation (input) OP_CODESEPARATOR :: opcodetype where "OP_CODESEPARATOR \<equiv> 0xab"
abbreviation (input) OP_CHECKSIG :: opcodetype where "OP_CHECKSIG \<equiv> 0xac"
abbreviation (input) OP_CHECKSIGVERIFY :: opcodetype where "OP_CHECKSIGVERIFY \<equiv> 0xad"
abbreviation (input) OP_CHECKMULTISIG :: opcodetype where "OP_CHECKMULTISIG \<equiv> 0xae"
abbreviation (input) OP_CHECKMULTISIGVERIFY :: opcodetype where "OP_CHECKMULTISIGVERIFY \<equiv> 0xaf"
abbreviation (input) OP_NOP1 :: opcodetype where "OP_NOP1 \<equiv> 0xb0"
abbreviation (input) OP_NOP2 :: opcodetype where "OP_NOP2 \<equiv> 0xb1"
abbreviation (input) OP_CHECKLOCKTIMEVERIFY :: opcodetype where "OP_CHECKLOCKTIMEVERIFY \<equiv> 0xb1"
abbreviation (input) OP_NOP3 :: opcodetype where "OP_NOP3 \<equiv> 0xb2"
abbreviation (input) OP_NOP4 :: opcodetype where "OP_NOP4 \<equiv> 0xb3"
abbreviation (input) OP_NOP5 :: opcodetype where "OP_NOP5 \<equiv> 0xb4"
abbreviation (input) OP_NOP6 :: opcodetype where "OP_NOP6 \<equiv> 0xb5"
abbreviation (input) OP_NOP7 :: opcodetype where "OP_NOP7 \<equiv> 0xb6"
abbreviation (input) OP_NOP8 :: opcodetype where "OP_NOP8 \<equiv> 0xb7"
abbreviation (input) OP_NOP9 :: opcodetype where "OP_NOP9 \<equiv> 0xb8"
abbreviation (input) OP_NOP10 :: opcodetype where "OP_NOP10 \<equiv> 0xb9"
abbreviation (input) OP_INVALIDOPCODE :: opcodetype where "OP_INVALIDOPCODE \<equiv> 0xff"

section \<open>Numbers in scripts\<close>

text \<open>
  \<open>m_value\<close> is an \<open>int64_t\<close>. Conversion from bytes throws on an operand that is too long or, on request,
  not minimal; the sum, difference and negation assert that the result fits 64 bits.
\<close>

type_synonym valtype = "byte list"
type_synonym CScriptNum = int

definition nDefaultMaxNumSize :: nat where "nDefaultMaxNumSize = 4"
definition INT64_MIN :: int where "INT64_MIN = - (2 ^ 63)"
definition INT64_MAX :: int where "INT64_MAX = 2 ^ 63 - 1"
definition int64_min_vch :: "byte list" where "int64_min_vch = [0, 0, 0, 0, 0, 0, 0, 128, 128]"

definition set_vch :: "byte list \<Rightarrow> int result" where
  "set_vch vch =
     (if vch = [] then Inr 0
      else if vch = int64_min_vch then Inr INT64_MIN
      else if length vch > 8 then Inl (Throw ''script number overflow'')
      else let result = foldl (\<lambda>r i. r OR push_bit (8 * i) (ucast (vch ! i))) (0 :: uint64_t) [0..<length vch]
           in if last vch AND 0x80 \<noteq> 0
              then Inr (- sint (result AND NOT (push_bit (8 * (length vch - 1)) 0x80)))
              else Inr (sint result))"

definition vch_minimal :: "byte list \<Rightarrow> bool" where
  "vch_minimal vch \<longleftrightarrow>
     \<not> (length vch > 0 \<and> last vch AND 0x7f = 0 \<and>
        (length vch \<le> 1 \<or> vch ! (length vch - 2) AND 0x80 = 0))"

definition CScriptNum_of :: "byte list \<Rightarrow> bool \<Rightarrow> nat \<Rightarrow> CScriptNum result" where
  "CScriptNum_of vch fRequireMinimal nMaxNumSize =
     (if length vch > nMaxNumSize then Inl (Throw ''script number overflow'')
      else if fRequireMinimal \<and> \<not> vch_minimal vch then Inl (Throw ''non-minimally encoded script number'')
      else set_vch vch)"

definition CScriptNum_add :: "CScriptNum \<Rightarrow> CScriptNum \<Rightarrow> CScriptNum result" where
  "CScriptNum_add v rhs =
     (if rhs = 0 \<or> (rhs > 0 \<and> v \<le> INT64_MAX - rhs) \<or> (rhs < 0 \<and> v \<ge> INT64_MIN - rhs)
      then Inr (v + rhs) else Inl (AssertFail ''CScriptNum::operator+=''))"

definition CScriptNum_sub :: "CScriptNum \<Rightarrow> CScriptNum \<Rightarrow> CScriptNum result" where
  "CScriptNum_sub v rhs =
     (if rhs = 0 \<or> (rhs > 0 \<and> v \<ge> INT64_MIN + rhs) \<or> (rhs < 0 \<and> v \<le> INT64_MAX + rhs)
      then Inr (v - rhs) else Inl (AssertFail ''CScriptNum::operator-=''))"

definition CScriptNum_neg :: "CScriptNum \<Rightarrow> CScriptNum result" where
  "CScriptNum_neg v = (if v \<noteq> INT64_MIN then Inr (- v) else Inl (AssertFail ''CScriptNum::operator-''))"

definition getint :: "CScriptNum \<Rightarrow> int" where
  "getint v = (if v > 2 ^ 31 - 1 then 2 ^ 31 - 1 else if v < - (2 ^ 31) then - (2 ^ 31) else v)"

text \<open>The loop that emits the bytes of the absolute value.\<close>

function abs_bytes :: "uint64_t \<Rightarrow> byte list" where
  "abs_bytes absvalue =
     (if absvalue = 0 then [] else ucast (absvalue AND 0xff) # abs_bytes (drop_bit 8 absvalue))"
  by pat_completeness auto
termination
proof (relation "measure unat")
  fix v :: uint64_t
  assume "v \<noteq> 0"
  then have "0 < unat v" by (simp add: unat_gt_0)
  then show "(drop_bit 8 v, v) \<in> measure unat" by (simp add: unat_drop_bit)
qed simp

declare abs_bytes.simps [simp del]

definition scriptnum_serialize :: "CScriptNum \<Rightarrow> byte list" where
  "scriptnum_serialize v =
     (if v = 0 then []
      else if v = INT64_MIN then int64_min_vch
      else let neg = v < 0;
               result = abs_bytes (word_of_int (if neg then - v else v))
           in if last result AND 0x80 \<noteq> 0 then result @ [if neg then 0x80 else 0]
              else if neg then butlast result @ [last result OR 0x80]
              else result)"

definition getvch :: "CScriptNum \<Rightarrow> valtype" where
  "getvch = scriptnum_serialize"

section \<open>Writing scripts\<close>

definition script_push :: "byte list \<Rightarrow> CScript" where
  "script_push b =
     (if length b < unat OP_PUSHDATA1 then [of_nat (length b)]
      else if length b \<le> 0xff then [OP_PUSHDATA1, of_nat (length b)]
      else if length b \<le> 0xffff then OP_PUSHDATA2 # le_bytes 2 (length b)
      else OP_PUSHDATA4 # le_bytes 4 (length b)) @ b"

definition push_int64 :: "int \<Rightarrow> CScript" where
  "push_int64 n =
     (if n = - 1 \<or> (n \<ge> 1 \<and> n \<le> 16) then [word_of_int (n + (uint OP_1 - 1))]
      else if n = 0 then [OP_0]
      else script_push (scriptnum_serialize n))"

section \<open>Reading scripts\<close>

text \<open>
  A position in a script is what is left of it. \<open>GetOp2\<close> returns the opcode, its immediate operand and the
  position after it, or \<open>None\<close> where the code returns \<open>false\<close>; every caller then leaves its loop.
\<close>

definition GetOp2 :: "byte list \<Rightarrow> (opcodetype \<times> valtype \<times> byte list) option" where
  "GetOp2 pc =
     (case pc of
        [] \<Rightarrow> None
      | opcode # pc \<Rightarrow>
          if opcode \<le> OP_PUSHDATA4 then
            let operand = (if opcode < OP_PUSHDATA1 then Some (unat opcode, pc)
                           else if opcode = OP_PUSHDATA1 then
                             (if length pc < 1 then None else Some (unat (pc ! 0), drop 1 pc))
                           else if opcode = OP_PUSHDATA2 then
                             (if length pc < 2 then None else Some (bytes_val (take 2 pc), drop 2 pc))
                           else
                             (if length pc < 4 then None else Some (bytes_val (take 4 pc), drop 4 pc)))
            in (case operand of
                  None \<Rightarrow> None
                | Some (nSize, pc) \<Rightarrow> if length pc < nSize then None else Some (opcode, take nSize pc, drop nSize pc))
          else Some (opcode, [], pc))"

definition DecodeOP_N :: "opcodetype \<Rightarrow> int result" where
  "DecodeOP_N opcode =
     (if opcode = OP_0 then Inr 0
      else if opcode \<ge> OP_1 \<and> opcode \<le> OP_16 then Inr (uint opcode - (uint OP_1 - 1))
      else Inl (AssertFail ''opcode >= OP_1 && opcode <= OP_16''))"

definition EncodeOP_N :: "int \<Rightarrow> opcodetype result" where
  "EncodeOP_N n =
     (if \<not> (n \<ge> 0 \<and> n \<le> 16) then Inl (AssertFail ''n >= 0 && n <= 16'')
      else if n = 0 then Inr OP_0 else Inr (word_of_int (uint OP_1 + n - 1)))"

lemma GetOp2_shorter: "GetOp2 pc = Some (opcode, data, pc') \<Longrightarrow> length pc' < length pc"
  by (cases pc) (auto simp: GetOp2_def Let_def split: if_splits option.splits)

text \<open>
  \<open>DecodeOP_N\<close> is only called with an opcode from \<open>OP_1\<close> to \<open>OP_16\<close>, so its assertion is not reached and
  its value is used as a number.
\<close>

function GetSigOpCount_loop :: "bool \<Rightarrow> uint32_t \<Rightarrow> opcodetype \<Rightarrow> byte list \<Rightarrow> uint32_t" where
  "GetSigOpCount_loop fAccurate n lastOpcode pc =
     (if pc = [] then n
      else case GetOp2 pc of
        None \<Rightarrow> n
      | Some (opcode, _, pc') \<Rightarrow>
          GetSigOpCount_loop fAccurate
            (if opcode = OP_CHECKSIG \<or> opcode = OP_CHECKSIGVERIFY then n + 1
             else if opcode = OP_CHECKMULTISIG \<or> opcode = OP_CHECKMULTISIGVERIFY then
               (if fAccurate \<and> lastOpcode \<ge> OP_1 \<and> lastOpcode \<le> OP_16
                then n + (case DecodeOP_N lastOpcode of Inr k \<Rightarrow> word_of_int k | Inl _ \<Rightarrow> 0)
                else n + 20)
             else n)
            opcode pc')"
  by pat_completeness auto
termination
  by (relation "measure (\<lambda>(_, _, _, pc). length pc)") (auto dest: GetOp2_shorter)

declare GetSigOpCount_loop.simps [simp del]

definition GetSigOpCount :: "bool \<Rightarrow> CScript \<Rightarrow> uint32_t" where
  "GetSigOpCount fAccurate script = GetSigOpCount_loop fAccurate 0 OP_INVALIDOPCODE script"

definition IsPayToPublicKeyHash :: "CScript \<Rightarrow> bool" where
  "IsPayToPublicKeyHash s \<longleftrightarrow>
     length s = 25 \<and> s ! 0 = OP_DUP \<and> s ! 1 = OP_HASH160 \<and> s ! 2 = 0x14 \<and> s ! 23 = OP_EQUALVERIFY \<and> s ! 24 = OP_CHECKSIG"

definition IsPayToScriptHash :: "CScript \<Rightarrow> bool" where
  "IsPayToScriptHash s \<longleftrightarrow> length s = 23 \<and> s ! 0 = OP_HASH160 \<and> s ! 1 = 0x14 \<and> s ! 22 = OP_EQUAL"

function GetSigOpCount_last :: "valtype \<Rightarrow> byte list \<Rightarrow> valtype option" where
  "GetSigOpCount_last data pc =
     (if pc = [] then Some data
      else case GetOp2 pc of
        None \<Rightarrow> None
      | Some (opcode, data', pc') \<Rightarrow> if opcode > OP_16 then None else GetSigOpCount_last data' pc')"
  by pat_completeness auto
termination
  by (relation "measure (\<lambda>(_, pc). length pc)") (auto dest: GetOp2_shorter)

declare GetSigOpCount_last.simps [simp del]

definition GetSigOpCount_P2SH :: "CScript \<Rightarrow> CScript \<Rightarrow> uint32_t" where
  "GetSigOpCount_P2SH script sig =
     (if \<not> IsPayToScriptHash script then GetSigOpCount True script
      else case GetSigOpCount_last [] sig of
        None \<Rightarrow> 0
      | Some data \<Rightarrow> GetSigOpCount True data)"

function IsPushOnly :: "byte list \<Rightarrow> bool" where
  "IsPushOnly pc =
     (if pc = [] then True
      else case GetOp2 pc of
        None \<Rightarrow> False
      | Some (opcode, _, pc') \<Rightarrow> if opcode > OP_16 then False else IsPushOnly pc')"
  by pat_completeness auto
termination
  by (relation "measure length") (auto dest: GetOp2_shorter)

declare IsPushOnly.simps [simp del]

datatype ScriptType = UNKNOWN | P2PKH | P2SH

definition GetType :: "CScript \<Rightarrow> ScriptType" where
  "GetType s = (if IsPayToPublicKeyHash s then P2PKH else if IsPayToScriptHash s then P2SH else UNKNOWN)"

definition AddressHash :: "CScript \<Rightarrow> byte list" where
  "AddressHash s =
     (if IsPayToPublicKeyHash s then take 20 (drop 3 s)
      else if IsPayToScriptHash s then take 20 (drop 2 s)
      else replicate 20 0)"

definition IsUnspendable :: "CScript \<Rightarrow> bool" where
  "IsUnspendable s \<longleftrightarrow> (length s > 0 \<and> s ! 0 = OP_RETURN) \<or> length s > MAX_SCRIPT_SIZE"

section \<open>Script numbers: the encoding is canonical\<close>

lemma byte_7f: "unat ((v :: byte) AND 0x7f) = unat v mod 128"
proof -
  have "v AND 0x7f = take_bit 7 v" by (simp add: take_bit_eq_mask mask_eq_exp_minus_1)
  then have "unat (v AND 0x7f) = take_bit 7 (unat v)" by (simp only: unsigned_take_bit_eq)
  then show ?thesis by (simp add: take_bit_eq_mod)
qed

lemma byte_bit7: "bit (v :: byte) 7 \<longleftrightarrow> \<not> unat v < 128"
proof -
  have "bit v 7 \<longleftrightarrow> bit (unat v) 7" by (simp add: bit_unsigned_iff)
  also have "\<dots> \<longleftrightarrow> odd (unat v div 128)" by (simp add: bit_iff_odd)
  also have "\<dots> \<longleftrightarrow> \<not> unat v < 128" using unsigned_less [where ?'a = nat, of v]
    by (cases "unat v < 128") (auto simp: div_if)
  finally show ?thesis .
qed

lemma byte_80: "(v :: byte) AND 0x80 = 0 \<longleftrightarrow> unat v < 128"
proof -
  have "v AND 0x80 = 0 \<longleftrightarrow> \<not> bit v 7"
  proof
    assume "v AND 0x80 = 0"
    then have "\<not> bit (v AND 0x80) 7" by simp
    then show "\<not> bit v 7" by (simp add: bit_and_iff bit_byte_80)
  next
    assume "\<not> bit v 7"
    then have "\<not> bit (v AND 0x80) k" for k by (simp only: bit_and_iff bit_byte_80) blast
    then show "v AND 0x80 = 0" by (intro bit_word_eqI) (simp only: bit_0_eq bot_apply bot_bool_def simp_thms)
  qed
  then show ?thesis by (simp only: byte_bit7 not_not)
qed

lemma byte_split: "unat (v :: byte) < 128 \<Longrightarrow> v AND 0x7f = v" "\<not> unat v < 128 \<Longrightarrow> (v AND 0x7f) OR 0x80 = v"
proof -
  have m: "(0x7f :: byte) = mask 7" by (simp add: mask_eq_exp_minus_1)
  show "v AND 0x7f = v" if "unat v < 128" using that by (simp add: word_unat_eq_iff byte_7f)
  show "(v AND 0x7f) OR 0x80 = v" if "\<not> unat v < 128"
  proof (rule bit_word_eqI)
    fix k assume k: "k < LENGTH(8)"
    show "bit ((v AND 0x7f) OR 0x80) k = bit v k"
      using that [folded byte_bit7] k by (cases "k = 7") (simp_all only: m bit_and_iff bit_or_iff bit_mask_iff bit_byte_80, auto)
  qed
qed

lemma byte_or80: "unat (v :: byte) < 128 \<Longrightarrow> unat (v OR 0x80) = unat v + 128"
proof -
  assume v: "unat v < 128"
  have "\<not> unat (v OR 0x80) < 128" by (simp only: byte_bit7 [symmetric] bit_or_iff bit_byte_80 simp_thms)
  moreover have "(v OR 0x80) AND 0x7f = v"
  proof (rule bit_word_eqI)
    fix k assume k: "k < LENGTH(8)"
    have m: "(0x7f :: byte) = mask 7" by (simp add: mask_eq_exp_minus_1)
    show "bit ((v OR 0x80) AND 0x7f) k = bit v k"
      using v byte_bit7 [of v] k by (cases "k = 7") (simp_all only: m bit_and_iff bit_or_iff bit_mask_iff bit_byte_80, auto)
  qed
  ultimately show ?thesis using byte_7f [of "v OR 0x80"] unsigned_less [where ?'a = nat, of "v OR 0x80"] by (simp add: le_mod_geq)
qed

text \<open>The loop that puts the bytes in place computes their little-endian value.\<close>

lemma or_push_bytes:
  fixes r :: uint64_t
  assumes "length vch \<le> 8" "n \<le> length vch"
  shows "foldl (\<lambda>r i. r OR push_bit (8 * i) (ucast (vch ! i))) (0 :: uint64_t) [0..<n] = of_nat (bytes_val (take n vch))"
  using assms(2)
proof (induction n)
  case 0
  then show ?case by simp
next
  case (Suc n)
  have lt: "bytes_val (take n vch) < 2 ^ (8 * n)" using bytes_val_less [of "take n vch"] Suc.prems by (simp add: pow256)
  have n: "8 * n + 8 \<le> 64" using Suc.prems assms(1) by simp
  define lo :: uint64_t where "lo = of_nat (bytes_val (take n vch))"
  have "\<not> (bit lo k \<and> bit (push_bit (8 * n) (ucast (vch ! n) :: uint64_t)) k)" for k
  proof (cases "k < 8 * n")
    case True
    then show ?thesis by (simp add: bit_push_bit_iff)
  next
    case False
    have "take_bit (8 * n) (bytes_val (take n vch)) = bytes_val (take n vch)" using lt by (simp add: take_bit_nat_eq_self)
    then have "\<not> bit (bytes_val (take n vch)) k" using False by (metis bit_take_bit_iff)
    then show ?thesis by (simp add: lo_def bit_of_nat_iff)
  qed
  then have "lo OR push_bit (8 * n) (ucast (vch ! n)) = lo + push_bit (8 * n) (ucast (vch ! n))"
    by (intro disjunctive_add [symmetric]) blast
  also have "\<dots> = lo + of_nat (256 ^ n * unat (vch ! n))"
    by (simp add: push_bit_eq_mult pow256 mult.commute)
  also have "\<dots> = of_nat (bytes_val (take (Suc n) vch))"
    using Suc.prems by (simp add: lo_def take_Suc_conv_app_nth bytes_val_append min_def)
  finally show ?case
    unfolding lo_def using Suc.IH [OF Suc_leD [OF Suc.prems]] by (simp only: upt_Suc le0 if_True foldl_append foldl_Cons foldl_Nil)
qed


lemma clear_top_bit:
  assumes "n < 2 ^ k"
  shows "(of_nat n + 2 ^ k :: 'a::len word) AND NOT (2 ^ k) = of_nat n"
proof -
  have no: "\<not> bit (of_nat n :: 'a word) k"
  proof -
    have "take_bit k n = n" using assms by (simp add: take_bit_nat_eq_self)
    then have "\<not> bit n k" by (metis bit_take_bit_iff less_irrefl)
    then show ?thesis by (simp add: bit_of_nat_iff)
  qed
  then have "of_nat n + 2 ^ k = (of_nat n :: 'a word) OR 2 ^ k"
    by (intro disjunctive_add) (auto simp: bit_exp_iff)
  then show ?thesis
    using no by (auto intro!: bit_word_eqI simp: bit_and_iff bit_or_iff bit_not_iff bit_exp_iff)
qed

lemma bytes_val_snoc_less:
  assumes "unat v < k"
  shows "bytes_val (bs @ [v]) < k * 256 ^ length bs"
proof -
  have "bytes_val (bs @ [v]) < Suc (unat v) * 256 ^ length bs"
    using bytes_val_less [of bs] by (simp add: bytes_val_append mult.commute)
  also have "\<dots> \<le> k * 256 ^ length bs" using assms by (intro mult_le_mono1) simp
  finally show ?thesis .
qed

lemma bytes_val_top:
  assumes "\<not> unat v < 128"
  shows "bytes_val (bs @ [v]) = bytes_val (bs @ [v AND 0x7f]) + 2 ^ (8 * length bs + 7)"
proof -
  obtain u where "unat v = 128 + u" using assms by (metis add.commute le_Suc_ex not_less)
  moreover have "u < 128" using calculation unsigned_less [where ?'a = nat, of v] by simp
  ultimately show ?thesis by (simp add: bytes_val_append byte_7f pow256 power_add algebra_simps)
qed

lemma set_vch_snoc:
  assumes "length bs < 8"
  shows "set_vch (bs @ [v]) =
    Inr (if unat v < 128 then int (bytes_val (bs @ [v])) else - int (bytes_val (bs @ [v AND 0x7f])))"
proof -
  let ?vch = "bs @ [v]"
  define w :: uint64_t where "w = of_nat (bytes_val ?vch)"
  have fold: "foldl (\<lambda>r i. r OR push_bit (8 * i) (ucast (?vch ! i))) (0 :: uint64_t) [0..<length ?vch] = w"
    unfolding w_def using or_push_bytes [of ?vch "length ?vch"] assms by (simp only: take_all order_refl length_append) simp
  have top: "bytes_val (bs @ [v AND 0x7f]) < 128 * 256 ^ length bs"
    by (rule bytes_val_snoc_less) (simp add: byte_7f)
  have le: "(128 :: nat) * 256 ^ length bs \<le> 2 ^ 63"
    using power_increasing [of "length bs" 7 "256 :: nat"] assms by simp
  have sint: "sint (of_nat n :: uint64_t) = int n" if "n < 128 * 256 ^ length bs" for n
    using less_le_trans [OF that le] by (simp add: signed_of_nat signed_take_bit_int_eq_self)
  have flag: "push_bit (8 * length bs) 0x80 = (2 ^ (8 * length bs + 7) :: uint64_t)"
    by (simp add: push_bit_eq_mult power_add)
  have "sint (w AND NOT (push_bit (8 * length bs) 0x80)) = int (bytes_val (bs @ [v AND 0x7f]))" if "\<not> unat v < 128"
  proof -
    have "w = of_nat (bytes_val (bs @ [v AND 0x7f])) + 2 ^ (8 * length bs + 7)"
      unfolding w_def bytes_val_top [OF that] by (simp only: of_nat_add of_nat_power of_nat_numeral)
    moreover have "bytes_val (bs @ [v AND 0x7f]) < 2 ^ (8 * length bs + 7)"
      using top by (simp only: pow256 power_add) (simp only: mult.commute, simp)
    ultimately show ?thesis using clear_top_bit sint [OF top] flag by metis
  qed
  moreover have "sint w = int (bytes_val ?vch)" if "unat v < 128"
    unfolding w_def by (rule sint) (rule bytes_val_snoc_less [OF that])
  moreover have "?vch \<noteq> int64_min_vch" "\<not> 8 < length ?vch" using assms by (auto simp: int64_min_vch_def dest: arg_cong [of _ _ length])
  moreover have "last ?vch AND 0x80 \<noteq> 0 \<longleftrightarrow> \<not> unat v < 128" by (simp only: last_snoc byte_80)
  ultimately show ?thesis
    by (cases "unat v < 128") (simp_all only: set_vch_def fold [unfolded length_append_singleton] Let_def append_is_Nil_conv
        list.distinct if_False simp_thms length_append_singleton diff_Suc_1 if_True)
qed

lemma abs_bytes_0 [simp]: "abs_bytes 0 = []"
  by (simp add: abs_bytes.simps)

lemma abs_bytes_step:
  assumes "unat b + 256 * n < 2 ^ 64" "b \<noteq> 0 \<or> n \<noteq> 0"
  shows "abs_bytes (of_nat (unat b + 256 * n)) = b # abs_bytes (of_nat n)"
proof -
  define w :: uint64_t where "w = of_nat (unat b + 256 * n)"
  have u: "unat w = unat b + 256 * n" unfolding w_def using assms(1) by (simp add: unat_of_nat del: of_nat_add of_nat_mult)
  have "w \<noteq> 0" using assms(2) u by (auto simp: unat_eq_0)
  moreover have "ucast (w AND 0xff) = b"
  proof -
    have "w AND 0xff = take_bit 8 w" by (simp add: take_bit_eq_mask mask_eq_exp_minus_1)
    then have "unat (ucast (w AND 0xff) :: byte) = unat w mod 256"
      by (simp only: unsigned_ucast_eq unsigned_take_bit_eq) (simp add: take_bit_eq_mod)
    also have "\<dots> = unat b" unfolding u by simp
    finally show ?thesis by (simp only: word_unat_eq_iff)
  qed
  moreover have "drop_bit 8 w = of_nat n"
  proof -
    have "unat (drop_bit 8 w) = n" unfolding unat_drop_bit u using unsigned_less [where ?'a = nat, of b] by simp
    moreover have "unat (of_nat n :: uint64_t) = n" using assms(1) by (simp add: unat_of_nat)
    ultimately show ?thesis by (simp only: word_unat_eq_iff)
  qed
  ultimately show ?thesis unfolding w_def [symmetric] by (subst abs_bytes.simps) simp
qed

text \<open>The only byte string without a zero at the end that has a given value is the one the loop emits.\<close>

lemma abs_bytes_unique:
  assumes "length bs \<le> 8" "bs \<noteq> [] \<Longrightarrow> last bs \<noteq> 0"
  shows "abs_bytes (of_nat (bytes_val bs)) = bs"
  using assms
proof (induction bs)
  case Nil
  then show ?case by simp
next
  case (Cons b bs)
  have lt: "unat b + 256 * bytes_val bs < 2 ^ 64"
    using bytes_val_less [of "b # bs"] power_increasing [of "length (b # bs)" 8 "256 :: nat"] Cons.prems(1) by simp
  show ?case
  proof (cases "bs = []")
    case True
    then show ?thesis using abs_bytes_step [of b 0] Cons.prems lt by simp
  next
    case False
    then have IH: "abs_bytes (of_nat (bytes_val bs)) = bs" using Cons by simp
    have "bytes_val bs \<noteq> 0"
    proof
      assume "bytes_val bs = 0"
      then show False using IH False by simp
    qed
    then show ?thesis using abs_bytes_step [OF lt] IH by (simp del: of_nat_add of_nat_mult)
  qed
qed

lemma strip_zeros: "\<exists>cs. length cs \<le> length bs \<and> bytes_val cs = bytes_val bs \<and> (cs \<noteq> [] \<longrightarrow> last cs \<noteq> 0)"
proof (induction bs rule: rev_induct)
  case Nil
  then show ?case by auto
next
  case (snoc b bs)
  show ?case
  proof (cases "b = 0")
    case True
    then show ?thesis using snoc by (auto simp: bytes_val_append intro: le_SucI)
  next
    case False
    then show ?thesis by (intro exI [of _ "bs @ [b]"]) simp
  qed
qed

lemma abs_bytes_val:
  "bytes_val (abs_bytes w) = unat w" "length (abs_bytes w) \<le> 8" "w \<noteq> 0 \<Longrightarrow> abs_bytes w \<noteq> []"
  "w \<noteq> 0 \<Longrightarrow> last (abs_bytes w) \<noteq> 0"
proof -
  obtain cs where cs: "length cs \<le> 8" "bytes_val cs = unat w" "cs \<noteq> [] \<longrightarrow> last cs \<noteq> 0"
    using strip_zeros [of "le_bytes 8 (unat w)"] by (auto simp: bytes_val_le_bytes)
  have "abs_bytes w = cs" using abs_bytes_unique [of cs] cs by simp
  moreover have "cs \<noteq> []" if "w \<noteq> 0" using cs(2) that by (auto simp: unat_eq_0)
  ultimately show "bytes_val (abs_bytes w) = unat w" "length (abs_bytes w) \<le> 8" "w \<noteq> 0 \<Longrightarrow> abs_bytes w \<noteq> []"
    "w \<noteq> 0 \<Longrightarrow> last (abs_bytes w) \<noteq> 0" using cs by auto
qed

text \<open>Sign and magnitude: what the encoder emits from the bytes of the magnitude.\<close>

definition signed_bytes :: "bool \<Rightarrow> byte list \<Rightarrow> byte list" where
  "signed_bytes neg r =
     (if last r AND 0x80 \<noteq> 0 then r @ [if neg then 0x80 else 0]
      else if neg then butlast r @ [last r OR 0x80] else r)"

lemma scriptnum_serialize_signed:
  assumes "v \<noteq> 0" "v \<noteq> INT64_MIN"
  shows "scriptnum_serialize v = signed_bytes (v < 0) (abs_bytes (of_nat (nat \<bar>v\<bar>)))"
  using assms by (auto simp: scriptnum_serialize_def signed_bytes_def Let_def abs_if)

lemma decode_signed_bytes:
  assumes r: "r \<noteq> []" "last r \<noteq> 0" "length r \<le> 8" "bytes_val r < 2 ^ 63"
  shows "length (signed_bytes neg r) \<le> 8 \<and> vch_minimal (signed_bytes neg r) \<and>
    set_vch (signed_bytes neg r) = Inr (if neg then - int (bytes_val r) else int (bytes_val r))"
proof (cases "unat (last r) < 128")
  case True
  obtain bs v where r': "r = bs @ [v]" using r(1) by (metis append_butlast_last_id)
  have v: "unat v < 128" "v \<noteq> 0" using True r(2) r' by auto
  have n7: "w AND 0x7f \<noteq> 0" if "unat w mod 128 \<noteq> 0" for w :: byte using that byte_7f [of w] by auto
  have "vch_minimal (signed_bytes neg r)"
    using v n7 [of v] n7 [of "v OR 0x80"] byte_or80 [of v]
    by (simp add: signed_bytes_def r' byte_80 vch_minimal_def unat_eq_0 [symmetric])
  moreover have "(v OR 0x80) AND 0x7f = v" using byte_or80 [OF v(1)] by (simp add: word_unat_eq_iff byte_7f v(1))
  ultimately show ?thesis
    using r(3) v set_vch_snoc [of bs v] set_vch_snoc [of bs "v OR 0x80"] byte_or80 [OF v(1)]
    by (simp add: signed_bytes_def r' byte_80)
next
  case False
  have "length r < 8"
  proof (rule ccontr)
    assume "\<not> length r < 8"
    obtain bs v where r': "r = bs @ [v]" using r(1) by (metis append_butlast_last_id)
    then have "length bs = 7" "\<not> unat v < 128" using \<open>\<not> length r < 8\<close> r(3) False by auto
    then have "2 ^ 63 \<le> bytes_val r" using bytes_val_top [of v bs] r' by simp
    then show False using r(4) by simp
  qed
  moreover have "vch_minimal (signed_bytes neg r)"
    using False r(1) by (simp add: signed_bytes_def byte_80 vch_minimal_def nth_append last_conv_nth)
  ultimately show ?thesis
    using False set_vch_snoc [of r 0] set_vch_snoc [of r "0x80"]
    by (simp add: signed_bytes_def byte_80 bytes_val_append)
qed

lemma signed_bytes_split:
  assumes "vch_minimal (bs @ [v])"
  obtains r where "r \<noteq> []" "last r \<noteq> 0" "length r \<le> Suc (length bs)" "bytes_val r = bytes_val (bs @ [v AND 0x7f])"
    "bs @ [v] = signed_bytes (\<not> unat v < 128) r"
proof (cases "v AND 0x7f = 0")
  case True
  then have v: "v = (if \<not> unat v < 128 then 0x80 else 0)" using byte_split [of v] by auto
  have bs: "bs \<noteq> []" "\<not> unat (last bs) < 128"
    using assms True by (auto simp: vch_minimal_def byte_80 nth_append last_conv_nth split: if_splits)
  then have "last bs \<noteq> 0" by auto
  moreover have "bs @ [v] = signed_bytes (\<not> unat v < 128) bs"
    using v bs(2) by (simp only: signed_bytes_def byte_80 simp_thms if_True if_False)
  ultimately show thesis using that [of bs] bs True by (simp add: bytes_val_append)
next
  case False
  have "unat (v AND 0x7f) < 128" by (simp add: byte_7f)
  then show thesis using that [of "bs @ [v AND 0x7f]"] False byte_split [of v]
    by (auto simp: signed_bytes_def byte_80)
qed

lemma unat64_of_nat: "m < 2 ^ 63 \<Longrightarrow> unat (of_nat m :: uint64_t) = m"
  by (simp add: unat_of_nat)

lemma scriptnum_exact:
  assumes "k \<le> 8"
  shows "CScriptNum_of vch True k = Inr n \<longleftrightarrow>
    length vch \<le> k \<and> vch = scriptnum_serialize n \<and> INT64_MIN \<le> n \<and> n \<le> INT64_MAX" (is "?l \<longleftrightarrow> ?r")
proof
  assume ?l
  then have l: "length vch \<le> k" "vch_minimal vch" "set_vch vch = Inr n"
    by (auto simp: CScriptNum_of_def split: if_splits)
  show ?r
  proof (cases vch rule: rev_cases)
    case Nil
    then show ?thesis using l by (simp add: set_vch_def scriptnum_serialize_def INT64_MIN_def INT64_MAX_def)
  next
    case (snoc bs v)
    have len: "length bs < 8" using l(1) assms snoc by simp
    obtain r where r: "r \<noteq> []" "last r \<noteq> 0" "length r \<le> Suc (length bs)" "bytes_val r = bytes_val (bs @ [v AND 0x7f])"
      "vch = signed_bytes (\<not> unat v < 128) r"
      using signed_bytes_split l(2) snoc by metis
    have "abs_bytes (of_nat (bytes_val r)) = r" using abs_bytes_unique [of r] r len by simp
    moreover from this have "bytes_val r \<noteq> 0" using r(1) by (cases "bytes_val r = 0") simp_all
    moreover have n: "n = (if unat v < 128 then int (bytes_val r) else - int (bytes_val r))"
      using l(3) snoc set_vch_snoc [OF len, of v] r(4) byte_split(1) [of v] by (auto split: if_splits)
    moreover have "bytes_val r < 2 ^ 63"
    proof -
      have "bytes_val r < 128 * 256 ^ length bs" unfolding r(4) by (rule bytes_val_snoc_less) (simp add: byte_7f)
      also have "\<dots> \<le> 2 ^ 63" using power_increasing [of "length bs" 7 "256 :: nat"] len by simp
      finally show ?thesis .
    qed
    moreover have "n \<noteq> 0" "n \<noteq> INT64_MIN" "n < 0 \<longleftrightarrow> \<not> unat v < 128" "nat \<bar>n\<bar> = bytes_val r"
      using calculation by (auto simp: INT64_MIN_def)
    ultimately have "vch = scriptnum_serialize n" "INT64_MIN \<le> n \<and> n \<le> INT64_MAX"
      using r(5) by (simp_all add: scriptnum_serialize_signed INT64_MIN_def INT64_MAX_def split: if_splits)
    then show ?thesis using l(1) by simp
  qed
next
  assume r: ?r
  show ?l
  proof (cases "n = 0")
    case True
    then show ?thesis using r by (simp add: scriptnum_serialize_def CScriptNum_of_def vch_minimal_def set_vch_def)
  next
    case False
    have min: "n \<noteq> INT64_MIN"
    proof
      assume "n = INT64_MIN"
      then have "length vch = 9" using r by (simp add: scriptnum_serialize_def INT64_MIN_def int64_min_vch_def)
      then show False using r assms by linarith
    qed
    define w :: uint64_t where "w = of_nat (nat \<bar>n\<bar>)"
    have lt: "nat \<bar>n\<bar> < 2 ^ 63" using r min by (auto simp: INT64_MIN_def INT64_MAX_def)
    then have w: "unat w = nat \<bar>n\<bar>" unfolding w_def by (rule unat64_of_nat)
    then have "w \<noteq> 0" using False by auto
    then have "length (signed_bytes (n < 0) (abs_bytes w)) \<le> 8 \<and> vch_minimal (signed_bytes (n < 0) (abs_bytes w)) \<and>
      set_vch (signed_bytes (n < 0) (abs_bytes w)) = Inr n"
      using decode_signed_bytes [of "abs_bytes w" "n < 0"] abs_bytes_val [of w] w lt by auto
    moreover have "vch = signed_bytes (n < 0) (abs_bytes w)"
      using r scriptnum_serialize_signed [OF False min] by (simp add: w_def)
    moreover have "\<not> k < length vch" using r by linarith
    ultimately show ?thesis by (simp add: CScriptNum_of_def)
  qed
qed

lemma scriptnum_roundtrip:
  assumes "INT64_MIN \<le> n" "n \<le> INT64_MAX"
  shows "set_vch (scriptnum_serialize n) = Inr n"
proof (cases "n = INT64_MIN")
  case True
  then show ?thesis by (simp add: scriptnum_serialize_def set_vch_def INT64_MIN_def int64_min_vch_def)
next
  case False
  have "length (scriptnum_serialize n) \<le> 8"
  proof (cases "n = 0")
    case True
    then show ?thesis by (simp add: scriptnum_serialize_def)
  next
    case n0: False
    define w :: uint64_t where "w = of_nat (nat \<bar>n\<bar>)"
    have lt: "nat \<bar>n\<bar> < 2 ^ 63" using assms False by (auto simp: INT64_MIN_def INT64_MAX_def)
    then have w: "unat w = nat \<bar>n\<bar>" unfolding w_def by (rule unat64_of_nat)
    then have "w \<noteq> 0" using n0 by auto
    then show ?thesis
      using decode_signed_bytes [of "abs_bytes w" "n < 0"] abs_bytes_val [of w] w lt scriptnum_serialize_signed [OF n0 False]
      by (simp add: w_def)
  qed
  then have "CScriptNum_of (scriptnum_serialize n) True 8 = Inr n" using assms by (simp add: scriptnum_exact)
  then show ?thesis by (auto simp: CScriptNum_of_def split: if_splits)
qed

text \<open>Operands of the default size are far from the limits of the 64-bit accumulator.\<close>

lemma scriptnum_range:
  assumes "CScriptNum_of vch m k = Inr n" "k \<le> 7"
  shows "\<bar>n\<bar> < 2 ^ (8 * k)"
proof -
  have l: "length vch \<le> k" "set_vch vch = Inr n" using assms(1) by (auto simp: CScriptNum_of_def split: if_splits)
  show ?thesis
  proof (cases vch rule: rev_cases)
    case Nil
    then show ?thesis using l by (auto simp: set_vch_def)
  next
    case (snoc bs v)
    have b: "bytes_val (bs @ [u]) < 2 ^ (8 * k)" for u
    proof -
      have "bytes_val (bs @ [u]) < 256 ^ length (bs @ [u])" by (rule bytes_val_less)
      also have "\<dots> \<le> 256 ^ k" using l(1) snoc by (intro power_increasing) simp_all
      finally show ?thesis by (simp only: pow256)
    qed
    have "n = int (bytes_val (bs @ [v])) \<or> n = - int (bytes_val (bs @ [v AND 0x7f]))"
      using set_vch_snoc [of bs v] l snoc assms(2) by (auto split: if_splits)
    moreover have "int (bytes_val (bs @ [u])) < 2 ^ (8 * k)" for u using b [of u] by (metis of_nat_less_iff of_nat_numeral of_nat_power)
    ultimately show ?thesis by auto
  qed
qed

section \<open>Pushes are read back, and sigops are bounded\<close>

lemma GetOp2_push:
  assumes "length b < 2 ^ 32"
  shows "\<exists>opcode. opcode \<le> OP_PUSHDATA4 \<and> GetOp2 (script_push b @ r) = Some (opcode, b, r)"
proof -
  consider "length b < 76" | "\<not> length b < 76" "length b \<le> 255" | "\<not> length b \<le> 255" "length b \<le> 65535"
    | "\<not> length b \<le> 65535" by blast
  then show ?thesis
  proof cases
    case 1
    have "unat (of_nat (length b) :: byte) = length b" using 1 by (simp add: unat_of_nat)
    then have "GetOp2 (script_push b @ r) = Some (of_nat (length b), b, r)" "(of_nat (length b) :: byte) \<le> OP_PUSHDATA4"
      using 1 by (simp_all add: script_push_def GetOp2_def Let_def word_le_nat_alt word_less_nat_alt)
    then show ?thesis by blast
  next
    case 2
    have "unat (of_nat (length b) :: byte) = length b" using 2 by (simp add: unat_of_nat)
    then have "GetOp2 (script_push b @ r) = Some (OP_PUSHDATA1, b, r)"
      using 2 by (simp add: script_push_def GetOp2_def Let_def)
    then show ?thesis by (intro exI [of _ OP_PUSHDATA1]) simp
  next
    case 3
    have "bytes_val (le_bytes 2 (length b)) = length b" using 3 by (simp add: bytes_val_le_bytes)
    then have "GetOp2 (script_push b @ r) = Some (OP_PUSHDATA2, b, r)"
      using 3 by (simp add: script_push_def GetOp2_def Let_def)
    then show ?thesis by (intro exI [of _ OP_PUSHDATA2]) simp
  next
    case 4
    have "bytes_val (le_bytes 4 (length b)) = length b" using assms by (simp add: bytes_val_le_bytes)
    then have "GetOp2 (script_push b @ r) = Some (OP_PUSHDATA4, b, r)"
      using 4 by (simp add: script_push_def GetOp2_def Let_def)
    then show ?thesis by (intro exI [of _ OP_PUSHDATA4]) simp
  qed
qed

lemma script_push_nonempty [simp]: "script_push b \<noteq> []"
  by (simp add: script_push_def)

lemma IsPushOnly_push: "length b < 2 ^ 32 \<Longrightarrow> IsPushOnly (script_push b @ s) = IsPushOnly s"
  using GetOp2_push [of b s] by (subst IsPushOnly.simps) (auto simp: word_less_nat_alt word_le_nat_alt)

lemma sigop_step_le:
  assumes "op \<ge> OP_1" "op \<le> OP_16"
  shows "unat (case DecodeOP_N op of Inr k \<Rightarrow> word_of_int k | Inl _ \<Rightarrow> (0 :: uint32_t)) \<le> 16"
proof -
  have r: "1 \<le> uint op - 80" "uint op - 80 \<le> 16" using assms by (simp_all add: word_le_def)
  have "DecodeOP_N op = Inr (uint op - 80)" using assms by (auto simp: DecodeOP_N_def)
  moreover have "unat (word_of_int (uint op - 80) :: uint32_t) = nat (uint op - 80)" using r by (simp add: unsigned_of_int take_bit_int_eq_self del: of_int_diff)
  ultimately show ?thesis using r by (simp del: of_int_diff)
qed

lemma GetSigOpCount_loop_le:
  "unat n + 20 * length pc < 2 ^ 32 \<Longrightarrow> unat (GetSigOpCount_loop a n lo pc) \<le> unat n + 20 * length pc"
proof (induction a n lo pc rule: GetSigOpCount_loop.induct)
  case (1 a n lo pc)
  show ?case
  proof (cases "pc = [] \<or> GetOp2 pc = None")
    case True
    then show ?thesis by (subst GetSigOpCount_loop.simps) auto
  next
    case False
    then obtain opcode d pc' where op: "pc \<noteq> []" "GetOp2 pc = Some (opcode, d, pc')" by (metis option.exhaust prod_cases3)
    define n' where "n' = (if opcode = OP_CHECKSIG \<or> opcode = OP_CHECKSIGVERIFY then n + 1
       else if opcode = OP_CHECKMULTISIG \<or> opcode = OP_CHECKMULTISIGVERIFY then
         (if a \<and> lo \<ge> OP_1 \<and> lo \<le> OP_16
          then n + (case DecodeOP_N lo of Inr k \<Rightarrow> word_of_int k | Inl _ \<Rightarrow> 0)
          else n + 20)
       else n)"
    have less: "Suc (length pc') \<le> length pc" using GetOp2_shorter [OF op(2)] by simp
    have add: "unat (n + k) \<le> unat n + 20" if "unat k \<le> 20" for k
      using unat_plus_if' [of n k] that by auto
    have "unat n' \<le> unat n + 20"
      unfolding n'_def using add [of 1] add [of 20] add [OF order.trans [OF sigop_step_le [of lo]]] by auto
    moreover from this have "unat n' + 20 * length pc' < 2 ^ 32" using 1(2) less by linarith
    then have "unat (GetSigOpCount_loop a n' opcode pc') \<le> unat n' + 20 * length pc'"
      using 1(1) [OF op] unfolding n'_def by blast
    moreover have eq: "GetSigOpCount_loop a n lo pc = GetSigOpCount_loop a n' opcode pc'"
      unfolding n'_def using op by (subst GetSigOpCount_loop.simps) simp
    ultimately show ?thesis unfolding eq using less by linarith
  qed
qed

lemma GetSigOpCount_le: "20 * length s < 2 ^ 32 \<Longrightarrow> unat (GetSigOpCount a s) \<le> 20 * length s"
  using GetSigOpCount_loop_le [of 0 s] by (simp add: GetSigOpCount_def)

section \<open>Properties of scripts\<close>

text \<open>
  C23. Script numbers have one encoding. With the minimality check, an operand of at most eight bytes is
  accepted exactly when it is the serialization of a 64-bit number, and that number is its value; and every
  64-bit number, the least one with its nine-byte exception included, is decoded from its serialization.
\<close>

theorem scriptnum_canonical:
  assumes "k \<le> 8" "INT64_MIN \<le> m" "m \<le> INT64_MAX"
  shows "(CScriptNum_of vch True k = Inr n \<longleftrightarrow>
       length vch \<le> k \<and> vch = scriptnum_serialize n \<and> INT64_MIN \<le> n \<and> n \<le> INT64_MAX)
    \<and> set_vch (scriptnum_serialize m) = Inr m"
  using scriptnum_exact [OF assms(1)] scriptnum_roundtrip [OF assms(2,3)] by blast

theorem scriptnum_canonical_witness:
  "CScriptNum_of [0xff, 0x80] True 4 = Inr (- 255) \<longleftrightarrow> [0xff, 0x80] = scriptnum_serialize (- 255)"
  using scriptnum_canonical [of 4 0 "[0xff, 0x80]" "- 255"] by (simp add: INT64_MIN_def INT64_MAX_def)

text \<open>
  Counting signature operations cannot overflow on a script within the size limit, and pushing data on a
  script is read back: the operand comes out unchanged, what follows is untouched, and a script that only
  pushes stays one.
\<close>

lemma script_push_and_sigops:
  assumes "length b < 2 ^ 32" "length s \<le> MAX_SCRIPT_SIZE"
  shows "(\<exists>opcode. opcode \<le> OP_PUSHDATA4 \<and> GetOp2 (script_push b @ r) = Some (opcode, b, r))
    \<and> IsPushOnly (script_push b @ r) = IsPushOnly r
    \<and> unat (GetSigOpCount fAccurate s) \<le> 20 * length s"
  using GetOp2_push [OF assms(1)] IsPushOnly_push [OF assms(1)] GetSigOpCount_le [of s fAccurate] assms(2)
  by (simp add: MAX_SCRIPT_SIZE_def)

end
