(* ===== verification/PubKey.thy ===== *)
theory PubKey
  imports Script
begin

text \<open>
  Public keys: \<^verbatim>\<open>src/pubkey.h\<close> and \<^verbatim>\<open>src/pubkey.cpp\<close>. The elliptic curve library \<^verbatim>\<open>src/secp256k1\<close> is a record of
  functions that the operations take as an argument.
\<close>

unbundle bit_operations_syntax

section \<open>The elliptic curve library\<close>

text \<open>
  What the node calls of \<open>secp256k1\<close>: \<open>'k\<close> are its parsed public keys, \<open>'s\<close> its parsed signatures. A call
  that can fail returns an option; \<open>normalize\<close> also tells whether the signature had a high \<open>S\<close>.
\<close>

record ('k, 's) secp256k1 =
  ec_pubkey_parse :: "byte list \<Rightarrow> 'k option"
  ec_pubkey_serialize :: "bool \<Rightarrow> 'k \<Rightarrow> byte list"
  ec_pubkey_tweak_add :: "'k \<Rightarrow> byte list \<Rightarrow> 'k option"
  ecdsa_signature_parse_der :: "byte list \<Rightarrow> 's option"
  ecdsa_signature_normalize :: "'s \<Rightarrow> bool \<times> 's"
  ecdsa_verify :: "'s \<Rightarrow> uint256 \<Rightarrow> 'k \<Rightarrow> bool"
  ecdsa_recover :: "byte list \<Rightarrow> nat \<Rightarrow> uint256 \<Rightarrow> 'k option"

section \<open>Public keys\<close>

text \<open>
  A key is the bytes its \<open>size()\<close> counts; the invalid key, whose first byte is \<open>0xFF\<close>, has none. The
  array behind it is longer, but every member function below reads only these bytes.
\<close>

type_synonym CPubKey = "byte list"

definition PUBLIC_KEY_SIZE :: nat where "PUBLIC_KEY_SIZE = 65"
definition COMPRESSED_PUBLIC_KEY_SIZE :: nat where "COMPRESSED_PUBLIC_KEY_SIZE = 33"
definition COMPACT_SIGNATURE_SIZE :: nat where "COMPACT_SIGNATURE_SIZE = 65"

definition GetLen :: "byte \<Rightarrow> nat" where
  "GetLen chHeader =
     (if chHeader = 2 \<or> chHeader = 3 then COMPRESSED_PUBLIC_KEY_SIZE
      else if chHeader = 4 \<or> chHeader = 6 \<or> chHeader = 7 then PUBLIC_KEY_SIZE
      else 0)"

definition ValidSize :: "byte list \<Rightarrow> bool" where
  "ValidSize v \<longleftrightarrow> length v > 0 \<and> GetLen (v ! 0) = length v"

definition CPubKey_Set :: "byte list \<Rightarrow> CPubKey" where
  "CPubKey_Set v =
     (let len = (if v = [] then 0 else GetLen (v ! 0))
      in if len \<noteq> 0 \<and> len = length v then v else [])"

definition CPubKey_IsValid :: "CPubKey \<Rightarrow> bool" where
  "CPubKey_IsValid k \<longleftrightarrow> length k > 0"

definition CPubKey_IsCompressed :: "CPubKey \<Rightarrow> bool" where
  "CPubKey_IsCompressed k \<longleftrightarrow> length k = COMPRESSED_PUBLIC_KEY_SIZE"

definition CPubKey_GetID :: "CPubKey \<Rightarrow> byte list" where
  "CPubKey_GetID k = Hash160 k"

definition CPubKey_Verify :: "('k, 's) secp256k1 \<Rightarrow> CPubKey \<Rightarrow> uint256 \<Rightarrow> byte list \<Rightarrow> bool" where
  "CPubKey_Verify ec k hash vchSig =
     (if \<not> CPubKey_IsValid k then False
      else case ec_pubkey_parse ec k of
        None \<Rightarrow> False
      | Some pubkey \<Rightarrow>
          if length vchSig = 0 then False
          else case ecdsa_signature_parse_der ec vchSig of
            None \<Rightarrow> False
          | Some sig \<Rightarrow> ecdsa_verify ec (snd (ecdsa_signature_normalize ec sig)) hash pubkey)"

definition CPubKey_CheckLowS :: "('k, 's) secp256k1 \<Rightarrow> byte list \<Rightarrow> bool" where
  "CPubKey_CheckLowS ec vchSig =
     (case ecdsa_signature_parse_der ec vchSig of
        None \<Rightarrow> False
      | Some sig \<Rightarrow> \<not> fst (ecdsa_signature_normalize ec sig))"

definition CPubKey_RecoverCompact :: "('k, 's) secp256k1 \<Rightarrow> uint256 \<Rightarrow> byte list \<Rightarrow> CPubKey option" where
  "CPubKey_RecoverCompact ec hash vchSig =
     (if length vchSig \<noteq> COMPACT_SIGNATURE_SIZE then None
      else let recid = nat ((uint (vchSig ! 0) - 27) mod 4);
               fComp = (((uint (vchSig ! 0) - 27) AND 4) \<noteq> 0)
           in case ecdsa_recover ec (drop 1 vchSig) recid hash of
                None \<Rightarrow> None
              | Some pubkey \<Rightarrow> Some (CPubKey_Set (ec_pubkey_serialize ec fComp pubkey)))"

definition CPubKey_IsFullyValid :: "('k, 's) secp256k1 \<Rightarrow> CPubKey \<Rightarrow> bool" where
  "CPubKey_IsFullyValid ec k \<longleftrightarrow> CPubKey_IsValid k \<and> ec_pubkey_parse ec k \<noteq> None"

definition CPubKey_Decompress :: "('k, 's) secp256k1 \<Rightarrow> CPubKey \<Rightarrow> CPubKey option" where
  "CPubKey_Decompress ec k =
     (if \<not> CPubKey_IsValid k then None
      else case ec_pubkey_parse ec k of
        None \<Rightarrow> None
      | Some pubkey \<Rightarrow> Some (CPubKey_Set (ec_pubkey_serialize ec False pubkey)))"

text \<open>The child key and its chain code, or \<open>None\<close> where the curve operation fails.\<close>

definition CPubKey_Derive ::
  "('k, 's) secp256k1 \<Rightarrow> CPubKey \<Rightarrow> uint32_t \<Rightarrow> uint256 \<Rightarrow> (CPubKey \<times> uint256) option result" where
  "CPubKey_Derive ec k nChild cc =
     (if \<not> CPubKey_IsValid k then Inl (AssertFail ''IsValid()'')
      else if drop_bit 31 nChild \<noteq> 0 then Inl (AssertFail ''(nChild >> 31) == 0'')
      else if length k \<noteq> COMPRESSED_PUBLIC_KEY_SIZE then Inl (AssertFail ''size() == COMPRESSED_PUBLIC_KEY_SIZE'')
      else let out = BIP32Hash cc nChild (k ! 0) (drop 1 k)
           in case ec_pubkey_parse ec k of
                None \<Rightarrow> Inr None
              | Some pubkey \<Rightarrow>
                  (case ec_pubkey_tweak_add ec pubkey (take 32 out) of
                     None \<Rightarrow> Inr None
                   | Some child \<Rightarrow>
                       Inr (Some (CPubKey_Set (ec_pubkey_serialize ec True child), take 32 (drop 32 out)))))"

end
