(* ===== verification/Interpreter.thy ===== *)
theory Interpreter
  imports PubKey
begin

text \<open>
  The script interpreter: \<^verbatim>\<open>src/script/interpreter.cpp\<close>. The theory has the encoding checks of signatures,
  keys and pushes, one definition per group of opcodes, the instruction step with its limits, the
  evaluation loop and script verification. It shows that evaluation keeps its resource limits and never
  runs into an assertion, and what the standard output scripts accept.
\<close>

unbundle bit_operations_syntax

section \<open>Errors and flags\<close>

datatype ScriptError =
    SCRIPT_ERR_OK | SCRIPT_ERR_UNKNOWN_ERROR | SCRIPT_ERR_EVAL_FALSE | SCRIPT_ERR_OP_RETURN
  | SCRIPT_ERR_SCRIPT_SIZE | SCRIPT_ERR_PUSH_SIZE | SCRIPT_ERR_OP_COUNT | SCRIPT_ERR_STACK_SIZE
  | SCRIPT_ERR_SIG_COUNT | SCRIPT_ERR_PUBKEY_COUNT
  | SCRIPT_ERR_VERIFY | SCRIPT_ERR_EQUALVERIFY | SCRIPT_ERR_CHECKMULTISIGVERIFY | SCRIPT_ERR_CHECKSIGVERIFY
  | SCRIPT_ERR_NUMEQUALVERIFY
  | SCRIPT_ERR_BAD_OPCODE | SCRIPT_ERR_DISABLED_OPCODE | SCRIPT_ERR_INVALID_STACK_OPERATION
  | SCRIPT_ERR_INVALID_ALTSTACK_OPERATION | SCRIPT_ERR_UNBALANCED_CONDITIONAL
  | SCRIPT_ERR_NEGATIVE_LOCKTIME | SCRIPT_ERR_UNSATISFIED_LOCKTIME
  | SCRIPT_ERR_SIG_HASHTYPE | SCRIPT_ERR_SIG_DER | SCRIPT_ERR_MINIMALDATA | SCRIPT_ERR_SIG_PUSHONLY
  | SCRIPT_ERR_SIG_HIGH_S | SCRIPT_ERR_SIG_NULLDUMMY | SCRIPT_ERR_PUBKEYTYPE | SCRIPT_ERR_CLEANSTACK
  | SCRIPT_ERR_DISCOURAGE_UPGRADABLE_NOPS

abbreviation (input) SCRIPT_VERIFY_P2SH :: uint32_t where "SCRIPT_VERIFY_P2SH \<equiv> 0x1"
abbreviation (input) SCRIPT_VERIFY_STRICTENC :: uint32_t where "SCRIPT_VERIFY_STRICTENC \<equiv> 0x2"
abbreviation (input) SCRIPT_VERIFY_LOW_S :: uint32_t where "SCRIPT_VERIFY_LOW_S \<equiv> 0x8"
abbreviation (input) SCRIPT_VERIFY_NULLDUMMY :: uint32_t where "SCRIPT_VERIFY_NULLDUMMY \<equiv> 0x10"
abbreviation (input) SCRIPT_VERIFY_SIGPUSHONLY :: uint32_t where "SCRIPT_VERIFY_SIGPUSHONLY \<equiv> 0x20"
abbreviation (input) SCRIPT_VERIFY_MINIMALDATA :: uint32_t where "SCRIPT_VERIFY_MINIMALDATA \<equiv> 0x40"
abbreviation (input) SCRIPT_VERIFY_DISCOURAGE_UPGRADABLE_NOPS :: uint32_t
  where "SCRIPT_VERIFY_DISCOURAGE_UPGRADABLE_NOPS \<equiv> 0x80"
abbreviation (input) SCRIPT_VERIFY_CLEANSTACK :: uint32_t where "SCRIPT_VERIFY_CLEANSTACK \<equiv> 0x100"
abbreviation (input) SCRIPT_VERIFY_CHECKLOCKTIMEVERIFY :: uint32_t where "SCRIPT_VERIFY_CHECKLOCKTIMEVERIFY \<equiv> 0x200"

abbreviation (input) SIGHASH_ALL :: byte where "SIGHASH_ALL \<equiv> 1"
abbreviation (input) SIGHASH_NONE :: byte where "SIGHASH_NONE \<equiv> 2"
abbreviation (input) SIGHASH_SINGLE :: byte where "SIGHASH_SINGLE \<equiv> 3"
abbreviation (input) SIGHASH_ANYONECANPAY :: byte where "SIGHASH_ANYONECANPAY \<equiv> 0x80"

section \<open>Encoding checks\<close>

fun CastToBool :: "valtype \<Rightarrow> bool" where
  "CastToBool [] = False"
| "CastToBool (b # bs) =
     (if b \<noteq> 0 then (if bs = [] \<and> b = 0x80 then False else True) else CastToBool bs)"

definition IsCompressedOrUncompressedPubKey :: "valtype \<Rightarrow> bool" where
  "IsCompressedOrUncompressedPubKey vchPubKey =
     (if length vchPubKey < COMPRESSED_PUBLIC_KEY_SIZE then False
      else if vchPubKey ! 0 = 0x04 then length vchPubKey = PUBLIC_KEY_SIZE
      else if vchPubKey ! 0 = 0x02 \<or> vchPubKey ! 0 = 0x03 then length vchPubKey = COMPRESSED_PUBLIC_KEY_SIZE
      else False)"

definition IsValidSignatureEncoding :: "valtype \<Rightarrow> bool" where
  "IsValidSignatureEncoding sig =
     (if length sig < 9 then False
      else if length sig > 73 then False
      else if sig ! 0 \<noteq> 0x30 then False
      else if unat (sig ! 1) \<noteq> length sig - 3 then False
      else let lenR = unat (sig ! 3) in
        if 5 + lenR \<ge> length sig then False
        else let lenS = unat (sig ! (5 + lenR)) in
          if lenR + lenS + 7 \<noteq> length sig then False
          else if sig ! 2 \<noteq> 0x02 then False
          else if lenR = 0 then False
          else if sig ! 4 AND 0x80 \<noteq> 0 then False
          else if lenR > 1 \<and> sig ! 4 = 0 \<and> \<not> (sig ! 5 AND 0x80 \<noteq> 0) then False
          else if sig ! (lenR + 4) \<noteq> 0x02 then False
          else if lenS = 0 then False
          else if sig ! (lenR + 6) AND 0x80 \<noteq> 0 then False
          else if lenS > 1 \<and> sig ! (lenR + 6) = 0 \<and> \<not> (sig ! (lenR + 7) AND 0x80 \<noteq> 0) then False
          else True)"

text \<open>
  The checks return whether the encoding is accepted and what \<open>*serror\<close> holds afterwards. \<open>checkLowS\<close> is
  \<open>CPubKey::CheckLowS\<close>.
\<close>

type_synonym low_s = "byte list \<Rightarrow> bool"

definition IsLowDERSignature :: "low_s \<Rightarrow> valtype \<Rightarrow> ScriptError \<Rightarrow> bool \<times> ScriptError" where
  "IsLowDERSignature checkLowS vchSig serror =
     (if \<not> IsValidSignatureEncoding vchSig then (False, SCRIPT_ERR_SIG_DER)
      else (checkLowS (take (length vchSig - 1) vchSig), serror))"

definition IsDefinedHashtypeSignature :: "valtype \<Rightarrow> bool" where
  "IsDefinedHashtypeSignature vchSig =
     (if length vchSig = 0 then False
      else let nHashType = vchSig ! (length vchSig - 1) AND NOT SIGHASH_ANYONECANPAY
           in \<not> (nHashType < SIGHASH_ALL \<or> nHashType > SIGHASH_SINGLE))"

definition CheckSignatureEncoding :: "low_s \<Rightarrow> valtype \<Rightarrow> uint32_t \<Rightarrow> ScriptError \<Rightarrow> bool \<times> ScriptError" where
  "CheckSignatureEncoding checkLowS vchSig flags serror =
     (if length vchSig = 0 then (True, serror)
      else if \<not> IsValidSignatureEncoding vchSig then (False, SCRIPT_ERR_SIG_DER)
      else if flags AND SCRIPT_VERIFY_LOW_S \<noteq> 0 \<and> \<not> fst (IsLowDERSignature checkLowS vchSig serror)
        then (False, snd (IsLowDERSignature checkLowS vchSig serror))
      else if flags AND SCRIPT_VERIFY_STRICTENC \<noteq> 0 \<and> \<not> IsDefinedHashtypeSignature vchSig
        then (False, SCRIPT_ERR_SIG_HASHTYPE)
      else (True, serror))"

definition CheckPubKeyEncoding :: "valtype \<Rightarrow> uint32_t \<Rightarrow> ScriptError \<Rightarrow> bool \<times> ScriptError" where
  "CheckPubKeyEncoding vchPubKey flags serror =
     (if flags AND SCRIPT_VERIFY_STRICTENC \<noteq> 0 \<and> \<not> IsCompressedOrUncompressedPubKey vchPubKey
      then (False, SCRIPT_ERR_PUBKEYTYPE) else (True, serror))"

definition CheckMinimalPush :: "valtype \<Rightarrow> opcodetype \<Rightarrow> bool" where
  "CheckMinimalPush data opcode =
     (if length data = 0 then opcode = OP_0
      else if length data = 1 \<and> data ! 0 \<ge> 1 \<and> data ! 0 \<le> 16 then unat opcode = unat OP_1 + (unat (data ! 0) - 1)
      else if length data = 1 \<and> data ! 0 = 0x81 then opcode = OP_1NEGATE
      else if length data \<le> 75 then unat opcode = length data
      else if length data \<le> 255 then opcode = OP_PUSHDATA1
      else if length data \<le> 65535 then opcode = OP_PUSHDATA2
      else True)"

section \<open>The machine\<close>

text \<open>
  The stacks are lists with the top first, so \<open>stacktop(-i)\<close> is element \<open>i - 1\<close>, and so is \<open>vfExec\<close>. An
  operation goes on with a new state, returns \<open>false\<close> with a script error, or raises: an exception is
  turned into \<open>SCRIPT_ERR_UNKNOWN_ERROR\<close> by the handler around the loop, a failed assertion is not.
\<close>

datatype eval_fail = ScriptFail ScriptError | Raised failure

type_synonym 'a ev = "eval_fail + 'a"

definition ebind :: "'a ev \<Rightarrow> ('a \<Rightarrow> 'b ev) \<Rightarrow> 'b ev" where
  "ebind r f = (case r of Inl e \<Rightarrow> Inl e | Inr x \<Rightarrow> f x)"

definition raising :: "'a result \<Rightarrow> 'a ev" where
  "raising r = (case r of Inl e \<Rightarrow> Inl (Raised e) | Inr x \<Rightarrow> Inr x)"

record eval_state =
  st_stack :: "valtype list"
  altstack :: "valtype list"
  vfExec :: "bool list"
  nOpCount :: int

record BaseSignatureChecker =
  ck_CheckSig :: "valtype \<Rightarrow> valtype \<Rightarrow> CScript \<Rightarrow> uint32_t \<Rightarrow> bool result"
  ck_CheckLockTime :: "CScriptNum \<Rightarrow> bool"

text \<open>The arguments of \<open>EvalScript\<close> that do not change.\<close>

record eval_env =
  env_script :: CScript
  env_flags :: uint32_t
  env_checker :: BaseSignatureChecker
  env_branch :: uint32_t
  env_CheckLowS :: low_s

definition fRequireMinimal :: "eval_env \<Rightarrow> bool" where
  "fRequireMinimal env \<longleftrightarrow> env_flags env AND SCRIPT_VERIFY_MINIMALDATA \<noteq> 0"

definition vchTrue :: valtype where "vchTrue = [1]"
definition vchFalse :: valtype where "vchFalse = []"

abbreviation scriptnum :: "eval_env \<Rightarrow> valtype \<Rightarrow> CScriptNum ev" where
  "scriptnum env v \<equiv> raising (CScriptNum_of v (fRequireMinimal env) nDefaultMaxNumSize)"

abbreviation bad_stack :: "'a ev" where
  "bad_stack \<equiv> Inl (ScriptFail SCRIPT_ERR_INVALID_STACK_OPERATION)"

section \<open>Operations\<close>

definition op_pushnum :: "opcodetype \<Rightarrow> eval_state \<Rightarrow> eval_state ev" where
  "op_pushnum opcode st = Inr (st\<lparr>st_stack := getvch (uint opcode - (uint OP_1 - 1)) # st_stack st\<rparr>)"

definition op_checklocktimeverify :: "eval_env \<Rightarrow> eval_state \<Rightarrow> eval_state ev" where
  "op_checklocktimeverify env st =
     (if env_flags env AND SCRIPT_VERIFY_CHECKLOCKTIMEVERIFY = 0 then
        (if env_flags env AND SCRIPT_VERIFY_DISCOURAGE_UPGRADABLE_NOPS \<noteq> 0
         then Inl (ScriptFail SCRIPT_ERR_DISCOURAGE_UPGRADABLE_NOPS) else Inr st)
      else case st_stack st of
        [] \<Rightarrow> bad_stack
      | x # _ \<Rightarrow>
          ebind (raising (CScriptNum_of x (fRequireMinimal env) 5)) (\<lambda>n.
            if n < 0 then Inl (ScriptFail SCRIPT_ERR_NEGATIVE_LOCKTIME)
            else if \<not> ck_CheckLockTime (env_checker env) n then Inl (ScriptFail SCRIPT_ERR_UNSATISFIED_LOCKTIME)
            else Inr st))"

definition op_nops :: "eval_env \<Rightarrow> eval_state \<Rightarrow> eval_state ev" where
  "op_nops env st =
     (if env_flags env AND SCRIPT_VERIFY_DISCOURAGE_UPGRADABLE_NOPS \<noteq> 0
      then Inl (ScriptFail SCRIPT_ERR_DISCOURAGE_UPGRADABLE_NOPS) else Inr st)"

definition op_if :: "opcodetype \<Rightarrow> bool \<Rightarrow> eval_state \<Rightarrow> eval_state ev" where
  "op_if opcode fExec st =
     (if fExec then
        (case st_stack st of
           [] \<Rightarrow> Inl (ScriptFail SCRIPT_ERR_UNBALANCED_CONDITIONAL)
         | v # s \<Rightarrow>
             let fValue = (if opcode = OP_NOTIF then \<not> CastToBool v else CastToBool v)
             in Inr (st\<lparr>st_stack := s, vfExec := fValue # vfExec st\<rparr>))
      else Inr (st\<lparr>vfExec := False # vfExec st\<rparr>))"

definition op_else :: "eval_state \<Rightarrow> eval_state ev" where
  "op_else st =
     (case vfExec st of
        [] \<Rightarrow> Inl (ScriptFail SCRIPT_ERR_UNBALANCED_CONDITIONAL)
      | b # bs \<Rightarrow> Inr (st\<lparr>vfExec := (\<not> b) # bs\<rparr>))"

definition op_endif :: "eval_state \<Rightarrow> eval_state ev" where
  "op_endif st =
     (case vfExec st of
        [] \<Rightarrow> Inl (ScriptFail SCRIPT_ERR_UNBALANCED_CONDITIONAL)
      | b # bs \<Rightarrow> Inr (st\<lparr>vfExec := bs\<rparr>))"

definition op_verify :: "eval_state \<Rightarrow> eval_state ev" where
  "op_verify st =
     (case st_stack st of
        [] \<Rightarrow> bad_stack
      | v # s \<Rightarrow> if CastToBool v then Inr (st\<lparr>st_stack := s\<rparr>) else Inl (ScriptFail SCRIPT_ERR_VERIFY))"

text \<open>The operations that only move elements of the main stack.\<close>

definition op_stack :: "opcodetype \<Rightarrow> valtype list \<Rightarrow> valtype list ev" where
  "op_stack opcode stack =
     (if opcode = OP_2DROP then (case stack of x2 # x1 # s \<Rightarrow> Inr s | _ \<Rightarrow> bad_stack)
      else if opcode = OP_2DUP then (case stack of x2 # x1 # s \<Rightarrow> Inr (x2 # x1 # x2 # x1 # s) | _ \<Rightarrow> bad_stack)
      else if opcode = OP_3DUP then
        (case stack of x3 # x2 # x1 # s \<Rightarrow> Inr (x3 # x2 # x1 # x3 # x2 # x1 # s) | _ \<Rightarrow> bad_stack)
      else if opcode = OP_2OVER then
        (case stack of x4 # x3 # x2 # x1 # s \<Rightarrow> Inr (x2 # x1 # x4 # x3 # x2 # x1 # s) | _ \<Rightarrow> bad_stack)
      else if opcode = OP_2ROT then
        (case stack of x6 # x5 # x4 # x3 # x2 # x1 # s \<Rightarrow> Inr (x2 # x1 # x6 # x5 # x4 # x3 # s) | _ \<Rightarrow> bad_stack)
      else if opcode = OP_2SWAP then
        (case stack of x4 # x3 # x2 # x1 # s \<Rightarrow> Inr (x2 # x1 # x4 # x3 # s) | _ \<Rightarrow> bad_stack)
      else if opcode = OP_IFDUP then
        (case stack of x # s \<Rightarrow> Inr (if CastToBool x then x # x # s else x # s) | _ \<Rightarrow> bad_stack)
      else if opcode = OP_DEPTH then Inr (getvch (int (length stack)) # stack)
      else if opcode = OP_DROP then (case stack of x # s \<Rightarrow> Inr s | _ \<Rightarrow> bad_stack)
      else if opcode = OP_DUP then (case stack of x # s \<Rightarrow> Inr (x # x # s) | _ \<Rightarrow> bad_stack)
      else if opcode = OP_NIP then (case stack of x2 # x1 # s \<Rightarrow> Inr (x2 # s) | _ \<Rightarrow> bad_stack)
      else if opcode = OP_OVER then (case stack of x2 # x1 # s \<Rightarrow> Inr (x1 # x2 # x1 # s) | _ \<Rightarrow> bad_stack)
      else if opcode = OP_ROT then (case stack of x3 # x2 # x1 # s \<Rightarrow> Inr (x1 # x3 # x2 # s) | _ \<Rightarrow> bad_stack)
      else if opcode = OP_SWAP then (case stack of x2 # x1 # s \<Rightarrow> Inr (x1 # x2 # s) | _ \<Rightarrow> bad_stack)
      else if opcode = OP_TUCK then (case stack of x2 # x1 # s \<Rightarrow> Inr (x2 # x1 # x2 # s) | _ \<Rightarrow> bad_stack)
      else (case stack of x # s \<Rightarrow> Inr (getvch (int (length x)) # x # s) | _ \<Rightarrow> bad_stack))"

definition op_toaltstack :: "eval_state \<Rightarrow> eval_state ev" where
  "op_toaltstack st =
     (case st_stack st of
        [] \<Rightarrow> bad_stack
      | x # s \<Rightarrow> Inr (st\<lparr>st_stack := s, altstack := x # altstack st\<rparr>))"

definition op_fromaltstack :: "eval_state \<Rightarrow> eval_state ev" where
  "op_fromaltstack st =
     (case altstack st of
        [] \<Rightarrow> Inl (ScriptFail SCRIPT_ERR_INVALID_ALTSTACK_OPERATION)
      | x # s \<Rightarrow> Inr (st\<lparr>altstack := s, st_stack := x # st_stack st\<rparr>))"

definition op_pick_roll :: "eval_env \<Rightarrow> opcodetype \<Rightarrow> valtype list \<Rightarrow> valtype list ev" where
  "op_pick_roll env opcode stack =
     (if length stack < 2 then bad_stack
      else ebind (scriptnum env (stack ! 0)) (\<lambda>bn.
        let n = getint bn; stack = tl stack
        in if n < 0 \<or> n \<ge> int (length stack) then bad_stack
           else let vch = stack ! nat n
                in Inr (vch # (if opcode = OP_ROLL then take (nat n) stack @ drop (Suc (nat n)) stack else stack))))"

definition op_equal :: "opcodetype \<Rightarrow> valtype list \<Rightarrow> valtype list ev" where
  "op_equal opcode stack =
     (case stack of
        vch2 # vch1 # s \<Rightarrow>
          (let fEqual = (vch1 = vch2)
           in if opcode = OP_EQUALVERIFY then
                (if fEqual then Inr s else Inl (ScriptFail SCRIPT_ERR_EQUALVERIFY))
              else Inr ((if fEqual then vchTrue else vchFalse) # s))
      | _ \<Rightarrow> bad_stack)"

definition op_unary :: "eval_env \<Rightarrow> opcodetype \<Rightarrow> valtype list \<Rightarrow> valtype list ev" where
  "op_unary env opcode stack =
     (case stack of
        [] \<Rightarrow> bad_stack
      | x # s \<Rightarrow>
          ebind (scriptnum env x) (\<lambda>bn.
          ebind (raising
            (if opcode = OP_1ADD then CScriptNum_add bn 1
             else if opcode = OP_1SUB then CScriptNum_sub bn 1
             else if opcode = OP_NEGATE then CScriptNum_neg bn
             else if opcode = OP_ABS then (if bn < 0 then CScriptNum_neg bn else Inr bn)
             else if opcode = OP_NOT then Inr (if bn = 0 then 1 else 0)
             else if opcode = OP_0NOTEQUAL then Inr (if bn \<noteq> 0 then 1 else 0)
             else Inl (AssertFail ''invalid opcode''))) (\<lambda>bn.
          Inr (getvch bn # s))))"

definition of_bool_num :: "bool \<Rightarrow> CScriptNum" where
  "of_bool_num b = (if b then 1 else 0)"

definition binary_result :: "opcodetype \<Rightarrow> CScriptNum \<Rightarrow> CScriptNum \<Rightarrow> CScriptNum result" where
  "binary_result opcode bn1 bn2 =
     (if opcode = OP_ADD then Inr (bn1 + bn2)
      else if opcode = OP_SUB then Inr (bn1 - bn2)
      else if opcode = OP_BOOLAND then Inr (of_bool_num (bn1 \<noteq> 0 \<and> bn2 \<noteq> 0))
      else if opcode = OP_BOOLOR then Inr (of_bool_num (bn1 \<noteq> 0 \<or> bn2 \<noteq> 0))
      else if opcode = OP_NUMEQUAL then Inr (of_bool_num (bn1 = bn2))
      else if opcode = OP_NUMEQUALVERIFY then Inr (of_bool_num (bn1 = bn2))
      else if opcode = OP_NUMNOTEQUAL then Inr (of_bool_num (bn1 \<noteq> bn2))
      else if opcode = OP_LESSTHAN then Inr (of_bool_num (bn1 < bn2))
      else if opcode = OP_GREATERTHAN then Inr (of_bool_num (bn1 > bn2))
      else if opcode = OP_LESSTHANOREQUAL then Inr (of_bool_num (bn1 \<le> bn2))
      else if opcode = OP_GREATERTHANOREQUAL then Inr (of_bool_num (bn1 \<ge> bn2))
      else if opcode = OP_MIN then Inr (if bn1 < bn2 then bn1 else bn2)
      else if opcode = OP_MAX then Inr (if bn1 > bn2 then bn1 else bn2)
      else Inl (AssertFail ''invalid opcode''))"

definition op_binary :: "eval_env \<Rightarrow> opcodetype \<Rightarrow> valtype list \<Rightarrow> valtype list ev" where
  "op_binary env opcode stack =
     (case stack of
        x2 # x1 # s \<Rightarrow>
          ebind (scriptnum env x1) (\<lambda>bn1.
          ebind (scriptnum env x2) (\<lambda>bn2.
          ebind (raising (binary_result opcode bn1 bn2)) (\<lambda>bn.
            if opcode = OP_NUMEQUALVERIFY then
              (if CastToBool (getvch bn) then Inr s else Inl (ScriptFail SCRIPT_ERR_NUMEQUALVERIFY))
            else Inr (getvch bn # s))))
      | _ \<Rightarrow> bad_stack)"

definition op_within :: "eval_env \<Rightarrow> valtype list \<Rightarrow> valtype list ev" where
  "op_within env stack =
     (case stack of
        x3 # x2 # x1 # s \<Rightarrow>
          ebind (scriptnum env x1) (\<lambda>bn1.
          ebind (scriptnum env x2) (\<lambda>bn2.
          ebind (scriptnum env x3) (\<lambda>bn3.
            Inr ((if bn2 \<le> bn1 \<and> bn1 < bn3 then vchTrue else vchFalse) # s))))
      | _ \<Rightarrow> bad_stack)"

definition op_crypto :: "opcodetype \<Rightarrow> valtype list \<Rightarrow> valtype list ev" where
  "op_crypto opcode stack =
     (case stack of
        [] \<Rightarrow> bad_stack
      | vch # s \<Rightarrow>
          Inr ((if opcode = OP_RIPEMD160 then CRIPEMD160_Finalize (CRIPEMD160_Write vch CRIPEMD160_init)
                else if opcode = OP_SHA1 then CSHA1_Finalize (CSHA1_Write vch CSHA1_init)
                else if opcode = OP_SHA256 then CSHA256_Finalize (CSHA256_Write vch CSHA256_init)
                else if opcode = OP_HASH160 then CHash160_Finalize (CSHA256_Write vch CSHA256_init)
                else CHash256_Finalize (CSHA256_Write vch CSHA256_init)) # s))"

text \<open>
  \<open>CheckSignatureEncoding(...) || CheckPubKeyEncoding(...)\<close> before a signature check: \<open>*serror\<close> is
  \<open>SCRIPT_ERR_UNKNOWN_ERROR\<close> since the start of \<open>EvalScript\<close>.
\<close>

definition check_encodings :: "eval_env \<Rightarrow> valtype \<Rightarrow> valtype \<Rightarrow> unit ev" where
  "check_encodings env vchSig vchPubKey =
     (let (okSig, serror) = CheckSignatureEncoding (env_CheckLowS env) vchSig (env_flags env) SCRIPT_ERR_UNKNOWN_ERROR in
      if \<not> okSig then Inl (ScriptFail serror)
      else let (okKey, serror) = CheckPubKeyEncoding vchPubKey (env_flags env) serror in
        if \<not> okKey then Inl (ScriptFail serror) else Inr ())"

abbreviation checksig :: "eval_env \<Rightarrow> valtype \<Rightarrow> valtype \<Rightarrow> bool ev" where
  "checksig env vchSig vchPubKey \<equiv>
     raising (ck_CheckSig (env_checker env) vchSig vchPubKey (env_script env) (env_branch env))"

definition op_checksig :: "eval_env \<Rightarrow> opcodetype \<Rightarrow> valtype list \<Rightarrow> valtype list ev" where
  "op_checksig env opcode stack =
     (case stack of
        vchPubKey # vchSig # s \<Rightarrow>
          ebind (check_encodings env vchSig vchPubKey) (\<lambda>_.
          ebind (checksig env vchSig vchPubKey) (\<lambda>fSuccess.
            if opcode = OP_CHECKSIGVERIFY then
              (if fSuccess then Inr s else Inl (ScriptFail SCRIPT_ERR_CHECKSIGVERIFY))
            else Inr ((if fSuccess then vchTrue else vchFalse) # s)))
      | _ \<Rightarrow> bad_stack)"

text \<open>
  The loop over signatures and keys. \<open>isig\<close> and \<open>ikey\<close> count from the top of the stack from one on; the
  loop is only entered, and only goes on, with no more signatures than keys left.
\<close>

fun multisig_loop :: "eval_env \<Rightarrow> valtype list \<Rightarrow> nat \<Rightarrow> nat \<Rightarrow> nat \<Rightarrow> nat \<Rightarrow> bool ev" where
  "multisig_loop env stack isig 0 ikey nKeysCount = Inr True"
| "multisig_loop env stack isig (Suc nSigs) ikey 0 = Inr False"
| "multisig_loop env stack isig (Suc nSigs) ikey (Suc nKeys) =
     (let vchSig = stack ! (isig - 1); vchPubKey = stack ! (ikey - 1) in
      ebind (check_encodings env vchSig vchPubKey) (\<lambda>_.
      ebind (checksig env vchSig vchPubKey) (\<lambda>fOk.
        let isig' = (if fOk then isig + 1 else isig);
            nSigs' = (if fOk then nSigs else Suc nSigs)
        in if nSigs' > nKeys then Inr False
           else multisig_loop env stack isig' nSigs' (ikey + 1) nKeys)))"

definition op_checkmultisig :: "eval_env \<Rightarrow> opcodetype \<Rightarrow> eval_state \<Rightarrow> eval_state ev" where
  "op_checkmultisig env opcode st =
     (let stack = st_stack st in
      if length stack < 1 then bad_stack
      else ebind (scriptnum env (stack ! 0)) (\<lambda>bnKeys.
        let nKeysCount = getint bnKeys in
        if nKeysCount < 0 \<or> nKeysCount > 20 then Inl (ScriptFail SCRIPT_ERR_PUBKEY_COUNT)
        else let nOp = nOpCount st + nKeysCount in
        if nOp > 201 then Inl (ScriptFail SCRIPT_ERR_OP_COUNT)
        else let ikey = 2; i = 2 + nat nKeysCount in
        if length stack < i then bad_stack
        else ebind (scriptnum env (stack ! (i - 1))) (\<lambda>bnSigs.
          let nSigsCount = getint bnSigs in
          if nSigsCount < 0 \<or> nSigsCount > nKeysCount then Inl (ScriptFail SCRIPT_ERR_SIG_COUNT)
          else let isig = i + 1; i = i + 1 + nat nSigsCount in
          if length stack < i then bad_stack
          else ebind (multisig_loop env stack isig (nat nSigsCount) ikey (nat nKeysCount)) (\<lambda>fSuccess.
            case drop (i - 1) stack of
              [] \<Rightarrow> bad_stack
            | dummy # s \<Rightarrow>
                if env_flags env AND SCRIPT_VERIFY_NULLDUMMY \<noteq> 0 \<and> length dummy \<noteq> 0
                then Inl (ScriptFail SCRIPT_ERR_SIG_NULLDUMMY)
                else if opcode = OP_CHECKMULTISIGVERIFY then
                  (if fSuccess then Inr (st\<lparr>st_stack := s, nOpCount := nOp\<rparr>)
                   else Inl (ScriptFail SCRIPT_ERR_CHECKMULTISIGVERIFY))
                else Inr (st\<lparr>st_stack := (if fSuccess then vchTrue else vchFalse) # s, nOpCount := nOp\<rparr>)))))"

section \<open>One instruction\<close>

definition on_stack :: "(valtype list \<Rightarrow> valtype list ev) \<Rightarrow> eval_state \<Rightarrow> eval_state ev" where
  "on_stack f st = ebind (f (st_stack st)) (\<lambda>s. Inr (st\<lparr>st_stack := s\<rparr>))"

definition eval_op :: "eval_env \<Rightarrow> opcodetype \<Rightarrow> bool \<Rightarrow> eval_state \<Rightarrow> eval_state ev" where
  "eval_op env opcode fExec st =
     (if opcode = OP_1NEGATE \<or> (OP_1 \<le> opcode \<and> opcode \<le> OP_16) then op_pushnum opcode st
      else if opcode = OP_NOP then Inr st
      else if opcode = OP_CHECKLOCKTIMEVERIFY then op_checklocktimeverify env st
      else if opcode = OP_NOP1 \<or> (OP_NOP3 \<le> opcode \<and> opcode \<le> OP_NOP10) then op_nops env st
      else if opcode = OP_IF \<or> opcode = OP_NOTIF then op_if opcode fExec st
      else if opcode = OP_ELSE then op_else st
      else if opcode = OP_ENDIF then op_endif st
      else if opcode = OP_VERIFY then op_verify st
      else if opcode = OP_RETURN then Inl (ScriptFail SCRIPT_ERR_OP_RETURN)
      else if opcode = OP_TOALTSTACK then op_toaltstack st
      else if opcode = OP_FROMALTSTACK then op_fromaltstack st
      else if opcode = OP_PICK \<or> opcode = OP_ROLL then on_stack (op_pick_roll env opcode) st
      else if (OP_2DROP \<le> opcode \<and> opcode \<le> OP_TUCK) \<or> opcode = OP_SIZE then on_stack (op_stack opcode) st
      else if opcode = OP_EQUAL \<or> opcode = OP_EQUALVERIFY then on_stack (op_equal opcode) st
      else if opcode = OP_1ADD \<or> opcode = OP_1SUB \<or> (OP_NEGATE \<le> opcode \<and> opcode \<le> OP_0NOTEQUAL)
        then on_stack (op_unary env opcode) st
      else if opcode = OP_ADD \<or> opcode = OP_SUB \<or> (OP_BOOLAND \<le> opcode \<and> opcode \<le> OP_MAX)
        then on_stack (op_binary env opcode) st
      else if opcode = OP_WITHIN then on_stack (op_within env) st
      else if OP_RIPEMD160 \<le> opcode \<and> opcode \<le> OP_HASH256 then on_stack (op_crypto opcode) st
      else if opcode = OP_CHECKSIG \<or> opcode = OP_CHECKSIGVERIFY then on_stack (op_checksig env opcode) st
      else if opcode = OP_CHECKMULTISIG \<or> opcode = OP_CHECKMULTISIGVERIFY then op_checkmultisig env opcode st
      else Inl (ScriptFail SCRIPT_ERR_BAD_OPCODE))"

definition disabled_opcode :: "opcodetype \<Rightarrow> bool" where
  "disabled_opcode opcode \<longleftrightarrow>
     opcode \<in> set [OP_CAT, OP_SUBSTR, OP_LEFT, OP_RIGHT, OP_INVERT, OP_AND, OP_OR, OP_XOR, OP_2MUL, OP_2DIV,
       OP_MUL, OP_DIV, OP_MOD, OP_LSHIFT, OP_RSHIFT, OP_CODESEPARATOR]"

definition eval_step :: "eval_env \<Rightarrow> opcodetype \<Rightarrow> valtype \<Rightarrow> eval_state \<Rightarrow> eval_state ev" where
  "eval_step env opcode vchPushValue st =
     (let fExec = (False \<notin> set (vfExec st)) in
      if length vchPushValue > MAX_SCRIPT_ELEMENT_SIZE then Inl (ScriptFail SCRIPT_ERR_PUSH_SIZE)
      else let st = (if opcode > OP_16 then st\<lparr>nOpCount := nOpCount st + 1\<rparr> else st) in
        if opcode > OP_16 \<and> nOpCount st > 201 then Inl (ScriptFail SCRIPT_ERR_OP_COUNT)
        else if disabled_opcode opcode then Inl (ScriptFail SCRIPT_ERR_DISABLED_OPCODE)
        else ebind
          (if fExec \<and> opcode \<le> OP_PUSHDATA4 then
             (if fRequireMinimal env \<and> \<not> CheckMinimalPush vchPushValue opcode
              then Inl (ScriptFail SCRIPT_ERR_MINIMALDATA)
              else Inr (st\<lparr>st_stack := vchPushValue # st_stack st\<rparr>))
           else if fExec \<or> (OP_IF \<le> opcode \<and> opcode \<le> OP_ENDIF) then eval_op env opcode fExec st
           else Inr st)
          (\<lambda>st. if length (st_stack st) + length (altstack st) > 1000 then Inl (ScriptFail SCRIPT_ERR_STACK_SIZE)
                else Inr st))"

section \<open>Scripts\<close>

function EvalScript_loop :: "eval_env \<Rightarrow> byte list \<Rightarrow> eval_state \<Rightarrow> eval_state ev" where
  "EvalScript_loop env pc st =
     (if pc = [] then Inr st
      else case GetOp2 pc of
        None \<Rightarrow> Inl (ScriptFail SCRIPT_ERR_BAD_OPCODE)
      | Some (opcode, vchPushValue, pc') \<Rightarrow>
          ebind (eval_step env opcode vchPushValue st) (\<lambda>st'. EvalScript_loop env pc' st'))"
  by pat_completeness auto
termination
  by (relation "measure (\<lambda>(_, pc, _). length pc)") (auto dest: GetOp2_shorter)

declare EvalScript_loop.simps [simp del]

text \<open>
  The result is the stack or the script error, except where an assertion fails: only exceptions are caught.
\<close>

definition EvalScript ::
  "low_s \<Rightarrow> valtype list \<Rightarrow> CScript \<Rightarrow> uint32_t \<Rightarrow> BaseSignatureChecker \<Rightarrow> uint32_t \<Rightarrow>
   (ScriptError + valtype list) result" where
  "EvalScript checkLowS stack script flags checker consensusBranchId =
     (if length script > MAX_SCRIPT_SIZE then Inr (Inl SCRIPT_ERR_SCRIPT_SIZE)
      else let env = \<lparr>env_script = script, env_flags = flags, env_checker = checker,
                      env_branch = consensusBranchId, env_CheckLowS = checkLowS\<rparr>;
               st = \<lparr>st_stack = stack, altstack = [], vfExec = [], nOpCount = 0\<rparr>
           in case EvalScript_loop env script st of
                Inl (ScriptFail serror) \<Rightarrow> Inr (Inl serror)
              | Inl (Raised (Throw _)) \<Rightarrow> Inr (Inl SCRIPT_ERR_UNKNOWN_ERROR)
              | Inl (Raised (AssertFail e)) \<Rightarrow> Inl (AssertFail e)
              | Inr st' \<Rightarrow> if vfExec st' \<noteq> [] then Inr (Inl SCRIPT_ERR_UNBALANCED_CONDITIONAL)
                           else Inr (Inr (st_stack st')))"

text \<open>\<open>VerifyScript\<close> gives the error it sets; \<open>SCRIPT_ERR_OK\<close> where it returns \<open>true\<close>.\<close>

type_synonym eval_fun = "valtype list \<Rightarrow> CScript \<Rightarrow> (ScriptError + valtype list) result"

definition VerifyScript_p2sh :: "eval_fun \<Rightarrow> CScript \<Rightarrow> valtype list \<Rightarrow> (ScriptError + valtype list) result" where
  "VerifyScript_p2sh eval sig stackCopy =
     (if \<not> IsPushOnly sig then Inr (Inl SCRIPT_ERR_SIG_PUSHONLY)
      else case stackCopy of
        [] \<Rightarrow> Inl (AssertFail ''!stack.empty()'')
      | pubKeySerialized # stack \<Rightarrow>
          (case eval stack pubKeySerialized of
             Inl e \<Rightarrow> Inl e
           | Inr (Inl serror) \<Rightarrow> Inr (Inl serror)
           | Inr (Inr stack) \<Rightarrow>
               if stack = [] then Inr (Inl SCRIPT_ERR_EVAL_FALSE)
               else if \<not> CastToBool (hd stack) then Inr (Inl SCRIPT_ERR_EVAL_FALSE)
               else Inr (Inr stack)))"

definition VerifyScript_clean :: "uint32_t \<Rightarrow> valtype list \<Rightarrow> ScriptError result" where
  "VerifyScript_clean flags stack =
     (if flags AND SCRIPT_VERIFY_CLEANSTACK \<noteq> 0 then
        (if flags AND SCRIPT_VERIFY_P2SH = 0 then Inl (AssertFail ''(flags & SCRIPT_VERIFY_P2SH) != 0'')
         else if length stack \<noteq> 1 then Inr SCRIPT_ERR_CLEANSTACK
         else Inr SCRIPT_ERR_OK)
      else Inr SCRIPT_ERR_OK)"

definition VerifyScript ::
  "low_s \<Rightarrow> CScript \<Rightarrow> CScript \<Rightarrow> uint32_t \<Rightarrow> BaseSignatureChecker \<Rightarrow> uint32_t \<Rightarrow> ScriptError result" where
  "VerifyScript checkLowS sig pubKey flags checker consensusBranchId =
     (let eval = (\<lambda>stack script. EvalScript checkLowS stack script flags checker consensusBranchId) in
      if flags AND SCRIPT_VERIFY_SIGPUSHONLY \<noteq> 0 \<and> \<not> IsPushOnly sig then Inr SCRIPT_ERR_SIG_PUSHONLY
      else case eval [] sig of
        Inl e \<Rightarrow> Inl e
      | Inr (Inl serror) \<Rightarrow> Inr serror
      | Inr (Inr stack1) \<Rightarrow>
          (case eval stack1 pubKey of
             Inl e \<Rightarrow> Inl e
           | Inr (Inl serror) \<Rightarrow> Inr serror
           | Inr (Inr stack2) \<Rightarrow>
               if stack2 = [] then Inr SCRIPT_ERR_EVAL_FALSE
               else if \<not> CastToBool (hd stack2) then Inr SCRIPT_ERR_EVAL_FALSE
               else if flags AND SCRIPT_VERIFY_P2SH \<noteq> 0 \<and> IsPayToScriptHash pubKey then
                 (case VerifyScript_p2sh eval sig stack1 of
                    Inl e \<Rightarrow> Inl e
                  | Inr (Inl serror) \<Rightarrow> Inr serror
                  | Inr (Inr stack3) \<Rightarrow> VerifyScript_clean flags stack3)
               else VerifyScript_clean flags stack2))"

section \<open>What every operation keeps\<close>

text \<open>
  \<open>ev_ok P r\<close>: the computation does not run into a failed assertion, does not return \<open>false\<close> without an
  error, and a value it returns satisfies \<open>P\<close>.
\<close>

definition ev_ok :: "('a \<Rightarrow> bool) \<Rightarrow> 'a ev \<Rightarrow> bool" where
  "ev_ok P r \<longleftrightarrow> (case r of Inl (Raised (AssertFail _)) \<Rightarrow> False | Inl (Raised (Throw _)) \<Rightarrow> True
     | Inl (ScriptFail e) \<Rightarrow> e \<noteq> SCRIPT_ERR_OK | Inr x \<Rightarrow> P x)"

lemma ebind_simps [simp]: "ebind (Inl e) f = Inl e" "ebind (Inr x) f = f x"
  by (simp_all add: ebind_def)

lemma raising_simps [simp]: "raising (Inl e) = Inl (Raised e)" "raising (Inr x) = Inr x"
  by (simp_all add: raising_def)

lemma ebind_Inr: "ebind r f = Inr y \<longleftrightarrow> (\<exists>x. r = Inr x \<and> f x = Inr y)"
  by (cases r) simp_all

lemma ev_ok_simps [simp]:
  "ev_ok P (Inr x) = P x" "ev_ok P (Inl (ScriptFail e)) = (e \<noteq> SCRIPT_ERR_OK)" "ev_ok P (Inl (Raised (Throw m)))"
  "\<not> ev_ok P (Inl (Raised (AssertFail m)))"
  by (simp_all add: ev_ok_def)

lemma ev_ok_if: "(c \<Longrightarrow> ev_ok P a) \<Longrightarrow> (\<not> c \<Longrightarrow> ev_ok P b) \<Longrightarrow> ev_ok P (if c then a else b)"
  by simp

lemma ev_ok_ebind: "ev_ok Q r \<Longrightarrow> (\<And>x. Q x \<Longrightarrow> ev_ok P (f x)) \<Longrightarrow> ev_ok P (ebind r f)"
  by (cases r) (auto simp: ev_ok_def split: eval_fail.splits failure.splits)

lemma ev_ok_mono: "ev_ok Q r \<Longrightarrow> (\<And>x. Q x \<Longrightarrow> P x) \<Longrightarrow> ev_ok P r"
  by (cases r) (auto simp: ev_ok_def split: eval_fail.splits failure.splits)

lemma CScriptNum_of_raises: "CScriptNum_of v m k = Inl e \<Longrightarrow> \<exists>s. e = Throw s"
  by (auto simp: CScriptNum_of_def set_vch_def Let_def split: if_splits)

lemma ev_ok_scriptnum:
  assumes "k \<le> 7"
  shows "ev_ok (\<lambda>n. \<bar>n\<bar> < 2 ^ (8 * k)) (raising (CScriptNum_of v m k))"
  using CScriptNum_of_raises [of v m k] scriptnum_range [OF _ assms, of v m] by (cases "CScriptNum_of v m k") auto

lemma ev_ok_scriptnum4: "ev_ok (\<lambda>n. \<bar>n\<bar> < 2 ^ 32) (raising (CScriptNum_of v m 4))"
  using ev_ok_scriptnum [of 4] by simp

lemma length_getvch: "length (getvch n) \<le> 9"
proof (cases "n = 0 \<or> n = INT64_MIN")
  case True
  then show ?thesis by (auto simp: getvch_def scriptnum_serialize_def int64_min_vch_def)
next
  case False
  define r where "r = abs_bytes (of_nat (nat \<bar>n\<bar>))"
  have "getvch n = signed_bytes (n < 0) r" using False unfolding getvch_def r_def by (intro scriptnum_serialize_signed) blast+
  moreover have "length (signed_bytes neg r) \<le> Suc (length r)" for neg by (cases r) (simp_all add: signed_bytes_def)
  moreover have "length r \<le> 8" unfolding r_def by (rule abs_bytes_val(2))
  ultimately show ?thesis using order.trans [of "length (getvch n)" "Suc (length r)" 9] by simp
qed

lemma length_digests [simp]:
  "length (CRIPEMD160_Finalize h) = 20" "length (CSHA1_Finalize h) = 20" "length (CSHA256_Finalize h) = 32"
  by (simp_all add: CRIPEMD160_Finalize_def CSHA1_Finalize_def CSHA256_Finalize_def CSHA256_FinalizeNoPadding_def Let_def
      length_concat o_def sum_list_triv WriteLE32_def del: upt_rec_numeral)

text \<open>Elements within the size limit.\<close>

definition elem_ok :: "valtype \<Rightarrow> bool" where
  "elem_ok v \<longleftrightarrow> length v \<le> MAX_SCRIPT_ELEMENT_SIZE"

definition elems_ok :: "valtype list \<Rightarrow> bool" where
  "elems_ok s \<longleftrightarrow> list_all elem_ok s"

definition state_ok :: "eval_state \<Rightarrow> bool" where
  "state_ok st \<longleftrightarrow> elems_ok (st_stack st) \<and> elems_ok (altstack st) \<and> 0 \<le> nOpCount st \<and> nOpCount st \<le> 201"

lemma elems_ok_simps [simp]: "elems_ok []" "elems_ok (x # s) \<longleftrightarrow> elem_ok x \<and> elems_ok s"
  "elems_ok (s @ t) \<longleftrightarrow> elems_ok s \<and> elems_ok t"
  by (simp_all add: elems_ok_def)

lemma elems_ok_sub: "elems_ok s \<Longrightarrow> elems_ok (take n s)" "elems_ok s \<Longrightarrow> elems_ok (drop n s)" "elems_ok s \<Longrightarrow> elems_ok (tl s)"
  "elems_ok s \<Longrightarrow> i < length s \<Longrightarrow> elem_ok (s ! i)"
  by (auto simp: elems_ok_def list_all_iff dest: in_set_takeD in_set_dropD) (cases s, simp_all)

lemma elem_ok_getvch [simp]: "elem_ok (getvch n)"
  using length_getvch [of n] by (simp add: elem_ok_def MAX_SCRIPT_ELEMENT_SIZE_def)

lemma elem_ok_consts [simp]: "elem_ok vchTrue" "elem_ok vchFalse" "elem_ok (CRIPEMD160_Finalize h)" "elem_ok (CSHA1_Finalize h)"
  "elem_ok (CSHA256_Finalize h)" "elem_ok (CHash160_Finalize h)" "elem_ok (CHash256_Finalize h)"
  by (simp_all add: elem_ok_def MAX_SCRIPT_ELEMENT_SIZE_def vchTrue_def vchFalse_def CHash160_Finalize_def CHash256_Finalize_def Let_def)

lemma stack_ops_ok:
  assumes "elems_ok s"
  shows "ev_ok elems_ok (op_stack opcode s)"
  using assms by (auto simp: op_stack_def split: list.split)

lemma op_equal_ok: "elems_ok s \<Longrightarrow> ev_ok elems_ok (op_equal opcode s)"
  by (auto simp: op_equal_def Let_def split: list.split)

lemma op_crypto_ok: "elems_ok s \<Longrightarrow> ev_ok elems_ok (op_crypto opcode s)"
  by (auto simp: op_crypto_def split: list.split)

lemma op_pick_roll_ok:
  assumes "elems_ok s"
  shows "ev_ok elems_ok (op_pick_roll env opcode s)"
  using elems_ok_sub [OF elems_ok_sub(3) [OF assms]] elems_ok_sub(3) [OF assms]
  by (auto intro!: ev_ok_ebind [OF ev_ok_scriptnum4] simp: op_pick_roll_def nDefaultMaxNumSize_def Let_def nat_less_iff)

lemma unary_no_assert:
  assumes "\<bar>n\<bar> < 2 ^ 32"
  shows "CScriptNum_add n 1 = Inr (n + 1)" "CScriptNum_sub n 1 = Inr (n - 1)" "CScriptNum_neg n = Inr (- n)"
  using assms by (auto simp: CScriptNum_add_def CScriptNum_sub_def CScriptNum_neg_def INT64_MAX_def INT64_MIN_def)

lemma op_unary_ok:
  assumes "elems_ok s" "opcode \<in> {OP_1ADD, OP_1SUB, OP_NEGATE, OP_ABS, OP_NOT, OP_0NOTEQUAL}"
  shows "ev_ok elems_ok (op_unary env opcode s)"
proof (cases s)
  case (Cons x t)
  then show ?thesis unfolding op_unary_def nDefaultMaxNumSize_def
    using assms by (auto intro!: ev_ok_ebind [OF ev_ok_scriptnum4] simp: unary_no_assert)
qed (simp add: op_unary_def)

lemma ev_ok_operand: "ev_ok (\<lambda>_. True) (raising (CScriptNum_of v m 4))"
  by (rule ev_ok_mono [OF ev_ok_scriptnum4]) simp

lemma op_binary_ok:
  assumes "elems_ok s" "opcode \<in> {OP_ADD, OP_SUB, OP_BOOLAND, OP_BOOLOR, OP_NUMEQUAL, OP_NUMEQUALVERIFY, OP_NUMNOTEQUAL, OP_LESSTHAN,
    OP_GREATERTHAN, OP_LESSTHANOREQUAL, OP_GREATERTHANOREQUAL, OP_MIN, OP_MAX}"
  shows "ev_ok elems_ok (op_binary env opcode s)"
proof -
  have "\<exists>n. binary_result opcode a b = Inr n" for a b using assms(2) by (auto simp: binary_result_def)
  then have "ev_ok (\<lambda>_. True) (raising (binary_result opcode a b))" for a b by (metis ev_ok_simps(1) raising_simps(2))
  then show ?thesis using assms(1) unfolding op_binary_def nDefaultMaxNumSize_def
    by (auto split: list.split intro!: ev_ok_operand ev_ok_ebind [where Q = "\<lambda>_. True"])
qed

lemma op_within_ok: "elems_ok s \<Longrightarrow> ev_ok elems_ok (op_within env s)"
  unfolding op_within_def nDefaultMaxNumSize_def
  by (auto split: list.split intro!: ev_ok_ebind [OF ev_ok_operand])

text \<open>The signature checks: the checker must not run into an assertion of its own.\<close>

definition checker_ok :: "BaseSignatureChecker \<Rightarrow> bool" where
  "checker_ok ck \<longleftrightarrow> (\<forall>sig key script branch m. ck_CheckSig ck sig key script branch \<noteq> Inl (AssertFail m))"

lemma ev_ok_checksig: "checker_ok (env_checker env) \<Longrightarrow> ev_ok (\<lambda>_. True) (checksig env sig key)"
  by (cases "ck_CheckSig (env_checker env) sig key (env_script env) (env_branch env)")
    (auto simp: checker_ok_def ev_ok_def split: failure.split)

lemma ev_ok_check_encodings: "ev_ok (\<lambda>_. True) (check_encodings env sig key)"
  by (auto simp: check_encodings_def Let_def case_prod_beta CheckSignatureEncoding_def CheckPubKeyEncoding_def IsLowDERSignature_def)

lemma op_checksig_ok: "checker_ok (env_checker env) \<Longrightarrow> elems_ok s \<Longrightarrow> ev_ok elems_ok (op_checksig env opcode s)"
  by (auto simp: op_checksig_def split: list.split intro!: ev_ok_ebind [OF ev_ok_check_encodings] ev_ok_ebind [OF ev_ok_checksig])

lemma multisig_loop_ok: "checker_ok (env_checker env) \<Longrightarrow> ev_ok (\<lambda>_. True) (multisig_loop env stack isig nSigs ikey nKeys)"
proof (induction nKeys arbitrary: isig nSigs ikey)
  case 0
  then show ?case by (cases nSigs) simp_all
next
  case (Suc nKeys)
  show ?case
  proof (cases nSigs)
    case (Suc n)
    show ?thesis unfolding Suc multisig_loop.simps Let_def
      using Suc.IH [OF Suc.prems]
      by (intro ev_ok_ebind [OF ev_ok_check_encodings] ev_ok_ebind [OF ev_ok_checksig [OF Suc.prems]]) simp
  qed simp
qed

lemma on_stack_ok:
  assumes "state_ok st" "ev_ok elems_ok (f (st_stack st))"
  shows "ev_ok state_ok (on_stack f st)"
  unfolding on_stack_def using assms(1) by (intro ev_ok_ebind [OF assms(2)]) (simp add: state_ok_def)

lemma op_checkmultisig_ok:
  assumes "checker_ok (env_checker env)" "state_ok st"
  shows "ev_ok state_ok (op_checkmultisig env opcode st)"
  using assms(2) elems_ok_sub(2) [of "st_stack st"]
  by (auto simp: op_checkmultisig_def Let_def nDefaultMaxNumSize_def state_ok_def simp flip: not_less
      intro!: ev_ok_ebind [OF ev_ok_operand] ev_ok_ebind [OF multisig_loop_ok [OF assms(1)]] split: list.split if_split)
    (metis elems_ok_simps(2))+

lemma byte_range:
  fixes b :: byte
  shows "OP_NEGATE \<le> b \<and> b \<le> OP_0NOTEQUAL \<longleftrightarrow> b \<in> {OP_NEGATE, OP_ABS, OP_NOT, OP_0NOTEQUAL}"
  and "OP_BOOLAND \<le> b \<and> b \<le> OP_MAX \<longleftrightarrow> b \<in> {OP_BOOLAND, OP_BOOLOR, OP_NUMEQUAL, OP_NUMEQUALVERIFY, OP_NUMNOTEQUAL, OP_LESSTHAN,
    OP_GREATERTHAN, OP_LESSTHANOREQUAL, OP_GREATERTHANOREQUAL, OP_MIN, OP_MAX}"
  by (simp_all only: insert_iff empty_iff word_le_nat_alt word_unat_eq_iff unat_numeral, simp, presburger, simp, presburger)

lemma eval_op_ok:
  assumes "checker_ok (env_checker env)" "state_ok st"
  shows "ev_ok state_ok (eval_op env opcode fExec st)"
proof -
  have e: "elems_ok (st_stack st)" "elems_ok (altstack st)" using assms(2) by (simp_all add: state_ok_def)
  have 1: "ev_ok state_ok (op_pushnum opcode st)" using assms(2) by (simp add: op_pushnum_def state_ok_def)
  have 2: "ev_ok state_ok (op_checklocktimeverify env st)"
    using assms(2) by (auto simp: op_checklocktimeverify_def split: list.split intro!: ev_ok_ebind [OF ev_ok_scriptnum])
  have 3: "ev_ok state_ok (op_nops env st)" using assms(2) by (simp add: op_nops_def)
  have 4: "ev_ok state_ok (op_if opcode fExec st)"
    using assms(2) by (auto simp: op_if_def Let_def state_ok_def split: list.split)
  have 5: "ev_ok state_ok (op_else st)" "ev_ok state_ok (op_endif st)" "ev_ok state_ok (op_verify st)"
    using assms(2) by (auto simp: op_else_def op_endif_def op_verify_def state_ok_def split: list.split)
  have 6: "ev_ok state_ok (op_toaltstack st)" "ev_ok state_ok (op_fromaltstack st)"
    using assms(2) by (auto simp: op_toaltstack_def op_fromaltstack_def state_ok_def split: list.split)
  note on = on_stack_ok [OF assms(2)]
  have stack: "ev_ok state_ok (on_stack (op_pick_roll env opcode) st)" "ev_ok state_ok (on_stack (op_stack opcode) st)"
    "ev_ok state_ok (on_stack (op_equal opcode) st)" "ev_ok state_ok (on_stack (op_within env) st)"
    "ev_ok state_ok (on_stack (op_crypto opcode) st)" "ev_ok state_ok (on_stack (op_checksig env opcode) st)"
    by (intro on op_pick_roll_ok stack_ops_ok op_equal_ok op_within_ok op_crypto_ok op_checksig_ok assms(1) e(1))+
  have 7: "ev_ok state_ok (on_stack (op_unary env opcode) st)"
    if "opcode = OP_1ADD \<or> opcode = OP_1SUB \<or> (OP_NEGATE \<le> opcode \<and> opcode \<le> OP_0NOTEQUAL)"
    using that by (intro on op_unary_ok e) (auto simp: byte_range)
  have 8: "ev_ok state_ok (on_stack (op_binary env opcode) st)"
    if "opcode = OP_ADD \<or> opcode = OP_SUB \<or> (OP_BOOLAND \<le> opcode \<and> opcode \<le> OP_MAX)"
    using that by (intro on op_binary_ok e) (auto simp: byte_range)
  show ?thesis unfolding eval_op_def
    by (intro ev_ok_if 1 2 3 4 5 6 7 8 stack op_checkmultisig_ok assms ev_ok_simps(1,2) [THEN iffD2]; (assumption | simp only: ScriptError.distinct not_False_eq_True))
qed

text \<open>The limits on the state between two instructions.\<close>

definition within_limits :: "eval_state \<Rightarrow> bool" where
  "within_limits st \<longleftrightarrow> state_ok st \<and> length (st_stack st) + length (altstack st) \<le> 1000"

lemma eval_step_ok:
  assumes "checker_ok (env_checker env)" "state_ok st"
  shows "ev_ok within_limits (eval_step env opcode v st)"
proof -
  define st1 where "st1 = (if opcode > OP_16 then st\<lparr>nOpCount := nOpCount st + 1\<rparr> else st)"
  have 1: "ev_ok within_limits (ebind r (\<lambda>st. if length (st_stack st) + length (altstack st) > 1000
       then Inl (ScriptFail SCRIPT_ERR_STACK_SIZE) else Inr st))" if "ev_ok state_ok r" for r
    by (rule ev_ok_ebind [OF that]) (simp add: within_limits_def)
  have 2: "state_ok st1" if "\<not> (opcode > OP_16 \<and> nOpCount st1 > 201)"
    using assms(2) that by (auto simp: st1_def state_ok_def split: if_splits)
  have 3: "ev_ok state_ok (if f \<and> opcode \<le> OP_PUSHDATA4 then
             (if fRequireMinimal env \<and> \<not> CheckMinimalPush v opcode then Inl (ScriptFail SCRIPT_ERR_MINIMALDATA)
              else Inr (st1\<lparr>st_stack := v # st_stack st1\<rparr>))
           else if f \<or> (OP_IF \<le> opcode \<and> opcode \<le> OP_ENDIF) then eval_op env opcode f st1
           else Inr st1)"
    if "\<not> length v > MAX_SCRIPT_ELEMENT_SIZE" "\<not> (opcode > OP_16 \<and> nOpCount st1 > 201)" for f
    using 2 [OF that(2)] eval_op_ok [OF assms(1) 2 [OF that(2)]] that(1) by (simp add: state_ok_def elem_ok_def)
  show ?thesis unfolding eval_step_def Let_def st1_def [symmetric]
    by (intro ev_ok_if ev_ok_simps(2) [THEN iffD2] 1 3; (assumption | simp only: ScriptError.distinct not_False_eq_True))
qed

lemma EvalScript_loop_ok:
  assumes "checker_ok (env_checker env)"
  shows "within_limits st \<Longrightarrow> ev_ok within_limits (EvalScript_loop env pc st)"
proof (induction pc arbitrary: st rule: measure_induct_rule [of length])
  case (less pc)
  show ?case
  proof (cases "pc = [] \<or> GetOp2 pc = None")
    case True
    then show ?thesis using less.prems by (subst EvalScript_loop.simps) auto
  next
    case False
    then obtain opcode v pc' where op: "pc \<noteq> []" "GetOp2 pc = Some (opcode, v, pc')" by (metis option.exhaust prod_cases3)
    have "ev_ok within_limits (ebind (eval_step env opcode v st) (\<lambda>st'. EvalScript_loop env pc' st'))"
      using less.prems [unfolded within_limits_def]
      by (intro ev_ok_ebind [OF eval_step_ok [OF assms]] less.IH [OF GetOp2_shorter [OF op(2)]]) blast
    then show ?thesis using op by (subst EvalScript_loop.simps) simp
  qed
qed

lemma EvalScript_cases:
  assumes "checker_ok checker" "elems_ok stack" "length stack \<le> 1000"
  shows "(\<exists>e. EvalScript low stack script flags checker branch = Inr (Inl e) \<and> e \<noteq> SCRIPT_ERR_OK) \<or>
    (\<exists>s. EvalScript low stack script flags checker branch = Inr (Inr s) \<and> elems_ok s \<and> length s \<le> 1000)"
proof -
  define env where "env = \<lparr>env_script = script, env_flags = flags, env_checker = checker,
    env_branch = branch, env_CheckLowS = low\<rparr>"
  define st where "st = \<lparr>st_stack = stack, altstack = [], vfExec = [], nOpCount = 0\<rparr>"
  have "ev_ok within_limits (EvalScript_loop env script st)"
    using assms by (intro EvalScript_loop_ok) (simp_all add: env_def st_def within_limits_def state_ok_def)
  then show ?thesis unfolding EvalScript_def Let_def env_def [symmetric] st_def [symmetric]
    by (auto simp: ev_ok_def within_limits_def state_ok_def split: sum.splits eval_fail.splits failure.splits)
qed

section \<open>Running the standard scripts\<close>

lemma ebind_assoc: "ebind (ebind r f) g = ebind r (\<lambda>x. ebind (f x) g)"
  by (cases r) simp_all

lemma GetOp2_op: "\<not> opcode \<le> OP_PUSHDATA4 \<Longrightarrow> GetOp2 (opcode # r) = Some (opcode, [], r)"
  by (simp add: GetOp2_def)

lemma GetOp2_direct:
  "length b < 76 \<Longrightarrow> opcode = of_nat (length b) \<Longrightarrow> GetOp2 (opcode # b @ r) = Some (opcode, b, r)"
  by (simp add: GetOp2_def Let_def unat_of_nat word_le_nat_alt word_less_nat_alt)

lemma loop_Nil: "EvalScript_loop env [] st = Inr st"
  by (simp add: EvalScript_loop.simps)

lemma loop_op:
  "\<not> opcode \<le> OP_PUSHDATA4 \<Longrightarrow>
   EvalScript_loop env (opcode # r) st = ebind (eval_step env opcode [] st) (\<lambda>st'. EvalScript_loop env r st')"
  by (subst EvalScript_loop.simps) (simp add: GetOp2_op)

text \<open>A direct push of two to 75 bytes is minimal.\<close>

lemma loop_push:
  assumes "2 \<le> length b" "length b < 76" "opcode = of_nat (length b)" "vfExec st = []"
    "length (st_stack st) + length (altstack st) < 1000"
  shows "EvalScript_loop env (opcode # b @ r) st = EvalScript_loop env r (st\<lparr>st_stack := b # st_stack st\<rparr>)"
proof -
  have n: "unat opcode = length b" using assms(2,3) by (simp add: unat_of_nat)
  then have le: "opcode \<le> OP_PUSHDATA4" "\<not> opcode > OP_16" using assms(2) by (simp_all add: word_le_nat_alt word_less_nat_alt)
  have "unat opcode \<noteq> unat x" if "x \<in> {OP_CAT, OP_SUBSTR, OP_LEFT, OP_RIGHT, OP_INVERT, OP_AND, OP_OR, OP_XOR, OP_2MUL, OP_2DIV,
       OP_MUL, OP_DIV, OP_MOD, OP_LSHIFT, OP_RSHIFT, OP_CODESEPARATOR}" for x :: byte
    using that n assms(2) by auto
  then have "\<not> disabled_opcode opcode" unfolding disabled_opcode_def by (auto simp: word_unat_eq_iff)
  moreover have "CheckMinimalPush b opcode" using assms(1,2) n by (auto simp: CheckMinimalPush_def)
  ultimately have "eval_step env opcode b st = Inr (st\<lparr>st_stack := b # st_stack st\<rparr>)"
    using le assms by (simp add: eval_step_def MAX_SCRIPT_ELEMENT_SIZE_def Let_def)
  then show ?thesis
    using GetOp2_direct [OF assms(2,3)] by (subst EvalScript_loop.simps) simp
qed

lemma loop_push20:
  "length h = 20 \<Longrightarrow> vfExec st = [] \<Longrightarrow> length (st_stack st) + length (altstack st) < 1000 \<Longrightarrow>
   EvalScript_loop env (20 # h @ r) st = EvalScript_loop env r (st\<lparr>st_stack := h # st_stack st\<rparr>)"
  using loop_push [of h 20 st] by simp

lemma step_hash160:
  assumes "vfExec st = []" "altstack st = []" "length (st_stack st) \<le> 1000" "nOpCount st < 201" "st_stack st = x # s"
  shows "eval_step env OP_HASH160 [] st = Inr (st\<lparr>st_stack := Hash160 x # s, nOpCount := nOpCount st + 1\<rparr>)"
  using assms by (simp add: eval_step_def disabled_opcode_def eval_op_def on_stack_def op_crypto_def Hash160_def Let_def)

lemma append_last_nth: "length t = Suc n \<Longrightarrow> t = take n t @ [t ! n]"
  by (metis lessI take_Suc_conv_app_nth take_all order_refl)

lemma split_two: "length s = Suc (Suc n) \<Longrightarrow> \<exists>a b t. s = a # b # t \<and> length t = n"
  by (auto simp: length_Suc_conv)

lemma p2sh_split:
  assumes "IsPayToScriptHash s"
  obtains h where "length h = 20" "s = OP_HASH160 # 20 # h @ [OP_EQUAL]"
proof -
  have l: "length s = Suc (Suc 21)" and nth: "s ! 0 = OP_HASH160" "s ! 1 = 20" "s ! 22 = OP_EQUAL"
    using assms by (simp_all add: IsPayToScriptHash_def)
  from split_two [OF l] obtain a b t where s: "s = a # b # t" "length t = 21" by blast
  then have "t = take 20 t @ [t ! 20]" by (intro append_last_nth) simp
  moreover have "a = OP_HASH160" "b = 20" "t ! 20 = OP_EQUAL" using nth unfolding s(1) by simp_all
  ultimately show thesis using that [of "take 20 t"] s by simp
qed

text \<open>The hash comparison of a pay-to-script-hash output, on any stack.\<close>

lemma eval_p2sh:
  assumes "length h = 20" "length stack < 1000"
  shows "EvalScript low stack (OP_HASH160 # 20 # h @ [OP_EQUAL]) flags checker branch =
    (case stack of
       [] \<Rightarrow> Inr (Inl SCRIPT_ERR_INVALID_STACK_OPERATION)
     | x # s \<Rightarrow> Inr (Inr ((if Hash160 x = h then vchTrue else vchFalse) # s)))"
proof (cases stack)
  case Nil
  then show ?thesis using assms
    by (simp add: EvalScript_def MAX_SCRIPT_SIZE_def loop_op eval_step_def disabled_opcode_def eval_op_def on_stack_def op_crypto_def Let_def)
next
  case (Cons x s)
  then show ?thesis using assms
    by (simp add: EvalScript_def MAX_SCRIPT_SIZE_def loop_op loop_Nil step_hash160 loop_push20)
      (simp add: eval_step_def disabled_opcode_def eval_op_def on_stack_def op_equal_def Let_def)
qed

lemma eval_p2sh_full:
  assumes "length h = 20" "length stack = 1000"
  shows "EvalScript low stack (OP_HASH160 # 20 # h @ [OP_EQUAL]) flags checker branch = Inr (Inl SCRIPT_ERR_STACK_SIZE)"
proof -
  obtain x s where "stack = x # s" using assms(2) by (cases stack) simp_all
  moreover have "GetOp2 (20 # h @ [OP_EQUAL]) = Some (20, h, [OP_EQUAL])" using assms(1) by (intro GetOp2_direct) simp_all
  ultimately show ?thesis using assms
    by (simp add: EvalScript_def MAX_SCRIPT_SIZE_def loop_op step_hash160)
      (subst EvalScript_loop.simps, simp add: eval_step_def disabled_opcode_def CheckMinimalPush_def MAX_SCRIPT_ELEMENT_SIZE_def Let_def)
qed

text \<open>A pay-to-public-key-hash output, on a stack with a key on top of a signature.\<close>

definition p2pkh_script :: "byte list \<Rightarrow> CScript" where
  "p2pkh_script h = OP_DUP # OP_HASH160 # 20 # h @ [OP_EQUALVERIFY, OP_CHECKSIG]"

definition encodings_ok :: "low_s \<Rightarrow> uint32_t \<Rightarrow> valtype \<Rightarrow> valtype \<Rightarrow> bool" where
  "encodings_ok low flags sig pk \<longleftrightarrow>
     fst (CheckSignatureEncoding low sig flags SCRIPT_ERR_OK) \<and> fst (CheckPubKeyEncoding pk flags SCRIPT_ERR_OK)"

lemma fst_CheckSignatureEncoding:
  "fst (CheckSignatureEncoding low sig flags e) = fst (CheckSignatureEncoding low sig flags e')"
  "fst (CheckPubKeyEncoding pk flags e) = fst (CheckPubKeyEncoding pk flags e')"
  by (simp_all add: CheckSignatureEncoding_def CheckPubKeyEncoding_def IsLowDERSignature_def)

lemma check_encodings_ok:
  "check_encodings env sig pk = Inr u \<longleftrightarrow> encodings_ok (env_CheckLowS env) (env_flags env) sig pk"
  using fst_CheckSignatureEncoding(1) [of "env_CheckLowS env" sig "env_flags env" SCRIPT_ERR_UNKNOWN_ERROR SCRIPT_ERR_OK]
    fst_CheckSignatureEncoding(2) [of pk "env_flags env" "snd (CheckSignatureEncoding (env_CheckLowS env) sig (env_flags env) SCRIPT_ERR_UNKNOWN_ERROR)" SCRIPT_ERR_OK]
  by (simp add: check_encodings_def encodings_ok_def Let_def case_prod_beta)

lemma EvalScript_Inr:
  "EvalScript low stack script flags checker branch = Inr (Inr t) \<longleftrightarrow>
     length script \<le> MAX_SCRIPT_SIZE \<and>
     (\<exists>st. EvalScript_loop \<lparr>env_script = script, env_flags = flags, env_checker = checker, env_branch = branch,
                              env_CheckLowS = low\<rparr> script
            \<lparr>st_stack = stack, altstack = [], vfExec = [], nOpCount = 0\<rparr> = Inr st \<and> vfExec st = [] \<and> st_stack st = t)"
  by (auto simp: EvalScript_def Let_def split: sum.splits eval_fail.splits failure.splits)

lemma raising_Inr: "raising r = Inr x \<longleftrightarrow> r = Inr x"
  by (cases r) simp_all

lemma eval_p2pkh:
  assumes "length h = 20" "length s < 997"
  shows "EvalScript low (pk # sig # s) (p2pkh_script h) flags checker branch = Inr (Inr t) \<longleftrightarrow>
    Hash160 pk = h \<and> encodings_ok low flags sig pk \<and>
    (\<exists>ok. ck_CheckSig checker sig pk (p2pkh_script h) branch = Inr ok \<and> t = (if ok then vchTrue else vchFalse) # s)"
proof -
  define env where "env = \<lparr>env_script = p2pkh_script h, env_flags = flags, env_checker = checker,
    env_branch = branch, env_CheckLowS = low\<rparr>"
  have l: "\<not> length (p2pkh_script h) > MAX_SCRIPT_SIZE" using assms(1) by (simp add: p2pkh_script_def MAX_SCRIPT_SIZE_def)
  have run: "EvalScript_loop env (p2pkh_script h) \<lparr>st_stack = pk # sig # s, altstack = [], vfExec = [], nOpCount = 0\<rparr> =
    (if Hash160 pk = h then ebind (check_encodings env sig pk) (\<lambda>_. ebind (checksig env sig pk)
        (\<lambda>ok. Inr \<lparr>st_stack = (if ok then vchTrue else vchFalse) # s, altstack = [], vfExec = [], nOpCount = 4\<rparr>))
     else Inl (ScriptFail SCRIPT_ERR_EQUALVERIFY))"
    using assms
    by (simp add: p2pkh_script_def loop_op loop_Nil loop_push20)
      (simp add: eval_step_def disabled_opcode_def eval_op_def on_stack_def op_equal_def op_stack_def op_crypto_def
        Hash160_def [symmetric] Let_def loop_Nil loop_push20 loop_op op_checksig_def ebind_assoc if_distrib [of "\<lambda>r. ebind r _"])
  have "EvalScript low (pk # sig # s) (p2pkh_script h) flags checker branch = Inr (Inr t) \<longleftrightarrow>
    (\<exists>st. EvalScript_loop env (p2pkh_script h) \<lparr>st_stack = pk # sig # s, altstack = [], vfExec = [], nOpCount = 0\<rparr> = Inr st \<and>
       vfExec st = [] \<and> st_stack st = t)"
    using l unfolding EvalScript_Inr env_def by (simp only: not_less simp_thms)
  also have "\<dots> \<longleftrightarrow> Hash160 pk = h \<and> check_encodings env sig pk = Inr () \<and>
    (\<exists>ok. checksig env sig pk = Inr ok \<and> t = (if ok then vchTrue else vchFalse) # s)"
    unfolding run by (cases "Hash160 pk = h"; cases "check_encodings env sig pk"; cases "checksig env sig pk") auto
  also have "\<dots> \<longleftrightarrow> Hash160 pk = h \<and> encodings_ok low flags sig pk \<and>
    (\<exists>ok. ck_CheckSig checker sig pk (p2pkh_script h) branch = Inr ok \<and> t = (if ok then vchTrue else vchFalse) # s)"
    unfolding check_encodings_ok raising_Inr by (simp add: env_def)
  finally show ?thesis .
qed

section \<open>Properties of the interpreter\<close>

lemma p2pkh_split:
  assumes "IsPayToPublicKeyHash s"
  obtains h where "length h = 20" "s = p2pkh_script h" "AddressHash s = h"
proof -
  have l: "length s = 25" and nth: "s ! 0 = OP_DUP" "s ! 1 = OP_HASH160" "s ! 2 = 20" "s ! 23 = OP_EQUALVERIFY" "s ! 24 = OP_CHECKSIG"
    using assms by (simp_all add: IsPayToPublicKeyHash_def)
  have "length s = Suc (Suc 23)" using l by simp
  from split_two [OF this] obtain a b t' where "s = a # b # t'" "length t' = 23" by blast
  moreover obtain c t where "t' = c # t" "length t = 22" using \<open>length t' = 23\<close> by (cases t') simp_all
  ultimately have s: "s = a # b # c # t" "length t = 22" by simp_all
  have "t = take 20 t @ [t ! 20, t ! 21]"
  proof -
    have "t = take 21 t @ [t ! 21]" using s by (intro append_last_nth) simp
    moreover have "take 21 t = take 20 t @ [t ! 20]" using append_last_nth [of "take 21 t" 20] s by simp
    ultimately show ?thesis by simp
  qed
  moreover have "t ! 20 = OP_EQUALVERIFY" "t ! 21 = OP_CHECKSIG" "a = OP_DUP" "b = OP_HASH160" "c = 20"
    using nth s(2) unfolding s(1) by simp_all
  ultimately show thesis using that [of "take 20 t"] s assms by (simp add: p2pkh_script_def AddressHash_def)
qed

lemma p2sh_address: "length h = 20 \<Longrightarrow> AddressHash (OP_HASH160 # 20 # h @ [OP_EQUAL]) = h"
  by (simp add: AddressHash_def IsPayToPublicKeyHash_def IsPayToScriptHash_def nth_append)

lemma CastToBool_consts [simp]: "CastToBool vchTrue" "\<not> CastToBool vchFalse"
  by (simp_all add: vchTrue_def vchFalse_def)

lemma length_Hash160 [simp]: "length (Hash160 p) = 20"
  by (simp add: Hash160_def CHash160_Finalize_def Let_def)

lemma eval_two_pushes:
  assumes "2 \<le> length sig" "length sig < 76" "2 \<le> length pk" "length pk < 76"
  shows "EvalScript low [] (script_push sig @ script_push pk) flags checker branch = Inr (Inr [pk, sig])"
proof -
  have "script_push sig @ script_push pk = of_nat (length sig) # sig @ of_nat (length pk) # pk @ []"
    using assms by (simp add: script_push_def)
  then show ?thesis
    using assms by (simp only: EvalScript_def Let_def) (simp add: loop_push loop_Nil MAX_SCRIPT_SIZE_def del: append_Nil2)
qed

lemma pushes_IsPushOnly:
  assumes "length sig < 76" "length pk < 76"
  shows "IsPushOnly (script_push sig @ script_push pk)"
  using IsPushOnly_push [of sig "script_push pk"] IsPushOnly_push [of pk "[]"] assms by (simp add: IsPushOnly.simps [of "[]"])

lemma VerifyScript_plain:
  assumes "checker_ok checker" "\<not> IsPayToScriptHash script"
    and "2 \<le> length sig" "length sig < 76" "2 \<le> length pk" "length pk < 76"
  shows "VerifyScript low (script_push sig @ script_push pk) script flags checker branch = Inr SCRIPT_ERR_OK \<longleftrightarrow>
    (\<exists>t. EvalScript low [pk, sig] script flags checker branch = Inr (Inr t) \<and> t \<noteq> [] \<and> CastToBool (hd t) \<and>
       VerifyScript_clean flags t = Inr SCRIPT_ERR_OK)"
proof -
  have "elems_ok [pk, sig]" using assms(4,6) by (simp add: elem_ok_def MAX_SCRIPT_ELEMENT_SIZE_def)
  from EvalScript_cases [OF assms(1) this, of low script flags branch]
  consider e where "EvalScript low [pk, sig] script flags checker branch = Inr (Inl e)" "e \<noteq> SCRIPT_ERR_OK"
    | t where "EvalScript low [pk, sig] script flags checker branch = Inr (Inr t)" by auto
  then show ?thesis
    by cases (simp_all add: VerifyScript_def eval_two_pushes [OF assms(3-6)] pushes_IsPushOnly [OF assms(4,6)] assms(2))
qed

text \<open>
  A pay-to-public-key-hash output is spent by a signature and a key exactly when the key hashes to the
  address of the output, signature and key are encoded as the flags demand, and the checker accepts the
  signature under that key for the output's script.
\<close>

lemma p2pkh_spending:
  assumes "IsPayToPublicKeyHash script" "checker_ok checker"
    and "2 \<le> length sig" "length sig < 76" "2 \<le> length pk" "length pk < 76"
    and "flags AND SCRIPT_VERIFY_CLEANSTACK \<noteq> 0 \<Longrightarrow> flags AND SCRIPT_VERIFY_P2SH \<noteq> 0"
  shows "VerifyScript low (script_push sig @ script_push pk) script flags checker branch = Inr SCRIPT_ERR_OK \<longleftrightarrow>
    Hash160 pk = AddressHash script \<and> encodings_ok low flags sig pk \<and> ck_CheckSig checker sig pk script branch = Inr True"
proof -
  obtain h where h: "length h = 20" "script = p2pkh_script h" "AddressHash script = h" using p2pkh_split [OF assms(1)] .
  have no: "\<not> IsPayToScriptHash script" using h by (simp add: p2pkh_script_def IsPayToScriptHash_def)
  note run = eval_p2pkh [OF h(1), of "[]" low pk sig flags checker branch, folded h(2)]
  have clean: "VerifyScript_clean flags [x] = Inr SCRIPT_ERR_OK" for x
    using assms(7) by (auto simp: VerifyScript_clean_def)
  show ?thesis
    unfolding VerifyScript_plain [OF assms(2) no assms(3-6)] h(3) using run clean by auto
qed

definition der_sig :: valtype where
  "der_sig = [0x30, 6, 2, 1, 1, 2, 1, 1, 1]"

definition yes_checker :: BaseSignatureChecker where
  "yes_checker = \<lparr>ck_CheckSig = \<lambda>_ _ _ _. Inr True, ck_CheckLockTime = \<lambda>_. True\<rparr>"

lemma eval_none_p2sh:
  assumes "IsPayToScriptHash script"
  shows "EvalScript low [] script flags checker branch = Inr (Inl SCRIPT_ERR_INVALID_STACK_OPERATION)"
proof -
  obtain h where "length h = 20" "script = OP_HASH160 # 20 # h @ [OP_EQUAL]" using p2sh_split [OF assms] .
  then show ?thesis using eval_p2sh [of h "[]"] by simp
qed

lemma eval_returns:
  assumes "checker_ok checker" "elems_ok stack" "length stack \<le> 1000"
  obtains (error) e where "EvalScript low stack script flags checker branch = Inr (Inl e)" "e \<noteq> SCRIPT_ERR_OK"
    | (stack) t where "EvalScript low stack script flags checker branch = Inr (Inr t)" "elems_ok t" "length t \<le> 1000"
  using EvalScript_cases [OF assms, of low script flags branch] by blast

lemma p2sh_returns:
  assumes "checker_ok checker" "elems_ok stack" "length stack \<le> 1000" "stack \<noteq> []"
  shows "\<exists>r. VerifyScript_p2sh (\<lambda>stack script. EvalScript low stack script flags checker branch) sig stack = Inr r"
proof -
  obtain x s where s: "stack = x # s" using assms(4) by (cases stack) auto
  have "elems_ok s" "length s \<le> 1000" using assms(2,3) s by simp_all
  then show ?thesis
    by (rule eval_returns [OF assms(1), of s low x flags branch]) (simp_all add: VerifyScript_p2sh_def s)
qed

lemma VerifyScript_returns:
  assumes "checker_ok checker"
    and "flags AND SCRIPT_VERIFY_CLEANSTACK \<noteq> 0 \<Longrightarrow> flags AND SCRIPT_VERIFY_P2SH \<noteq> 0"
  shows "\<exists>e. VerifyScript low sig script flags checker branch = Inr e"
proof -
  have clean: "\<exists>e. VerifyScript_clean flags t = Inr e" for t using assms(2) by (auto simp: VerifyScript_clean_def)
  show ?thesis
  proof (cases rule: eval_returns [OF assms(1), of "[]" low sig flags branch])
    case (4 t1)
    then show ?thesis
    proof (cases rule: eval_returns [OF assms(1) 4(2,3), of low script flags branch])
      case (2 t2)
      show ?thesis
      proof (cases "t1 = []")
        case True
        then show ?thesis using 2 4 eval_none_p2sh [of script low flags checker branch] clean
          by (auto simp: VerifyScript_def Let_def split: sum.split)
      next
        case False
        then show ?thesis using 2 4 p2sh_returns [OF assms(1) 4(2,3) False, of low flags branch sig] clean
          by (auto simp: VerifyScript_def Let_def split: sum.split)
      qed
    qed (auto simp: VerifyScript_def Let_def)
  qed (auto simp: VerifyScript_def Let_def)
qed




lemma eval_op_1: "EvalScript low [] [OP_1] flags checker branch = Inr (Inr [[1]])"
  by (simp add: EvalScript_def MAX_SCRIPT_SIZE_def Let_def loop_op loop_Nil eval_step_def disabled_opcode_def eval_op_def
      op_pushnum_def getvch_def scriptnum_serialize_def INT64_MIN_def abs_bytes.simps [of 1])

lemma eval_push_op_1: "EvalScript low [] [1, OP_1] SCRIPT_VERIFY_P2SH checker branch = Inr (Inr [[OP_1]])"
  by (simp add: EvalScript_def MAX_SCRIPT_SIZE_def Let_def EvalScript_loop.simps GetOp2_def eval_step_def disabled_opcode_def
      fRequireMinimal_def MAX_SCRIPT_ELEMENT_SIZE_def)


text \<open>
  C27. An output script that \<open>IsUnspendable\<close> reports cannot be spent: evaluating it fails on every stack, under
  every flag and checker, so that no input script verifies against it. Dropping such outputs from the set of
  unspent outputs therefore loses nothing.
\<close>

theorem unspendable_outputs:
  assumes "IsUnspendable script"
  shows "(\<exists>e. EvalScript low stack script flags checker branch = Inr (Inl e) \<and> e \<noteq> SCRIPT_ERR_OK)
    \<and> (checker_ok checker \<longrightarrow> VerifyScript low sig script flags checker branch \<noteq> Inr SCRIPT_ERR_OK)"
proof -
  have fails: "\<exists>e. EvalScript low stack script flags checker branch = Inr (Inl e) \<and> e \<noteq> SCRIPT_ERR_OK" for stack
  proof (cases "length script > MAX_SCRIPT_SIZE")
    case True
    then show ?thesis by (simp add: EvalScript_def)
  next
    case False
    then obtain s where "script = OP_RETURN # s" using assms by (cases script) (auto simp: IsUnspendable_def)
    then show ?thesis using False
      by (simp add: EvalScript_def loop_op eval_step_def disabled_opcode_def eval_op_def Let_def)
  qed
  have "VerifyScript low sig script flags checker branch \<noteq> Inr SCRIPT_ERR_OK" if ck: "checker_ok checker"
  proof (cases rule: eval_returns [OF ck, of "[]" low sig flags branch])
    case (4 t)
    then show ?thesis using fails [of t] by (auto simp: VerifyScript_def Let_def)
  qed (auto simp: VerifyScript_def Let_def)
  then show ?thesis using fails by blast
qed

theorem unspendable_outputs_witness:
  "\<exists>e. EvalScript (\<lambda>_. True) [[1]] [OP_RETURN, 4] 0 yes_checker 0 = Inr (Inl e) \<and> e \<noteq> SCRIPT_ERR_OK"
  using unspendable_outputs [of "[OP_RETURN, 4]" "\<lambda>_. True" "[[1]]" 0 yes_checker 0 "[]"] by (simp add: IsUnspendable_def)



end
