(* ===== verification/SigHash.thy ===== *)
theory SigHash
  imports Interpreter
begin

text \<open>
  Signature hashes and the transaction signature checker: \<^verbatim>\<open>src/script/interpreter.cpp\<close> from
  \<open>CTransactionSignatureSerializer\<close> to \<open>TransactionSignatureChecker\<close>, with their declarations in
  \<^verbatim>\<open>src/script/interpreter.h\<close>. The BLAKE2b of libsodium and the elliptic curve library are arguments. The lemmas show
  that the precomputed hashes change nothing, what a signature hash commits to, and when an input that gives a
  signature and a key spends its output.
\<close>

unbundle bit_operations_syntax

section \<open>The legacy signature serializer\<close>

definition NOT_AN_INPUT :: uint32_t where "NOT_AN_INPUT = - 1"

text \<open>
  The hash type is an \<open>int\<close>, here its 32 bits. Where the code would read an input that does not exist, the
  model stops with the assertion the code has behind that read.
\<close>

record CTransactionSignatureSerializer =
  ss_txTo :: CTransaction
  ss_scriptCode :: CScript
  ss_nIn :: uint32_t
  fAnyoneCanPay :: bool
  fHashSingle :: bool
  fHashNone :: bool

definition SignatureSerializer :: "CTransaction \<Rightarrow> CScript \<Rightarrow> uint32_t \<Rightarrow> uint32_t \<Rightarrow> CTransactionSignatureSerializer" where
  "SignatureSerializer txTo scriptCode nIn nHashType =
     \<lparr>ss_txTo = txTo, ss_scriptCode = scriptCode, ss_nIn = nIn,
      fAnyoneCanPay = (nHashType AND 0x80 \<noteq> 0),
      fHashSingle = (nHashType AND 0x1f = 3),
      fHashNone = (nHashType AND 0x1f = 2)\<rparr>"

definition SerializeScriptCode :: "CTransactionSignatureSerializer \<Rightarrow> byte list" where
  "SerializeScriptCode t = WriteCompactSize (of_nat (length (ss_scriptCode t))) @ ss_scriptCode t"

definition SerializeInput :: "CTransactionSignatureSerializer \<Rightarrow> uint32_t \<Rightarrow> byte list result" where
  "SerializeInput t nInput0 =
     (let nInput = (if fAnyoneCanPay t then ss_nIn t else nInput0);
          inputs = vin (ss_txTo t) in
      if nInput = NOT_AN_INPUT \<or> \<not> unat nInput < length inputs then Inl (AssertFail ''nInput != NOT_AN_INPUT'')
      else Inr (ser_COutPoint (prevout (inputs ! unat nInput)) @
                (if nInput \<noteq> ss_nIn t then ser_bytes [] else SerializeScriptCode t) @
                (if nInput \<noteq> ss_nIn t \<and> (fHashSingle t \<or> fHashNone t) then ser_int32 0
                 else ser_writedata32 (nSequence (inputs ! unat nInput)))))"

definition SerializeOutput :: "CTransactionSignatureSerializer \<Rightarrow> uint32_t \<Rightarrow> byte list" where
  "SerializeOutput t nOutput =
     (if fHashSingle t \<and> nOutput \<noteq> ss_nIn t then ser_CTxOut CTxOut_null
      else ser_CTxOut (vout (ss_txTo t) ! unat nOutput))"

fun concat_results :: "byte list result list \<Rightarrow> byte list result" where
  "concat_results [] = Inr []"
| "concat_results (r # rs) =
     (case r of Inl e \<Rightarrow> Inl e
      | Inr b \<Rightarrow> (case concat_results rs of Inl e \<Rightarrow> Inl e | Inr bs \<Rightarrow> Inr (b @ bs)))"

definition SignatureSerializer_Serialize :: "CTransactionSignatureSerializer \<Rightarrow> byte list result" where
  "SignatureSerializer_Serialize t =
     (let txTo = ss_txTo t;
          nInputs = (if fAnyoneCanPay t then 1 else length (vin txTo));
          nOutputs = (if fHashNone t then 0 else if fHashSingle t then unat (ss_nIn t + 1) else length (vout txTo))
      in case concat_results (map (\<lambda>n. SerializeInput t (of_nat n)) [0..<nInputs]) of
           Inl e \<Rightarrow> Inl e
         | Inr inputs \<Rightarrow>
             (case (if tx_nVersion txTo \<ge> 2 then ser_JoinSplits 0 (vJoinSplit txTo) else Inr []) of
                Inl e \<Rightarrow> Inl e
              | Inr js \<Rightarrow>
                  Inr (ser_int32 (tx_nVersion txTo) @
                       WriteCompactSize (of_nat nInputs) @ inputs @
                       WriteCompactSize (of_nat nOutputs) @ concat (map (\<lambda>n. SerializeOutput t (of_nat n)) [0..<nOutputs]) @
                       ser_writedata32 (nLockTime txTo) @
                       (if tx_nVersion txTo \<ge> 2 then
                          WriteCompactSize (of_nat (length (vJoinSplit txTo))) @ js @
                          (if length (vJoinSplit txTo) > 0 then joinSplitPubKey txTo @ replicate 64 0 else [])
                        else []))))"

section \<open>The hashes of a transaction's parts\<close>

text \<open>
  \<open>CBLAKE2bWriter\<close> hashes what is written to it with the BLAKE2b of libsodium, under a personalization: a
  function of both, passed as an argument.
\<close>

type_synonym blake2b = "byte list \<Rightarrow> byte list \<Rightarrow> uint256"

definition ascii :: "string \<Rightarrow> byte list" where
  "ascii s = map (of_nat \<circ> of_char) s"

definition ZCASH_PREVOUTS_HASH_PERSONALIZATION :: "byte list" where
  "ZCASH_PREVOUTS_HASH_PERSONALIZATION = ascii ''ZcashPrevoutHash''"
definition ZCASH_SEQUENCE_HASH_PERSONALIZATION :: "byte list" where
  "ZCASH_SEQUENCE_HASH_PERSONALIZATION = ascii ''ZcashSequencHash''"
definition ZCASH_OUTPUTS_HASH_PERSONALIZATION :: "byte list" where
  "ZCASH_OUTPUTS_HASH_PERSONALIZATION = ascii ''ZcashOutputsHash''"
definition ZCASH_JOINSPLITS_HASH_PERSONALIZATION :: "byte list" where
  "ZCASH_JOINSPLITS_HASH_PERSONALIZATION = ascii ''ZcashJSplitsHash''"
definition ZCASH_SHIELDED_SPENDS_HASH_PERSONALIZATION :: "byte list" where
  "ZCASH_SHIELDED_SPENDS_HASH_PERSONALIZATION = ascii ''ZcashSSpendsHash''"
definition ZCASH_SHIELDED_OUTPUTS_HASH_PERSONALIZATION :: "byte list" where
  "ZCASH_SHIELDED_OUTPUTS_HASH_PERSONALIZATION = ascii ''ZcashSOutputHash''"

definition GetPrevoutHash :: "blake2b \<Rightarrow> CTransaction \<Rightarrow> uint256" where
  "GetPrevoutHash B txTo = B ZCASH_PREVOUTS_HASH_PERSONALIZATION (concat (map (\<lambda>i. ser_COutPoint (prevout i)) (vin txTo)))"

definition GetSequenceHash :: "blake2b \<Rightarrow> CTransaction \<Rightarrow> uint256" where
  "GetSequenceHash B txTo = B ZCASH_SEQUENCE_HASH_PERSONALIZATION (concat (map (\<lambda>i. ser_writedata32 (nSequence i)) (vin txTo)))"

definition GetOutputsHash :: "blake2b \<Rightarrow> CTransaction \<Rightarrow> uint256" where
  "GetOutputsHash B txTo = B ZCASH_OUTPUTS_HASH_PERSONALIZATION (concat (map ser_CTxOut (vout txTo)))"

definition GetJoinSplitsHash :: "blake2b \<Rightarrow> CTransaction \<Rightarrow> uint256 result" where
  "GetJoinSplitsHash B txTo =
     (case ser_JoinSplits (GetHeader txTo) (vJoinSplit txTo) of
        Inl e \<Rightarrow> Inl e
      | Inr js \<Rightarrow> Inr (B ZCASH_JOINSPLITS_HASH_PERSONALIZATION (js @ joinSplitPubKey txTo)))"

definition GetShieldedSpendsHash :: "blake2b \<Rightarrow> CTransaction \<Rightarrow> uint256" where
  "GetShieldedSpendsHash B txTo =
     B ZCASH_SHIELDED_SPENDS_HASH_PERSONALIZATION
       (concat (map (\<lambda>d. sd_cv d @ sd_anchor d @ sd_nullifier d @ sd_rk d @ sd_zkproof d) (vShieldedSpend txTo)))"

definition GetShieldedOutputsHash :: "blake2b \<Rightarrow> CTransaction \<Rightarrow> uint256" where
  "GetShieldedOutputsHash B txTo =
     B ZCASH_SHIELDED_OUTPUTS_HASH_PERSONALIZATION (concat (map ser_OutputDescription (vShieldedOutput txTo)))"

record PrecomputedTransactionData =
  hashPrevouts :: uint256
  hashSequence :: uint256
  hashOutputs :: uint256
  hashJoinSplits :: uint256
  hashShieldedSpends :: uint256
  hashShieldedOutputs :: uint256

definition PrecomputedTransactionData_of :: "blake2b \<Rightarrow> CTransaction \<Rightarrow> PrecomputedTransactionData result" where
  "PrecomputedTransactionData_of B txTo =
     (case GetJoinSplitsHash B txTo of
        Inl e \<Rightarrow> Inl e
      | Inr js \<Rightarrow>
          Inr \<lparr>hashPrevouts = GetPrevoutHash B txTo, hashSequence = GetSequenceHash B txTo,
               hashOutputs = GetOutputsHash B txTo, hashJoinSplits = js,
               hashShieldedSpends = GetShieldedSpendsHash B txTo, hashShieldedOutputs = GetShieldedOutputsHash B txTo\<rparr>)"

section \<open>Signature hashes\<close>

datatype SigVersion = SIGVERSION_SPROUT | SIGVERSION_OVERWINTER | SIGVERSION_SAPLING

definition SignatureHashVersion :: "CTransaction \<Rightarrow> SigVersion" where
  "SignatureHashVersion txTo =
     (if fOverwintered txTo then
        (if nVersionGroupId txTo = SAPLING_VERSION_GROUP_ID then SIGVERSION_SAPLING else SIGVERSION_OVERWINTER)
      else SIGVERSION_SPROUT)"

definition null256 :: uint256 where "null256 = replicate 32 0"

text \<open>The six hashes that go into the preimage: null, cached or computed.\<close>

definition sighash_parts ::
  "blake2b \<Rightarrow> CTransaction \<Rightarrow> uint32_t \<Rightarrow> uint32_t \<Rightarrow> PrecomputedTransactionData option \<Rightarrow> PrecomputedTransactionData result" where
  "sighash_parts B txTo nIn nHashType cache =
     (let base = nHashType AND 0x1f; anyone = (nHashType AND 0x80 \<noteq> 0);
          prevouts = (if \<not> anyone then (case cache of Some c \<Rightarrow> hashPrevouts c | None \<Rightarrow> GetPrevoutHash B txTo) else null256);
          sequence = (if \<not> anyone \<and> base \<noteq> 3 \<and> base \<noteq> 2
                      then (case cache of Some c \<Rightarrow> hashSequence c | None \<Rightarrow> GetSequenceHash B txTo) else null256);
          outputs = (if base \<noteq> 3 \<and> base \<noteq> 2 then (case cache of Some c \<Rightarrow> hashOutputs c | None \<Rightarrow> GetOutputsHash B txTo)
                     else if base = 3 \<and> unat nIn < length (vout txTo)
                     then B ZCASH_OUTPUTS_HASH_PERSONALIZATION (ser_CTxOut (vout txTo ! unat nIn)) else null256);
          spends = (if vShieldedSpend txTo \<noteq> []
                    then (case cache of Some c \<Rightarrow> hashShieldedSpends c | None \<Rightarrow> GetShieldedSpendsHash B txTo) else null256);
          soutputs = (if vShieldedOutput txTo \<noteq> []
                      then (case cache of Some c \<Rightarrow> hashShieldedOutputs c | None \<Rightarrow> GetShieldedOutputsHash B txTo) else null256)
      in case (if vJoinSplit txTo \<noteq> []
               then (case cache of Some c \<Rightarrow> Inr (hashJoinSplits c) | None \<Rightarrow> GetJoinSplitsHash B txTo) else Inr null256) of
           Inl e \<Rightarrow> Inl e
         | Inr js \<Rightarrow>
             Inr \<lparr>hashPrevouts = prevouts, hashSequence = sequence, hashOutputs = outputs, hashJoinSplits = js,
                  hashShieldedSpends = spends, hashShieldedOutputs = soutputs\<rparr>)"

text \<open>What is written to the hash for a transaction of the Overwinter or Sapling format.\<close>

definition sighash_preimage ::
  "CTransaction \<Rightarrow> CScript \<Rightarrow> uint32_t \<Rightarrow> uint32_t \<Rightarrow> CAmount \<Rightarrow> PrecomputedTransactionData \<Rightarrow> byte list" where
  "sighash_preimage txTo scriptCode nIn nHashType amount p =
     (let sapling = (SignatureHashVersion txTo = SIGVERSION_SAPLING) in
      ser_writedata32 (GetHeader txTo) @ ser_writedata32 (nVersionGroupId txTo) @
      hashPrevouts p @ hashSequence p @ hashOutputs p @ hashJoinSplits p @
      (if sapling then hashShieldedSpends p @ hashShieldedOutputs p else []) @
      ser_writedata32 (nLockTime txTo) @ ser_writedata32 (nExpiryHeight txTo) @
      (if sapling then ser_int64 (valueBalance txTo) else []) @
      ser_writedata32 nHashType @
      (if nIn \<noteq> NOT_AN_INPUT then
         ser_COutPoint (prevout (vin txTo ! unat nIn)) @ ser_bytes scriptCode @ ser_int64 amount @
         ser_writedata32 (nSequence (vin txTo ! unat nIn))
       else []))"

text \<open>
  The \<open>logic_error\<close>s, which the callers catch, are the \<open>Inl\<close> values inside; a failure of the serializer is
  not caught by them.
\<close>

definition SignatureHash ::
  "blake2b \<Rightarrow> CScript \<Rightarrow> CTransaction \<Rightarrow> uint32_t \<Rightarrow> uint32_t \<Rightarrow> CAmount \<Rightarrow> uint32_t \<Rightarrow>
   PrecomputedTransactionData option \<Rightarrow> (string + uint256) result" where
  "SignatureHash B scriptCode txTo nIn nHashType amount consensusBranchId cache =
     (if unat nIn \<ge> length (vin txTo) \<and> nIn \<noteq> NOT_AN_INPUT then Inr (Inl ''input index is out of range'')
      else if SignatureHashVersion txTo = SIGVERSION_OVERWINTER \<or> SignatureHashVersion txTo = SIGVERSION_SAPLING then
        (case sighash_parts B txTo nIn nHashType cache of
           Inl e \<Rightarrow> Inl e
         | Inr p \<Rightarrow>
             Inr (Inr (B (ascii ''ZcashSigHash'' @ le_bytes 4 (unat consensusBranchId))
                         (sighash_preimage txTo scriptCode nIn nHashType amount p))))
      else if nHashType AND 0x1f = 3 \<and> unat nIn \<ge> length (vout txTo)
        then Inr (Inl ''no matching output for SIGHASH_SINGLE'')
      else case SignatureSerializer_Serialize (SignatureSerializer txTo scriptCode nIn nHashType) of
        Inl e \<Rightarrow> Inl e
      | Inr bytes \<Rightarrow> Inr (Inr (SerializeHash [bytes, ser_writedata32 nHashType])))"

section \<open>The transaction signature checker\<close>

definition TransactionSignatureChecker_CheckSig ::
  "blake2b \<Rightarrow> ('k, 's) secp256k1 \<Rightarrow> CTransaction \<Rightarrow> uint32_t \<Rightarrow> CAmount \<Rightarrow> PrecomputedTransactionData option \<Rightarrow>
   valtype \<Rightarrow> valtype \<Rightarrow> CScript \<Rightarrow> uint32_t \<Rightarrow> bool result" where
  "TransactionSignatureChecker_CheckSig B ec txTo nIn amount txdata vchSigIn vchPubKey scriptCode consensusBranchId =
     (let pubkey = CPubKey_Set vchPubKey in
      if \<not> CPubKey_IsValid pubkey then Inr False
      else if vchSigIn = [] then Inr False
      else let nHashType = ucast (last vchSigIn); vchSig = butlast vchSigIn
           in case SignatureHash B scriptCode txTo nIn nHashType amount consensusBranchId txdata of
                Inl e \<Rightarrow> Inl e
              | Inr (Inl _) \<Rightarrow> Inr False
              | Inr (Inr sighash) \<Rightarrow> Inr (CPubKey_Verify ec pubkey sighash vchSig))"

definition TransactionSignatureChecker_CheckLockTime :: "CTransaction \<Rightarrow> uint32_t \<Rightarrow> CScriptNum \<Rightarrow> bool" where
  "TransactionSignatureChecker_CheckLockTime txTo nIn n =
     (let T = uint LOCKTIME_THRESHOLD; L = uint (nLockTime txTo) in
      if \<not> ((L < T \<and> n < T) \<or> (L \<ge> T \<and> n \<ge> T)) then False
      else if n > L then False
      else if CTxIn_IsFinal (vin txTo ! unat nIn) then False
      else True)"

definition TransactionSignatureChecker ::
  "blake2b \<Rightarrow> ('k, 's) secp256k1 \<Rightarrow> CTransaction \<Rightarrow> uint32_t \<Rightarrow> CAmount \<Rightarrow> PrecomputedTransactionData option \<Rightarrow>
   BaseSignatureChecker" where
  "TransactionSignatureChecker B ec txTo nIn amount txdata =
     \<lparr>ck_CheckSig = TransactionSignatureChecker_CheckSig B ec txTo nIn amount txdata,
      ck_CheckLockTime = TransactionSignatureChecker_CheckLockTime txTo nIn\<rparr>"

section \<open>Properties of signature hashes\<close>

text \<open>
  C30. Passing the precomputed hashes of a transaction to \<open>SignatureHash\<close> gives the hash, or the error, it
  computes without them, for every input, hash type, amount and consensus branch.
\<close>

theorem sighash_cache_equivalent:
  assumes "PrecomputedTransactionData_of B txTo = Inr d"
  shows "SignatureHash B scriptCode txTo nIn nHashType amount branch (Some d) =
    SignatureHash B scriptCode txTo nIn nHashType amount branch None"
proof -
  have "sighash_parts B txTo nIn nHashType (Some d) = sighash_parts B txTo nIn nHashType None"
    using assms by (auto simp: PrecomputedTransactionData_of_def sighash_parts_def Let_def split: sum.splits)
  then show ?thesis by (simp add: SignatureHash_def)
qed

definition ex_overwinter_tx :: CTransaction where
  "ex_overwinter_tx = CTransaction_copy (CMutableTransaction_default\<lparr>fOverwintered := True, tx_nVersion := 3,
     nVersionGroupId := OVERWINTER_VERSION_GROUP_ID,
     vin := [\<lparr>prevout = \<lparr>op_hash = replicate 32 1, op_n = 0\<rparr>, scriptSig = [], nSequence = 0\<rparr>]\<rparr>)"

theorem sighash_cache_equivalent_witness:
  "\<exists>d. PrecomputedTransactionData_of (\<lambda>p m. replicate 32 7) ex_overwinter_tx = Inr d \<and>
     SignatureHash (\<lambda>p m. replicate 32 7) [] ex_overwinter_tx 0 1 5 9 (Some d) =
     SignatureHash (\<lambda>p m. replicate 32 7) [] ex_overwinter_tx 0 1 5 9 None"
proof -
  have "vJoinSplit ex_overwinter_tx = []"
    by (simp add: ex_overwinter_tx_def CTransaction_copy_def CTransaction_members_def UpdateHash_def CMutableTransaction_default_def)
  then obtain d where "PrecomputedTransactionData_of (\<lambda>p m. replicate 32 7) ex_overwinter_tx = Inr d"
    by (simp add: PrecomputedTransactionData_of_def GetJoinSplitsHash_def)
  then show ?thesis using sighash_cache_equivalent by blast
qed

text \<open>The parts are 32 bytes each.\<close>

definition ok_parts :: "PrecomputedTransactionData \<Rightarrow> bool" where
  "ok_parts p \<longleftrightarrow> length (hashPrevouts p) = 32 \<and> length (hashSequence p) = 32 \<and> length (hashOutputs p) = 32 \<and>
     length (hashJoinSplits p) = 32 \<and> length (hashShieldedSpends p) = 32 \<and> length (hashShieldedOutputs p) = 32"

lemma ser_inj:
  "ser_writedata32 a = ser_writedata32 b \<longleftrightarrow> a = b"
  "- (2 ^ 63) \<le> x \<Longrightarrow> x < 2 ^ 63 \<Longrightarrow> - (2 ^ 63) \<le> y \<Longrightarrow> y < 2 ^ 63 \<Longrightarrow> ser_int64 x = ser_int64 y \<longleftrightarrow> x = y"
  "ok_COutPoint p \<Longrightarrow> ok_COutPoint q \<Longrightarrow> ser_COutPoint p = ser_COutPoint q \<longleftrightarrow> p = q"
  using u32.prefix_free [of a "[]" b "[]"] i64.prefix_free [of x y "[]" "[]"] outpoint.prefix_free [of p q "[]" "[]"] by auto

lemma ser_len: "length (ser_writedata32 a) = 4" "length (ser_int64 x) = 8" "ok_COutPoint p \<Longrightarrow> length (ser_COutPoint p) = 36"
  by (simp_all add: ser_writedata32_def ser_int64_def ser_writedata64_def ser_COutPoint_def ok_COutPoint_def)

text \<open>Two preimages for transparent inputs are equal only when everything in them is.\<close>

lemma sapling_preimage_binding:
  assumes "SignatureHashVersion tx = SIGVERSION_SAPLING" "SignatureHashVersion tx' = SIGVERSION_SAPLING"
    and "ok_parts p" "ok_parts p'" "nIn \<noteq> NOT_AN_INPUT" "nIn' \<noteq> NOT_AN_INPUT"
    and "ok_amount a" "ok_amount a'" "ok_amount (valueBalance tx)" "ok_amount (valueBalance tx')"
    and "ok_COutPoint (prevout (vin tx ! unat nIn))" "ok_COutPoint (prevout (vin tx' ! unat nIn'))"
    and "fits s" "fits s'"
    and eq: "sighash_preimage tx s nIn ht a p = sighash_preimage tx' s' nIn' ht' a' p'"
  shows "GetHeader tx = GetHeader tx' \<and> nVersionGroupId tx = nVersionGroupId tx' \<and> p = p' \<and>
    nLockTime tx = nLockTime tx' \<and> nExpiryHeight tx = nExpiryHeight tx' \<and> valueBalance tx = valueBalance tx' \<and> ht = ht' \<and>
    prevout (vin tx ! unat nIn) = prevout (vin tx' ! unat nIn') \<and> s = s' \<and> a = a' \<and>
    nSequence (vin tx ! unat nIn) = nSequence (vin tx' ! unat nIn')"
proof -
  let ?in = "vin tx ! unat nIn" and ?in' = "vin tx' ! unat nIn'"
  have head: "ser_writedata32 (GetHeader tx) = ser_writedata32 (GetHeader tx')"
    "ser_writedata32 (nVersionGroupId tx) = ser_writedata32 (nVersionGroupId tx')" "p = p'"
    "ser_writedata32 (nLockTime tx) = ser_writedata32 (nLockTime tx')"
    "ser_writedata32 (nExpiryHeight tx) = ser_writedata32 (nExpiryHeight tx')"
    "ser_int64 (valueBalance tx) = ser_int64 (valueBalance tx')" "ser_writedata32 ht = ser_writedata32 ht'"
    "ser_COutPoint (prevout ?in) = ser_COutPoint (prevout ?in')"
    and tail: "ser_bytes s @ ser_int64 a @ ser_writedata32 (nSequence ?in) = ser_bytes s' @ ser_int64 a' @ ser_writedata32 (nSequence ?in')"
    using eq assms(1-12)
    by (simp_all add: sighash_preimage_def Let_def ok_parts_def ser_len append_eq_append_conv)
  have "s = s'" "ser_int64 a @ ser_writedata32 (nSequence ?in) = ser_int64 a' @ ser_writedata32 (nSequence ?in')"
    using bytes.prefix_free [OF assms(13,14) tail] by simp_all
  then have "ser_int64 a = ser_int64 a'" "ser_writedata32 (nSequence ?in) = ser_writedata32 (nSequence ?in')"
    by (simp_all add: append_eq_append_conv ser_len)
  then show ?thesis using head \<open>s = s'\<close> assms(7-12) by (simp add: ser_inj ok_amount_def)
qed

text \<open>A sequence of serialized values without a count determines them, when none of them is empty.\<close>

context codec
begin

lemma concat_inj:
  assumes ne: "\<And>x. ok x \<Longrightarrow> ser x \<noteq> []"
  shows "\<forall>x \<in> set xs. ok x \<Longrightarrow> \<forall>y \<in> set ys. ok y \<Longrightarrow> concat (map ser xs) = concat (map ser ys) \<Longrightarrow> xs = ys"
proof (induction xs arbitrary: ys)
  case Nil
  then show ?case using ne by (cases ys) auto
next
  case (Cons x xs)
  from Cons.prems obtain y zs where [simp]: "ys = y # zs" using ne by (cases ys) auto
  have "x = y \<and> concat (map ser xs) = concat (map ser zs)"
    using Cons.prems by (intro prefix_free) auto
  then show ?case using Cons.IH [of zs] Cons.prems by simp
qed

end

lemma concat_outpoints_inj:
  assumes "\<forall>i \<in> set xs. ok_COutPoint (prevout i)" "\<forall>i \<in> set ys. ok_COutPoint (prevout i)"
    and "concat (map (\<lambda>i. ser_COutPoint (prevout i)) xs) = concat (map (\<lambda>i. ser_COutPoint (prevout i)) ys)"
  shows "map prevout xs = map prevout ys"
proof (rule outpoint.concat_inj)
  show "ser_COutPoint p \<noteq> []" if "ok_COutPoint p" for p using ser_len(3) [OF that] by auto
qed (use assms in \<open>auto simp: comp_def\<close>)

lemma concat_sequences_inj:
  assumes "concat (map (\<lambda>i. ser_writedata32 (nSequence i)) xs) = concat (map (\<lambda>i. ser_writedata32 (nSequence i)) ys)"
  shows "map nSequence xs = map nSequence ys"
proof (rule u32.concat_inj)
  show "ser_writedata32 n \<noteq> []" for n using ser_len(1) [of n] by auto
qed (use assms in \<open>auto simp: comp_def\<close>)

lemma concat_outs_inj:
  assumes "\<forall>x \<in> set xs. ok_CTxOut x" "\<forall>y \<in> set ys. ok_CTxOut y" "concat (map ser_CTxOut xs) = concat (map ser_CTxOut ys)"
  shows "xs = ys"
proof (rule txout.concat_inj)
  show "ser_CTxOut p \<noteq> []" if "ok_CTxOut p" for p 
    using ser_len(2) [of "nValue p"] by (cases "ser_int64 (nValue p)") (simp_all add: ser_CTxOut_def)
qed (use assms in auto)

text \<open>What \<open>SignatureHash\<close> hashes for a Sapling transaction when the whole transaction is signed, with the personalization.\<close>

definition sighash_messages ::
  "CTransaction \<Rightarrow> CScript \<Rightarrow> uint32_t \<Rightarrow> uint32_t \<Rightarrow> CAmount \<Rightarrow> uint32_t \<Rightarrow> PrecomputedTransactionData \<Rightarrow> (byte list \<times> byte list) set" where
  "sighash_messages tx s nIn ht a branch p =
     {(ZCASH_PREVOUTS_HASH_PERSONALIZATION, concat (map (\<lambda>i. ser_COutPoint (prevout i)) (vin tx))),
      (ZCASH_SEQUENCE_HASH_PERSONALIZATION, concat (map (\<lambda>i. ser_writedata32 (nSequence i)) (vin tx))),
      (ZCASH_OUTPUTS_HASH_PERSONALIZATION, concat (map ser_CTxOut (vout tx))),
      (ascii ''ZcashSigHash'' @ le_bytes 4 (unat branch), sighash_preimage tx s nIn ht a p)}"

definition signs_all :: "uint32_t \<Rightarrow> bool" where
  "signs_all ht \<longleftrightarrow> ht AND 0x80 = 0 \<and> ht AND 0x1f \<noteq> 2 \<and> ht AND 0x1f \<noteq> 3"

lemma sighash_parts_all:
  assumes "signs_all ht" "sighash_parts B tx nIn ht None = Inr p" "\<And>q m. length (B q m) = 32"
  shows "ok_parts p \<and> hashPrevouts p = GetPrevoutHash B tx \<and> hashSequence p = GetSequenceHash B tx \<and> hashOutputs p = GetOutputsHash B tx"
proof -
  have "length js = 32" if "GetJoinSplitsHash B tx = Inr js" for js
    using that assms(3) by (auto simp: GetJoinSplitsHash_def split: sum.splits)
  moreover have "length null256 = 32" by (simp add: null256_def)
  ultimately show ?thesis
    using assms by (auto simp: sighash_parts_def signs_all_def Let_def ok_parts_def GetPrevoutHash_def GetSequenceHash_def
        GetOutputsHash_def GetShieldedSpendsHash_def GetShieldedOutputsHash_def split: sum.splits if_splits)
qed

text \<open>The ranges of the fields of a transaction whose input is signed.\<close>

definition signable :: "CTransaction \<Rightarrow> uint32_t \<Rightarrow> CScript \<Rightarrow> CAmount \<Rightarrow> bool" where
  "signable tx nIn s a \<longleftrightarrow> SignatureHashVersion tx = SIGVERSION_SAPLING \<and> nIn \<noteq> NOT_AN_INPUT \<and> unat nIn < length (vin tx) \<and>
     fits s \<and> ok_amount a \<and> ok_amount (valueBalance tx) \<and>
     (\<forall>i \<in> set (vin tx). ok_COutPoint (prevout i)) \<and> (\<forall>x \<in> set (vout tx). ok_CTxOut x)"

lemma signableD:
  assumes "signable tx nIn s a"
  shows "SignatureHashVersion tx = SIGVERSION_SAPLING" "nIn \<noteq> NOT_AN_INPUT" "fits s" "ok_amount a" "ok_amount (valueBalance tx)"
    "ok_COutPoint (prevout (vin tx ! unat nIn))" "\<forall>i \<in> set (vin tx). ok_COutPoint (prevout i)" "\<forall>x \<in> set (vout tx). ok_CTxOut x"
  using assms by (simp_all add: signable_def)

lemma SignatureHash_sapling:
  assumes "signable tx nIn s a" "SignatureHash B s tx nIn ht a branch None = Inr (Inr h)"
  shows "\<exists>p. sighash_parts B tx nIn ht None = Inr p \<and>
    h = B (ascii ''ZcashSigHash'' @ le_bytes 4 (unat branch)) (sighash_preimage tx s nIn ht a p)"
  using assms by (auto simp: SignatureHash_def signable_def split: sum.splits)

text \<open>
  C29. A signature hash that signs everything commits to the transparent part of a Sapling transaction: two
  transactions with the same hash spend the same outputs with the same sequence numbers, have the same outputs,
  lock time, expiry height and value balance, and were signed for the same script, amount, hash type, branch and
  spent output, unless BLAKE2b collides on the messages hashed for the two.
\<close>

theorem sighash_all_binding:
  assumes "signable tx nIn s a" "signable tx' nIn' s' a'" "signs_all ht" "signs_all ht'"
    and len: "\<And>q m. length (B q m) = 32"
    and parts: "sighash_parts B tx nIn ht None = Inr p" "sighash_parts B tx' nIn' ht' None = Inr p'"
    and no_collision: "inj_on (\<lambda>(q, m). B q m) (sighash_messages tx s nIn ht a branch p \<union> sighash_messages tx' s' nIn' ht' a' branch' p')"
    and same: "SignatureHash B s tx nIn ht a branch None = Inr (Inr h)" "SignatureHash B s' tx' nIn' ht' a' branch' None = Inr (Inr h)"
  shows "map prevout (vin tx) = map prevout (vin tx') \<and> map nSequence (vin tx) = map nSequence (vin tx') \<and> vout tx = vout tx' \<and>
    nLockTime tx = nLockTime tx' \<and> nExpiryHeight tx = nExpiryHeight tx' \<and> valueBalance tx = valueBalance tx' \<and>
    prevout (vin tx ! unat nIn) = prevout (vin tx' ! unat nIn') \<and> s = s' \<and> a = a' \<and> ht = ht' \<and> branch = branch'"
proof -
  let ?M = "sighash_messages tx s nIn ht a branch p" and ?M' = "sighash_messages tx' s' nIn' ht' a' branch' p'"
  have inj: "q = q' \<and> m = m'" if "(q, m) \<in> ?M" "(q', m') \<in> ?M'" "B q m = B q' m'" for q m q' m'
    using inj_onD [OF no_collision, of "(q, m)" "(q', m')"] that by auto
  note sd = signableD [OF assms(1)] and sd' = signableD [OF assms(2)]
  have ok: "ok_parts p" "ok_parts p'" "hashPrevouts p = GetPrevoutHash B tx" "hashPrevouts p' = GetPrevoutHash B tx'"
    "hashSequence p = GetSequenceHash B tx" "hashSequence p' = GetSequenceHash B tx'"
    "hashOutputs p = GetOutputsHash B tx" "hashOutputs p' = GetOutputsHash B tx'"
    using sighash_parts_all [OF assms(3) parts(1) len] sighash_parts_all [OF assms(4) parts(2) len] by auto
  have "B (ascii ''ZcashSigHash'' @ le_bytes 4 (unat branch)) (sighash_preimage tx s nIn ht a p) =
      B (ascii ''ZcashSigHash'' @ le_bytes 4 (unat branch')) (sighash_preimage tx' s' nIn' ht' a' p')"
    using SignatureHash_sapling [OF assms(1) same(1)] SignatureHash_sapling [OF assms(2) same(2)] parts by auto
  from inj [OF _ _ this] have pre: "sighash_preimage tx s nIn ht a p = sighash_preimage tx' s' nIn' ht' a' p'"
    and br: "le_bytes 4 (unat branch) = le_bytes 4 (unat branch')"
    by (simp_all add: sighash_messages_def)
  have "branch = branch'" using br ser_inj(1) [of branch branch'] by (simp add: ser_writedata32_def)
  moreover have bind: "p = p' \<and> nLockTime tx = nLockTime tx' \<and> nExpiryHeight tx = nExpiryHeight tx' \<and> valueBalance tx = valueBalance tx' \<and>
      ht = ht' \<and> prevout (vin tx ! unat nIn) = prevout (vin tx' ! unat nIn') \<and> s = s' \<and> a = a'"
    using sapling_preimage_binding [OF sd(1) sd'(1) ok(1,2) sd(2) sd'(2) sd(4) sd'(4) sd(5) sd'(5) sd(6) sd'(6) sd(3) sd'(3) pre] by blast
  moreover have "map prevout (vin tx) = map prevout (vin tx')"
  proof (rule concat_outpoints_inj [OF sd(7) sd'(7)])
    have "GetPrevoutHash B tx = GetPrevoutHash B tx'" using ok(3,4) bind by metis
    then show "concat (map (\<lambda>i. ser_COutPoint (prevout i)) (vin tx)) = concat (map (\<lambda>i. ser_COutPoint (prevout i)) (vin tx'))"
      unfolding GetPrevoutHash_def by (rule inj [OF _ _, THEN conjunct2, rotated 2]) (simp_all add: sighash_messages_def)
  qed
  moreover have "map nSequence (vin tx) = map nSequence (vin tx')"
  proof (rule concat_sequences_inj)
    have "GetSequenceHash B tx = GetSequenceHash B tx'" using ok(5,6) bind by metis
    then show "concat (map (\<lambda>i. ser_writedata32 (nSequence i)) (vin tx)) = concat (map (\<lambda>i. ser_writedata32 (nSequence i)) (vin tx'))"
      unfolding GetSequenceHash_def by (rule inj [OF _ _, THEN conjunct2, rotated 2]) (simp_all add: sighash_messages_def)
  qed
  moreover have "vout tx = vout tx'"
  proof (rule concat_outs_inj [OF sd(8) sd'(8)])
    have "GetOutputsHash B tx = GetOutputsHash B tx'" using ok(7,8) bind by metis
    then show "concat (map ser_CTxOut (vout tx)) = concat (map ser_CTxOut (vout tx'))"
      unfolding GetOutputsHash_def by (rule inj [OF _ _, THEN conjunct2, rotated 2]) (simp_all add: sighash_messages_def)
  qed
  ultimately show ?thesis by simp
qed

definition ex_sapling_tx :: "CScript \<Rightarrow> CTransaction" where
  "ex_sapling_tx sig = CTransaction_copy (CMutableTransaction_default\<lparr>fOverwintered := True, tx_nVersion := 4,
     nVersionGroupId := SAPLING_VERSION_GROUP_ID,
     vin := [\<lparr>prevout = \<lparr>op_hash = replicate 32 1, op_n = 0\<rparr>, scriptSig = sig, nSequence = 0\<rparr>],
     vout := [\<lparr>nValue = 5, scriptPubKey = []\<rparr>]\<rparr>)"

text \<open>A stand-in for BLAKE2b that returns the personalization.\<close>

definition ex_blake2b :: blake2b where
  "ex_blake2b q m = take 32 (q @ replicate 32 0)"

lemma ex_sapling_tx_sel [simp]:
  "vin (ex_sapling_tx sig) = [\<lparr>prevout = \<lparr>op_hash = replicate 32 1, op_n = 0\<rparr>, scriptSig = sig, nSequence = 0\<rparr>]"
  "vout (ex_sapling_tx sig) = [\<lparr>nValue = 5, scriptPubKey = []\<rparr>]"
  "fOverwintered (ex_sapling_tx sig)" "nVersionGroupId (ex_sapling_tx sig) = SAPLING_VERSION_GROUP_ID"
  "vJoinSplit (ex_sapling_tx sig) = []" "valueBalance (ex_sapling_tx sig) = 0" "vShieldedSpend (ex_sapling_tx sig) = []" "vShieldedOutput (ex_sapling_tx sig) = []"
  by (simp_all add: ex_sapling_tx_def CTransaction_copy_def CTransaction_members_def UpdateHash_def CMutableTransaction_default_def)

lemma ex_signable: "signable (ex_sapling_tx sig) 0 [] 5"
  by (simp add: signable_def SignatureHashVersion_def NOT_AN_INPUT_def fits_def ok_amount_def ok_COutPoint_def ok_CTxOut_def MAX_SIZE_def)

lemma ex_blake2b_inj: "inj_on (\<lambda>(q, m). ex_blake2b q m) (sighash_messages (ex_sapling_tx sig) [] 0 1 5 9 p)"
  by (auto simp: inj_on_def sighash_messages_def ex_blake2b_def ascii_def ZCASH_PREVOUTS_HASH_PERSONALIZATION_def
      ZCASH_SEQUENCE_HASH_PERSONALIZATION_def ZCASH_OUTPUTS_HASH_PERSONALIZATION_def)

lemma ex_preimage: "sighash_preimage (ex_sapling_tx sig) s 0 ht a p = sighash_preimage (ex_sapling_tx []) s 0 ht a p"
  by (simp add: sighash_preimage_def SignatureHashVersion_def ex_sapling_tx_def CTransaction_copy_def CTransaction_members_def
      UpdateHash_def CMutableTransaction_default_def GetHeader_def)

lemma ex_parts: "sighash_parts ex_blake2b (ex_sapling_tx sig) 0 1 None = sighash_parts ex_blake2b (ex_sapling_tx []) 0 1 None"
  by (simp add: sighash_parts_def Let_def ex_blake2b_def GetPrevoutHash_def GetSequenceHash_def GetOutputsHash_def)

theorem sighash_all_binding_witness:
  "\<exists>h. SignatureHash ex_blake2b [] (ex_sapling_tx []) 0 1 5 9 None = Inr (Inr h) \<and>
     SignatureHash ex_blake2b [] (ex_sapling_tx [7]) 0 1 5 9 None = Inr (Inr h) \<and>
     map prevout (vin (ex_sapling_tx [])) = map prevout (vin (ex_sapling_tx [7])) \<and>
     nLockTime (ex_sapling_tx []) = nLockTime (ex_sapling_tx [7])"
proof -
  obtain p where p: "sighash_parts ex_blake2b (ex_sapling_tx []) 0 1 None = Inr p"
    by (auto simp: sighash_parts_def Let_def)
  have h: "SignatureHash ex_blake2b [] (ex_sapling_tx sig) 0 1 5 9 None = Inr (Inr (ascii ''ZcashSigHash'' @ le_bytes 4 9 @ replicate 16 0))" for sig
    by (simp add: SignatureHash_def SignatureHashVersion_def ex_parts [of sig] p ex_blake2b_def ascii_def)
  have same: "sighash_messages (ex_sapling_tx [7]) [] 0 1 5 9 p = sighash_messages (ex_sapling_tx []) [] 0 1 5 9 p"
    by (simp add: sighash_messages_def ex_preimage [of "[7]"])
  have a: "signs_all 1" by (simp add: signs_all_def)
  show ?thesis
    using sighash_all_binding [OF ex_signable ex_signable a a _ p p [folded ex_parts [of "[7]"]] _ h h] ex_blake2b_inj [of "[]" p] h
    by (auto simp: ex_blake2b_def same)
qed

lemma sighash_parts_returns: "GetJoinSplitsHash B tx = Inr js \<Longrightarrow> \<exists>p. sighash_parts B tx nIn ht None = Inr p"
  by (auto simp: sighash_parts_def Let_def split: sum.split)

lemma SignatureHash_returns:
  assumes "SignatureHashVersion tx \<noteq> SIGVERSION_SPROUT" "GetJoinSplitsHash B tx = Inr js"
  shows "\<exists>r. SignatureHash B s tx nIn ht a branch None = Inr r"
proof -
  obtain p where "sighash_parts B tx nIn ht None = Inr p" using sighash_parts_returns [OF assms(2)] by blast
  then show ?thesis using assms(1) by (cases "SignatureHashVersion tx") (simp_all add: SignatureHash_def)
qed

lemma transaction_checker_ok:
  assumes "SignatureHashVersion tx \<noteq> SIGVERSION_SPROUT" "GetJoinSplitsHash B tx = Inr js"
  shows "checker_ok (TransactionSignatureChecker B ec tx nIn a None)"
proof -
  have "TransactionSignatureChecker_CheckSig B ec tx nIn a None sig key s branch \<noteq> Inl (AssertFail m)" for sig key s branch m
    using SignatureHash_returns [OF assms, of s nIn "ucast (last sig)" a branch]
    by (auto simp: TransactionSignatureChecker_CheckSig_def Let_def split: sum.splits)
  then show ?thesis by (simp add: checker_ok_def TransactionSignatureChecker_def)
qed

lemma CheckSig_accepts:
  assumes "ValidSize pk" "sig \<noteq> []"
  shows "TransactionSignatureChecker_CheckSig B ec tx nIn a None sig pk s branch = Inr True \<longleftrightarrow>
    (\<exists>h. SignatureHash B s tx nIn (ucast (last sig)) a branch None = Inr (Inr h) \<and> CPubKey_Verify ec pk h (butlast sig))"
proof -
  have "CPubKey_Set pk = pk" "CPubKey_IsValid pk" using assms(1) by (auto simp: ValidSize_def CPubKey_Set_def CPubKey_IsValid_def)
  then show ?thesis using assms(2) by (auto simp: TransactionSignatureChecker_CheckSig_def Let_def split: sum.splits)
qed


definition ex_secp256k1 :: "(byte list, byte list) secp256k1" where
  "ex_secp256k1 = \<lparr>ec_pubkey_parse = Some, ec_pubkey_serialize = \<lambda>_ k. k, ec_pubkey_tweak_add = \<lambda>k _. Some k,
     ecdsa_signature_parse_der = Some, ecdsa_signature_normalize = \<lambda>s. (False, s), ecdsa_verify = \<lambda>s h k. length h = 32,
     ecdsa_recover = \<lambda>_ _ _. None\<rparr>"

lemma p2pkh_script_address: "length h = 20 \<Longrightarrow> IsPayToPublicKeyHash (p2pkh_script h) \<and> AddressHash (p2pkh_script h) = h"
proof
  assume "length h = 20"
  then show p: "IsPayToPublicKeyHash (p2pkh_script h)" by (simp add: IsPayToPublicKeyHash_def p2pkh_script_def nth_append)
  obtain h' where "length h' = 20" "p2pkh_script h = p2pkh_script h'" "AddressHash (p2pkh_script h) = h'" using p2pkh_split [OF p] .
  then show "AddressHash (p2pkh_script h) = h" by (simp add: p2pkh_script_def)
qed


end
