(* ===== verification/Compressor.thy ===== *)
theory Compressor
  imports SigHash
begin

text \<open>
  Compact serialization of outputs: \<^verbatim>\<open>src/compressor.h\<close> and \<^verbatim>\<open>src/compressor.cpp\<close>. The lemmas show which scripts and
  amounts survive it; compressed outputs meet the contract \<open>codec\<close>.
\<close>

unbundle bit_operations_syntax

section \<open>Scripts\<close>

definition nSpecialScripts :: uint32_t where "nSpecialScripts = 6"

definition IsToKeyID :: "CScript \<Rightarrow> byte list option" where
  "IsToKeyID script =
     (if length script = 25 \<and> script ! 0 = OP_DUP \<and> script ! 1 = OP_HASH160 \<and> script ! 2 = 20 \<and>
         script ! 23 = OP_EQUALVERIFY \<and> script ! 24 = OP_CHECKSIG
      then Some (take 20 (drop 3 script)) else None)"

definition IsToScriptID :: "CScript \<Rightarrow> byte list option" where
  "IsToScriptID script =
     (if length script = 23 \<and> script ! 0 = OP_HASH160 \<and> script ! 1 = 20 \<and> script ! 22 = OP_EQUAL
      then Some (take 20 (drop 2 script)) else None)"

definition IsToPubKey :: "('k, 's) secp256k1 \<Rightarrow> CScript \<Rightarrow> CPubKey option" where
  "IsToPubKey ec script =
     (if length script = 35 \<and> script ! 0 = 33 \<and> script ! 34 = OP_CHECKSIG \<and> (script ! 1 = 2 \<or> script ! 1 = 3)
      then Some (CPubKey_Set (take 33 (drop 1 script)))
      else if length script = 67 \<and> script ! 0 = 65 \<and> script ! 66 = OP_CHECKSIG \<and> script ! 1 = 4
      then (let pubkey = CPubKey_Set (take 65 (drop 1 script))
            in if CPubKey_IsFullyValid ec pubkey then Some pubkey else None)
      else None)"

definition CScriptCompressor_Compress :: "('k, 's) secp256k1 \<Rightarrow> CScript \<Rightarrow> byte list option" where
  "CScriptCompressor_Compress ec script =
     (case IsToKeyID script of
        Some keyID \<Rightarrow> Some (0 # keyID)
      | None \<Rightarrow> (case IsToScriptID script of
          Some scriptID \<Rightarrow> Some (1 # scriptID)
        | None \<Rightarrow> (case IsToPubKey ec script of
            Some pubkey \<Rightarrow>
              (if pubkey ! 0 = 2 \<or> pubkey ! 0 = 3 then Some (pubkey ! 0 # take 32 (drop 1 pubkey))
               else if pubkey ! 0 = 4 then Some ((4 OR (pubkey ! 64 AND 1)) # take 32 (drop 1 pubkey))
               else None)
          | None \<Rightarrow> None)))"

definition GetSpecialSize :: "uint32_t \<Rightarrow> nat" where
  "GetSpecialSize nSize =
     (if nSize = 0 \<or> nSize = 1 then 20
      else if nSize = 2 \<or> nSize = 3 \<or> nSize = 4 \<or> nSize = 5 then 32
      else 0)"

text \<open>The result tells whether the script was set; where it was not, the script is as before.\<close>

definition CScriptCompressor_Decompress ::
  "('k, 's) secp256k1 \<Rightarrow> uint32_t \<Rightarrow> byte list \<Rightarrow> CScript \<Rightarrow> (bool \<times> CScript) result" where
  "CScriptCompressor_Decompress ec nSize inp script =
     (if nSize = 0 then Inr (True, [OP_DUP, OP_HASH160, 20] @ take 20 inp @ [OP_EQUALVERIFY, OP_CHECKSIG])
      else if nSize = 1 then Inr (True, [OP_HASH160, 20] @ take 20 inp @ [OP_EQUAL])
      else if nSize = 2 \<or> nSize = 3 then Inr (True, [33, ucast nSize] @ take 32 inp @ [OP_CHECKSIG])
      else if nSize = 4 \<or> nSize = 5 then
        (case CPubKey_Decompress ec (CPubKey_Set (ucast (nSize - 2) # take 32 inp)) of
           None \<Rightarrow> Inr (False, script)
         | Some pubkey \<Rightarrow>
             (if length pubkey \<noteq> 65 then Inl (AssertFail ''pubkey.size() == 65'')
              else Inr (True, 65 # pubkey @ [OP_CHECKSIG])))
      else Inr (False, script))"

definition CScriptCompressor_Serialize :: "('k, 's) secp256k1 \<Rightarrow> CScript \<Rightarrow> byte list" where
  "CScriptCompressor_Serialize ec script =
     (case CScriptCompressor_Compress ec script of
        Some compr \<Rightarrow> compr
      | None \<Rightarrow> WriteVarInt (of_nat (length script) + nSpecialScripts) @ script)"

text \<open>\<open>ignore\<close> of a data stream, on the list of its unread bytes; the argument is an \<open>int\<close>.\<close>

definition ignore_bytes :: "uint32_t \<Rightarrow> unit reader" where
  "ignore_bytes nSize s =
     (if sint nSize < 0 then Inl (Throw ''CDataStream::ignore(): nSize negative'')
      else if length s < unat nSize then Inl (Throw ''CBaseDataStream::ignore(): end of data'')
      else Inr ((), drop (unat nSize) s))"

definition CScriptCompressor_Unserialize :: "('k, 's) secp256k1 \<Rightarrow> CScript \<Rightarrow> CScript reader" where
  "CScriptCompressor_Unserialize ec script =
     rbind ReadVarInt (\<lambda>nSize.
       if nSize < nSpecialScripts then
         rbind (read_bytes (GetSpecialSize nSize)) (\<lambda>vch s.
           case CScriptCompressor_Decompress ec nSize vch script of
             Inl e \<Rightarrow> Inl e
           | Inr (_, script') \<Rightarrow> Inr (script', s))
       else let nSize = nSize - nSpecialScripts in
         if unat nSize > MAX_SCRIPT_SIZE
         then rbind (ignore_bytes nSize) (\<lambda>_. rreturn (script @ [OP_RETURN]))
         else read_bytes (unat nSize))"

section \<open>Amounts and outputs\<close>

text \<open>The loop that divides by ten, with its counter \<open>e\<close>.\<close>

function strip_zeros :: "uint64_t \<Rightarrow> nat \<Rightarrow> uint64_t \<times> nat" where
  "strip_zeros n e = (if n mod 10 = 0 \<and> e < 9 then strip_zeros (n div 10) (Suc e) else (n, e))"
  by pat_completeness auto
termination
  by (relation "measure (\<lambda>(_, e). 9 - e)") auto

declare strip_zeros.simps [simp del]

definition CompressAmount :: "uint64_t \<Rightarrow> uint64_t result" where
  "CompressAmount n =
     (if n = 0 then Inr 0
      else let (n, e) = strip_zeros n 0
           in if e < 9 then
                let d = n mod 10; n' = n div 10
                in if \<not> (d \<ge> 1 \<and> d \<le> 9) then Inl (AssertFail ''d >= 1 && d <= 9'')
                   else Inr (1 + (n' * 9 + d - 1) * 10 + of_nat e)
              else Inr (1 + (n - 1) * 10 + 9))"

definition DecompressAmount :: "uint64_t \<Rightarrow> uint64_t" where
  "DecompressAmount x =
     (if x = 0 then 0
      else let x = x - 1; e = unat (x mod 10); x = x div 10;
               n = (if e < 9 then (x div 9) * 10 + (x mod 9 + 1) else x + 1)
           in n * 10 ^ e)"

definition CTxOutCompressor_Serialize :: "('k, 's) secp256k1 \<Rightarrow> CTxOut \<Rightarrow> byte list result" where
  "CTxOutCompressor_Serialize ec txout =
     (case CompressAmount (word_of_int (nValue txout)) of
        Inl e \<Rightarrow> Inl e
      | Inr nVal \<Rightarrow> Inr (WriteVarInt nVal @ CScriptCompressor_Serialize ec (scriptPubKey txout)))"

definition CTxOutCompressor_Unserialize :: "('k, 's) secp256k1 \<Rightarrow> CTxOut \<Rightarrow> CTxOut reader" where
  "CTxOutCompressor_Unserialize ec txout =
     rbind ReadVarInt (\<lambda>nVal.
     rbind (CScriptCompressor_Unserialize ec (scriptPubKey txout)) (\<lambda>script.
       rreturn (txout\<lparr>nValue := sint (DecompressAmount nVal), scriptPubKey := script\<rparr>)))"

section \<open>Properties\<close>

lemma unat_10: "unat (n mod 10) = unat n mod 10" "unat (n div 10) = unat n div 10" for n :: uint64_t
  by (simp_all add: unat_mod unat_div)

lemma mod_10_eq_0: "n mod 10 = 0 \<longleftrightarrow> unat n mod 10 = 0" for n :: uint64_t
  by (metis unat_10(1) unat_eq_0)

lemma strip_zeros_spec:
  assumes "strip_zeros n k = (m, e)" "k \<le> 9"
  shows "k \<le> e \<and> e \<le> 9 \<and> unat n = unat m * 10 ^ (e - k) \<and> (e < 9 \<longrightarrow> unat m mod 10 \<noteq> 0)"
  using assms
proof (induction n k rule: strip_zeros.induct)
  case (1 n k)
  show ?case
  proof (cases "n mod 10 = 0 \<and> k < 9")
    case True
    then have z: "unat n mod 10 = 0" by (simp add: mod_10_eq_0)
    have IH: "Suc k \<le> e \<and> e \<le> 9 \<and> unat (n div 10) = unat m * 10 ^ (e - Suc k) \<and> (e < 9 \<longrightarrow> unat m mod 10 \<noteq> 0)"
      using 1 True by (simp add: strip_zeros.simps [of n k])
    then have "unat n = unat m * 10 ^ Suc (e - Suc k)" using z by (auto simp: unat_10)
    then show ?thesis using IH by (simp add: Suc_diff_Suc)
  next
    case False
    then have "m = n" "e = k" using 1(2) by (auto simp: strip_zeros.simps [of n k])
    moreover have "unat n mod 10 \<noteq> 0" if "k < 9"
      using False that by (simp add: mod_10_eq_0)
    ultimately show ?thesis using 1(3) by simp
  qed
qed

lemma CompressAmount_value:
  assumes "n \<noteq> 0" "strip_zeros n 0 = (m, e)"
  shows "CompressAmount n = Inr (of_nat
    (if e < 9 then 1 + (unat m div 10 * 9 + unat m mod 10 - 1) * 10 + e else 1 + (unat m - 1) * 10 + 9))"
proof -
  note s = strip_zeros_spec [OF assms(2)]
  have m: "of_nat (unat m) = m" "of_nat (unat m div 10) = m div 10" "of_nat (unat m mod 10) = m mod 10" "unat (m mod 10) = unat m mod 10"
    by (simp_all add: unat_10 flip: unat_10)
  have pos: "unat m \<ge> 1" using assms(1) s by (cases "unat m") (auto simp: unat_eq_0)
  show ?thesis
  proof (cases "e < 9")
    case True
    then have d: "1 \<le> unat m mod 10" using s by auto
    have "m mod 10 \<ge> 1" "m mod 10 \<le> 9"
      using d mod_less_divisor [of 10 "unat m"] by (simp_all add: word_le_nat_alt m(4))
    then show ?thesis using True assms m d by (simp add: CompressAmount_def of_nat_diff)
  next
    case False
    then show ?thesis using assms m pos by (simp add: CompressAmount_def of_nat_diff)
  qed
qed

lemma DecompressAmount_value:
  assumes "x \<noteq> 0"
  defines "Y \<equiv> unat x - 1"
  shows "DecompressAmount x = of_nat
    ((if Y mod 10 < 9 then Y div 10 div 9 * 10 + (Y div 10 mod 9 + 1) else Y div 10 + 1) * 10 ^ (Y mod 10))"
proof -
  have "Y = unat (x - 1)" using unat_minus_one [OF assms(1)] by (simp add: Y_def)
  then have Y: "Y mod 10 = unat ((x - 1) mod 10)" "Y div 10 = unat ((x - 1) div 10)"
    "Y div 10 div 9 = unat ((x - 1) div 10 div 9)" "Y div 10 mod 9 = unat ((x - 1) div 10 mod 9)"
    by (simp_all add: unat_div unat_mod)
  show ?thesis
    unfolding DecompressAmount_def Let_def Y(1,3,4) unfolding Y(2) using assms(1) by (simp add: ac_simps)
qed

lemma split_digit: "x = k * b + e \<Longrightarrow> e < b \<Longrightarrow> x mod b = e \<and> x div b = k" for x k b e :: nat
  by simp

lemma CompressAmount_roundtrip:
  assumes "9 * unat n < 2 ^ 64"
  shows "\<exists>x. CompressAmount n = Inr x \<and> DecompressAmount x = n"
proof (cases "n = 0")
  case True
  then show ?thesis by (simp add: CompressAmount_def DecompressAmount_def)
next
  case False
  obtain m e where s: "strip_zeros n 0 = (m, e)" by (cases "strip_zeros n 0")
  note spec = strip_zeros_spec [OF s, simplified]
  define d q where "d = unat m mod 10" and "q = unat m div 10"
  define X where "X = (if e < 9 then 1 + (q * 9 + d - 1) * 10 + e else 1 + (unat m - 1) * 10 + 9)"
  have m: "unat m = 10 * q + d" "d < 10" by (simp_all add: d_def q_def)
  have pos: "unat m \<noteq> 0" using False spec by (cases "unat m = 0") (auto simp: unat_eq_0)
  have le: "unat m \<le> unat n" using spec by (cases "10 ^ e :: nat") auto
  have bounds: "0 < X" "X < 2 ^ 64"
  proof -
    show "0 < X" by (simp add: X_def)
    show "X < 2 ^ 64"
    proof (cases "e < 9")
      case True
      then have d1: "1 \<le> d" using spec by (simp add: d_def)
      have "X \<le> 9 * unat n"
      proof (cases e)
        case 0
        then show ?thesis using d1 m le True by (simp add: X_def)
      next
        case (Suc k)
        have "10 * unat m \<le> unat n" using spec Suc by (simp add: mult_le_mono)
        then show ?thesis using d1 m True pos by (simp add: X_def)
      qed
      then show ?thesis using assms by linarith
    next
      case False
      then have "unat n = unat m * 10 ^ 9" using spec by (simp add: le_antisym)
      then have "X \<le> 9 * unat n" using False pos by (simp add: X_def)
      then show ?thesis using assms by linarith
    qed
  qed
  define x :: uint64_t where "x = of_nat X"
  have ux: "unat x = X" using bounds(2) by (simp add: x_def unat_of_nat)
  then have "x \<noteq> 0" using bounds(1) by auto
  have "CompressAmount n = Inr x" using CompressAmount_value [OF False s] by (simp add: x_def X_def q_def d_def)
  moreover have "DecompressAmount x = of_nat (unat m * 10 ^ e)"
  proof (cases "e < 9")
    case True
    then have "1 \<le> d" using spec by (simp add: d_def)
    then obtain c where c: "d = Suc c" by (cases d) auto
    have "X - 1 = (q * 9 + c) * 10 + e" using True c by (simp add: X_def)
    then have "(X - 1) mod 10 = e \<and> (X - 1) div 10 = q * 9 + c" using True by (intro split_digit) simp_all
    moreover have "(q * 9 + c) mod 9 = c \<and> (q * 9 + c) div 9 = q" using m c by (intro split_digit) simp_all
    ultimately show ?thesis using DecompressAmount_value [OF \<open>x \<noteq> 0\<close>] True m c unfolding ux by (simp add: mult.commute [of 10])
  next
    case False
    then have "e = 9" using spec by simp
    have "X - 1 = (unat m - 1) * 10 + 9" using False by (simp add: X_def)
    then have "(X - 1) mod 10 = 9 \<and> (X - 1) div 10 = unat m - 1" by (intro split_digit) simp_all
    then show ?thesis using DecompressAmount_value [OF \<open>x \<noteq> 0\<close>] pos \<open>e = 9\<close> unfolding ux by simp
  qed
  moreover have "of_nat (unat m * 10 ^ e) = n" using spec by (metis of_nat_unat ucast_id)
  ultimately show ?thesis by auto
qed

text \<open>
  C31. Amounts below a ninth of \<open>2^64\<close> survive compression, and the assertion in it holds for every amount; but
  the range of valid amounts goes up to \<open>MAX_MONEY\<close>, and there the product of the last digits overflows: the
  valid amount \<open>MAX_MONEY - 1\<close> is stored as a different one.
\<close>

theorem amount_compression:
  "(\<forall>n. 9 * unat n < 2 ^ 64 \<longrightarrow> (\<exists>x. CompressAmount n = Inr x \<and> DecompressAmount x = n))
    \<and> (\<forall>n. \<exists>x. CompressAmount n = Inr x)
    \<and> MoneyRange (MAX_MONEY - 1)
    \<and> (\<exists>x. CompressAmount (word_of_int (MAX_MONEY - 1)) = Inr x \<and> DecompressAmount x \<noteq> word_of_int (MAX_MONEY - 1))"
proof (intro conjI allI impI)
  show "\<exists>x. CompressAmount n = Inr x \<and> DecompressAmount x = n" if "9 * unat n < 2 ^ 64" for n
    by (rule CompressAmount_roundtrip [OF that])
  show "\<exists>x. CompressAmount n = Inr x" for n
    using CompressAmount_value by (cases "n = 0", simp add: CompressAmount_def) (metis surj_pair)
  show "MoneyRange (MAX_MONEY - 1)" by (simp add: MoneyRange_def MAX_MONEY_def COIN_def)
  show "\<exists>x. CompressAmount (word_of_int (MAX_MONEY - 1)) = Inr x \<and> DecompressAmount x \<noteq> word_of_int (MAX_MONEY - 1)"
    by (simp add: CompressAmount_def strip_zeros.simps DecompressAmount_def MAX_MONEY_def COIN_def)
qed

theorem amount_compression_witness:
  "\<exists>x. CompressAmount 1250000000 = Inr x \<and> DecompressAmount x = 1250000000"
proof -
  have "9 * unat (1250000000 :: uint64_t) < 2 ^ 64" by simp
  then show ?thesis using amount_compression by blast
qed

text \<open>
  What the compression of a script relies on in the curve library: a point is determined by its first coordinate
  and the parity of the second, so that parsing these two and serializing the point in full gives back its bytes.
\<close>

definition point_by_parity :: "('k, 's) secp256k1 \<Rightarrow> bool" where
  "point_by_parity ec \<longleftrightarrow>
     (\<forall>x y p. length x = 32 \<and> length y = 32 \<and> ec_pubkey_parse ec (4 # x @ y) = Some p \<longrightarrow>
        (\<exists>p'. ec_pubkey_parse ec ((2 OR (last y AND 1)) # x) = Some p' \<and> ec_pubkey_serialize ec False p' = 4 # x @ y))"

lemma IsToKeyID_iff: "IsToKeyID s = (if IsPayToPublicKeyHash s then Some (AddressHash s) else None)"
  by (auto simp: IsToKeyID_def IsPayToPublicKeyHash_def AddressHash_def)

lemma IsToScriptID_Some: "IsToScriptID s = Some h \<Longrightarrow> length h = 20 \<and> s = OP_HASH160 # 20 # h @ [OP_EQUAL]"
proof -
  assume a: "IsToScriptID s = Some h"
  then have "IsPayToScriptHash s" and h: "h = take 20 (drop 2 s)" by (auto simp: IsToScriptID_def IsPayToScriptHash_def split: if_splits)
  from p2sh_split [OF this(1)] obtain h' where "length h' = 20" "s = OP_HASH160 # 20 # h' @ [OP_EQUAL]" .
  then show ?thesis using h by simp
qed

lemma split_ends: "length s = Suc (Suc n) \<Longrightarrow> s = s ! 0 # take n (drop 1 s) @ [s ! Suc n]"
proof -
  assume l: "length s = Suc (Suc n)"
  then obtain a t where s: "s = a # t" "length t = Suc n" by (cases s) auto
  then show ?thesis using append_last_nth [of t n] by simp
qed

lemma head_tail: "length s = Suc n \<Longrightarrow> \<exists>a t. s = a # t \<and> length t = n"
  by (cases s) auto

lemma IsToPubKey_Some:
  assumes "IsToPubKey ec s = Some k"
  obtains (compressed) b x where "length x = 32" "b = 2 \<or> b = 3" "k = b # x" "s = 33 # k @ [OP_CHECKSIG]"
  | (full) x y where "length x = 32" "length y = 32" "k = 4 # x @ y" "s = 65 # k @ [OP_CHECKSIG]" "ec_pubkey_parse ec k \<noteq> None"
proof (cases "length s = 35")
  case True
  then have c: "s ! 0 = 33" "s ! 34 = OP_CHECKSIG" "s ! 1 = 2 \<or> s ! 1 = 3" "k = CPubKey_Set (take 33 (drop 1 s))"
    using assms by (auto simp: IsToPubKey_def split: if_splits)
  have s: "s = 33 # take 33 (drop 1 s) @ [OP_CHECKSIG]" using split_ends [of s 33] True c by simp
  obtain b x where bx: "take 33 (drop 1 s) = b # x" "length x = 32" 
    using head_tail [of "take 33 (drop 1 s)" 32] True by auto
  have "b = s ! 1" using arg_cong [OF s, of "\<lambda>l. l ! 1"] bx(1) by simp
  then have "b = 2 \<or> b = 3" using c by simp
  moreover have "k = b # x"
    using bx(2) calculation unfolding c(4) [unfolded bx(1)] by (auto simp: CPubKey_Set_def GetLen_def COMPRESSED_PUBLIC_KEY_SIZE_def)
  ultimately show ?thesis using compressed [of x b] s bx by simp
next
  case False
  then have c: "length s = 67" "s ! 0 = 65" "s ! 66 = OP_CHECKSIG" "s ! 1 = 4" "k = CPubKey_Set (take 65 (drop 1 s))" "CPubKey_IsFullyValid ec k"
    using assms by (auto simp: IsToPubKey_def Let_def split: if_splits)
  have s: "s = 65 # take 65 (drop 1 s) @ [OP_CHECKSIG]" using split_ends [of s 65] c by simp
  obtain b xy where bx: "take 65 (drop 1 s) = b # xy" "length xy = 64" 
    using head_tail [of "take 65 (drop 1 s)" 64] c(1) by auto
  have "b = s ! 1" using arg_cong [OF s, of "\<lambda>l. l ! 1"] bx(1) by simp
  then have b: "b = 4" using c by simp
  then have k: "k = 4 # take 32 xy @ drop 32 xy" 
    using bx(2) unfolding c(5) [unfolded bx(1)] by (simp add: CPubKey_Set_def GetLen_def PUBLIC_KEY_SIZE_def)
  have "s = 65 # k @ [OP_CHECKSIG]" using s bx b k by simp
  moreover have "ec_pubkey_parse ec k \<noteq> None" using c(6) by (simp add: CPubKey_IsFullyValid_def)
  ultimately show ?thesis using full [of "take 32 xy" "drop 32 xy"] k bx by simp
qed

lemma read_tag: "t \<in> {0, 1, 2, 3, 4, 5} \<Longrightarrow> ReadVarInt (t # s) = Inr (ucast t :: uint32_t, s)"
  by (auto simp: ReadVarInt_def)

lemma bit_1_cases: "w AND 1 = 0 \<or> w AND 1 = 1" for w :: byte
  by (simp add: and_one_eq mod_2_eq_odd)

lemma unserialize_tag:
  assumes "t \<in> {0, 1, 2, 3, 4, 5}" "length v = GetSpecialSize (ucast t)" "CScriptCompressor_Decompress ec (ucast t) v script = Inr (b, script')"
  shows "CScriptCompressor_Unserialize ec script (t # v @ s) = Inr (script', s)"
proof -
  have "(ucast t :: uint32_t) < nSpecialScripts" using assms(1) by (auto simp: nSpecialScripts_def)
  then show ?thesis
    using assms by (simp add: CScriptCompressor_Unserialize_def rbind_def read_tag blob.roundtrip)
qed

lemma compressed_key_roundtrip:
  assumes "point_by_parity ec" "IsToPubKey ec script = Some k" "IsToKeyID script = None" "IsToScriptID script = None"
  shows "CScriptCompressor_Unserialize ec [] (CScriptCompressor_Serialize ec script @ s) = Inr (script, s)"
  using assms(2)
proof (cases rule: IsToPubKey_Some)
  case (compressed b x)
  then have "CScriptCompressor_Serialize ec script = b # x"
    using assms by (auto simp: CScriptCompressor_Serialize_def CScriptCompressor_Compress_def)
  then show ?thesis using compressed by (auto intro!: unserialize_tag simp: GetSpecialSize_def CScriptCompressor_Decompress_def)
next
  case (full x y)
  let ?t = "4 OR (last y AND 1) :: byte" and ?u = "2 OR (last y AND 1) :: byte"
  have y: "(4 # x @ y) ! 64 = last y" using full(1,2) last_conv_nth [of y] by (cases "y = []") (simp_all add: nth_append)
  have "CScriptCompressor_Serialize ec script = ?t # x"
    using assms full y by (simp add: CScriptCompressor_Serialize_def CScriptCompressor_Compress_def)
  moreover obtain p' where p: "ec_pubkey_parse ec (?u # x) = Some p'" "ec_pubkey_serialize ec False p' = 4 # x @ y"
    using assms(1) full unfolding point_by_parity_def by (metis not_Some_eq)
  have u: "ucast (ucast ?t - 2 :: uint32_t) = ?u" "?t \<in> {4, 5}" "?u \<in> {2, 3}" using bit_1_cases [of "last y"] by auto
  have set: "CPubKey_Set (?u # x) = ?u # x" "CPubKey_Set (4 # x @ y) = 4 # x @ y"
    using u full by (auto simp: CPubKey_Set_def GetLen_def COMPRESSED_PUBLIC_KEY_SIZE_def PUBLIC_KEY_SIZE_def)
  have "CPubKey_Decompress ec (CPubKey_Set (?u # x)) = Some (4 # x @ y)"
    using p set by (simp add: CPubKey_Decompress_def CPubKey_IsValid_def)
  then have "CScriptCompressor_Decompress ec (ucast ?t) x [] = Inr (True, script)"
    using u full unfolding CScriptCompressor_Decompress_def u(1) by auto
  then have "CScriptCompressor_Unserialize ec [] (?t # x @ s) = Inr (script, s)"
    using u(2) full by (intro unserialize_tag) (auto simp: GetSpecialSize_def)
  ultimately show ?thesis by simp
qed

lemma special_roundtrip:
  assumes "point_by_parity ec" "CScriptCompressor_Compress ec script = Some c"
  shows "CScriptCompressor_Unserialize ec [] (CScriptCompressor_Serialize ec script @ s) = Inr (script, s)"
proof (cases "IsToKeyID script")
  case (Some h)
  then have p: "IsPayToPublicKeyHash script" by (simp add: IsToKeyID_iff split: if_splits)
  from p2pkh_split [OF p] obtain h' where h': "length h' = 20" "script = p2pkh_script h'" "AddressHash script = h'" .
  then have "CScriptCompressor_Serialize ec script = 0 # h'"
    using p by (simp add: CScriptCompressor_Serialize_def CScriptCompressor_Compress_def IsToKeyID_iff)
  then show ?thesis
    using h' by (auto intro!: unserialize_tag simp: GetSpecialSize_def CScriptCompressor_Decompress_def p2pkh_script_def)
next
  case None
  show ?thesis
  proof (cases "IsToScriptID script")
    case (Some h)
    then have "CScriptCompressor_Serialize ec script = 1 # h"
      using None by (simp add: CScriptCompressor_Serialize_def CScriptCompressor_Compress_def)
    then show ?thesis
      using IsToScriptID_Some [OF Some] by (auto intro!: unserialize_tag simp: GetSpecialSize_def CScriptCompressor_Decompress_def)
  next
    case no: None
    then obtain k where "IsToPubKey ec script = Some k"
      using assms(2) None by (auto simp: CScriptCompressor_Compress_def split: option.splits)
    then show ?thesis using compressed_key_roundtrip [OF assms(1)] None no by blast
  qed
qed

lemma unat32_of_nat: "m < 2 ^ 32 \<Longrightarrow> unat (of_nat m :: uint32_t) = m"
  by (simp add: unat_of_nat)

lemma plain_size:
  assumes "length script < 2 ^ 31"
  shows "unat (of_nat (length script) + nSpecialScripts) = length script + 6"
    "\<not> of_nat (length script) + nSpecialScripts < nSpecialScripts"
    "unat ((of_nat (length script) + nSpecialScripts) - nSpecialScripts) = length script"
proof -
  have "(of_nat (length script) + nSpecialScripts :: uint32_t) = of_nat (length script + 6)" by (simp add: nSpecialScripts_def)
  moreover have "unat (of_nat (length script + 6) :: uint32_t) = length script + 6"
    by (rule unat32_of_nat) (use assms in simp)
  ultimately show u: "unat (of_nat (length script) + nSpecialScripts) = length script + 6" by metis
  show "\<not> of_nat (length script) + nSpecialScripts < nSpecialScripts" by (simp add: word_less_nat_alt u) (simp add: nSpecialScripts_def)
  show "unat ((of_nat (length script) + nSpecialScripts) - nSpecialScripts) = length script"
    using assms by (simp add: unat_of_nat)
qed

lemma script_roundtrip:
  assumes "point_by_parity ec" "length script \<le> MAX_SCRIPT_SIZE"
  shows "CScriptCompressor_Unserialize ec [] (CScriptCompressor_Serialize ec script @ s) = Inr (script, s)"
proof (cases "CScriptCompressor_Compress ec script")
  case None
  have "length script < 2 ^ 31" using assms(2) by (simp add: MAX_SCRIPT_SIZE_def)
  note size = plain_size [OF this]
  then show ?thesis
    using None assms(2) blob.roundtrip [of script "length script"]
    by (simp add: CScriptCompressor_Serialize_def CScriptCompressor_Unserialize_def varint32.roundtrip Let_def rbind_def)
qed (rule special_roundtrip [OF assms(1)])

text \<open>
  C32. A script of at most 10000 bytes that is written in compressed form is read back, whatever its form, and the
  rest of the stream is left; a longer one is replaced by one that cannot be spent.
\<close>

theorem script_compression:
  assumes "point_by_parity ec" "length script < 2 ^ 31"
  shows "CScriptCompressor_Unserialize ec [] (CScriptCompressor_Serialize ec script @ s) =
      Inr (if length script \<le> MAX_SCRIPT_SIZE then script else [OP_RETURN], s)
    \<and> IsUnspendable [OP_RETURN]"
proof (cases "length script \<le> MAX_SCRIPT_SIZE")
  case True
  then show ?thesis using script_roundtrip [OF assms(1)] by (simp add: IsUnspendable_def)
next
  case False
  then have "CScriptCompressor_Compress ec script = None"
    by (auto simp: MAX_SCRIPT_SIZE_def CScriptCompressor_Compress_def IsToKeyID_def IsToScriptID_def IsToPubKey_def Let_def)
  moreover have "sint (of_nat (length script) :: uint32_t) = int (length script)"
    using assms(2) by (simp add: signed_of_nat signed_take_bit_int_eq_self)
  then have "ignore_bytes (of_nat (length script)) (script @ s) = Inr ((), s)"
    using assms(2) by (simp add: ignore_bytes_def unat_of_nat)
  ultimately show ?thesis
    using False plain_size [OF assms(2)]
    by (simp add: CScriptCompressor_Serialize_def CScriptCompressor_Unserialize_def varint32.roundtrip Let_def rbind_def rreturn_def IsUnspendable_def)
qed

text \<open>A curve library of two coordinates in which the second is determined by its parity.\<close>

definition parity_secp256k1 :: "(byte list \<times> byte, unit) secp256k1" where
  "parity_secp256k1 = \<lparr>ec_pubkey_parse = (\<lambda>k.
       if length k = 33 \<and> (k ! 0 = 2 \<or> k ! 0 = 3) then Some (drop 1 k, k ! 0 AND 1)
       else if length k = 65 \<and> k ! 0 = 4 \<and> drop 33 k = replicate 31 0 @ [k ! 64 AND 1] then Some (take 32 (drop 1 k), k ! 64 AND 1)
       else None),
     ec_pubkey_serialize = (\<lambda>_ (x, b). 4 # x @ replicate 31 0 @ [b]), ec_pubkey_tweak_add = \<lambda>_ _. None,
     ecdsa_signature_parse_der = \<lambda>_. None, ecdsa_signature_normalize = \<lambda>s. (False, s), ecdsa_verify = \<lambda>_ _ _. False,
     ecdsa_recover = \<lambda>_ _ _. None\<rparr>"

lemma parity_point: "point_by_parity parity_secp256k1"
  unfolding point_by_parity_def
proof (intro allI impI, elim conjE)
  fix x y :: "byte list" and p
  assume len: "length x = 32" "length y = 32" and "ec_pubkey_parse parity_secp256k1 (4 # x @ y) = Some p"
  then have y: "y = replicate 31 0 @ [last y AND 1]"
    using last_conv_nth [of y] by (cases "y = []") (simp_all add: parity_secp256k1_def nth_append split: if_splits)
  have u: "2 OR (last y AND 1) = 2 \<and> last y AND 1 = 0 \<or> 2 OR (last y AND 1) = 3 \<and> last y AND 1 = 1"
    using bit_1_cases [of "last y"] by auto
  then show "\<exists>p'. ec_pubkey_parse parity_secp256k1 ((2 OR (last y AND 1)) # x) = Some p' \<and>
      ec_pubkey_serialize parity_secp256k1 False p' = 4 # x @ y"
    using len y by (auto simp: parity_secp256k1_def)
qed

theorem script_compression_witness:
  "CScriptCompressor_Unserialize parity_secp256k1 []
     (CScriptCompressor_Serialize parity_secp256k1 (65 # 4 # replicate 32 7 @ replicate 31 0 @ [1, OP_CHECKSIG]) @ [9]) =
   Inr (65 # 4 # replicate 32 7 @ replicate 31 0 @ [1, OP_CHECKSIG], [9])
   \<and> length (CScriptCompressor_Serialize parity_secp256k1 (65 # 4 # replicate 32 7 @ replicate 31 0 @ [1, OP_CHECKSIG])) = 33"
proof
  let ?s = "65 # 4 # replicate 32 7 @ replicate 31 0 @ [1, OP_CHECKSIG]"
  show "CScriptCompressor_Unserialize parity_secp256k1 [] (CScriptCompressor_Serialize parity_secp256k1 ?s @ [9]) = Inr (?s, [9])"
    using script_compression [OF parity_point, of ?s "[9]"] by (simp add: MAX_SCRIPT_SIZE_def)
  show "length (CScriptCompressor_Serialize parity_secp256k1 ?s) = 33"
    by (simp add: CScriptCompressor_Serialize_def CScriptCompressor_Compress_def IsToKeyID_def IsToScriptID_def IsToPubKey_def
        CPubKey_Set_def GetLen_def PUBLIC_KEY_SIZE_def CPubKey_IsFullyValid_def CPubKey_IsValid_def parity_secp256k1_def nth_append)
qed

section \<open>Compressed outputs meet the contract\<close>

definition ok_compressed :: "('k, 's) secp256k1 \<Rightarrow> CTxOut \<Rightarrow> bool" where
  "ok_compressed ec txout \<longleftrightarrow> point_by_parity ec \<and> 0 \<le> nValue txout \<and> 9 * nValue txout < 2 ^ 64 \<and> length (scriptPubKey txout) \<le> MAX_SCRIPT_SIZE"

definition compressed_bytes :: "('k, 's) secp256k1 \<Rightarrow> CTxOut \<Rightarrow> byte list" where
  "compressed_bytes ec txout = (case CTxOutCompressor_Serialize ec txout of Inl _ \<Rightarrow> [] | Inr b \<Rightarrow> b)"

interpretation compressed: codec "compressed_bytes ec" "CTxOutCompressor_Unserialize ec CTxOut_null" "ok_compressed ec" for ec
proof
  fix x s
  assume ok: "ok_compressed ec x"
  let ?n = "word_of_int (nValue x) :: uint64_t"
  have v: "0 \<le> nValue x" "nValue x < 2 ^ 63" using ok by (auto simp: ok_compressed_def)
  then have u: "unat ?n = nat (nValue x)" by (simp add: unsigned_of_int take_bit_int_eq_self unat_eq_nat_uint)
  then have "9 * unat ?n < 2 ^ 64" using ok v(1) unfolding u ok_compressed_def by (auto simp: nat_less_iff zless_nat_eq_int_zless)
  then obtain c where c: "CompressAmount ?n = Inr c" "DecompressAmount c = ?n" using CompressAmount_roundtrip by blast
  have "sint ?n = nValue x" using v by (simp add: signed_of_int signed_take_bit_int_eq_self)
  then show "CTxOutCompressor_Unserialize ec CTxOut_null (compressed_bytes ec x @ s) = Inr (x, s)"
    using c ok script_roundtrip [of ec "scriptPubKey x"]
    by (simp add: CTxOutCompressor_Unserialize_def compressed_bytes_def CTxOutCompressor_Serialize_def varint64.roundtrip rbind_def
        rreturn_def ok_compressed_def CTxOut_null_def)
qed

end
