(* ===== verification/Coins.thy ===== *)
theory Coins
  imports Compressor
begin

text \<open>
  Coins, the unspent outputs of a transaction (\<open>CCoins\<close> in \<^verbatim>\<open>src/coins.h\<close> and \<^verbatim>\<open>src/coins.cpp\<close>), and the undo data
  of an input (\<^verbatim>\<open>src/undo.h\<close>), with their serialization.
\<close>

unbundle bit_operations_syntax

section \<open>Unspent outputs of a transaction\<close>

record CCoins =
  cc_fCoinBase :: bool
  cc_vout :: "CTxOut list"
  cc_nHeight :: int
  cc_nVersion :: int

definition CCoins_Clear :: CCoins where
  "CCoins_Clear = \<lparr>cc_fCoinBase = False, cc_vout = [], cc_nHeight = 0, cc_nVersion = 0\<rparr>"

definition CCoins_Cleanup :: "CCoins \<Rightarrow> CCoins" where
  "CCoins_Cleanup c = c\<lparr>cc_vout := rev (dropWhile CTxOut_IsNull (rev (cc_vout c)))\<rparr>"

definition ClearUnspendable :: "CCoins \<Rightarrow> CCoins" where
  "ClearUnspendable c =
     CCoins_Cleanup (c\<lparr>cc_vout := map (\<lambda>txout. if IsUnspendable (scriptPubKey txout) then CTxOut_null else txout) (cc_vout c)\<rparr>)"

definition FromTx :: "CTransaction \<Rightarrow> int \<Rightarrow> CCoins" where
  "FromTx tx nHeightIn =
     ClearUnspendable \<lparr>cc_fCoinBase = IsCoinBase tx, cc_vout = vout tx, cc_nHeight = nHeightIn, cc_nVersion = tx_nVersion tx\<rparr>"

definition IsPruned :: "CCoins \<Rightarrow> bool" where
  "IsPruned c \<longleftrightarrow> list_all CTxOut_IsNull (cc_vout c)"

definition CCoins_eq :: "CCoins \<Rightarrow> CCoins \<Rightarrow> bool" where
  "CCoins_eq a b \<longleftrightarrow> (IsPruned a \<and> IsPruned b) \<or> a = b"

definition IsAvailable :: "CCoins \<Rightarrow> uint32_t \<Rightarrow> bool" where
  "IsAvailable c nPos \<longleftrightarrow> unat nPos < length (cc_vout c) \<and> \<not> CTxOut_IsNull (cc_vout c ! unat nPos)"

definition CCoins_Spend :: "CCoins \<Rightarrow> uint32_t \<Rightarrow> bool \<times> CCoins" where
  "CCoins_Spend c nPos =
     (if unat nPos \<ge> length (cc_vout c) \<or> CTxOut_IsNull (cc_vout c ! unat nPos) then (False, c)
      else (True, CCoins_Cleanup (c\<lparr>cc_vout := (cc_vout c)[unat nPos := CTxOut_null]\<rparr>)))"

text \<open>
  The bit mask of the outputs from the third on, eight to a byte: byte \<open>b\<close> stands for the outputs
  \<open>2 + 8 * b\<close> to \<open>9 + 8 * b\<close>. \<open>CalcMaskSize\<close> counts the bytes up to the last one that is not zero, and those that
  are not.
\<close>

definition unspent_at :: "CTxOut list \<Rightarrow> nat \<Rightarrow> bool" where
  "unspent_at outs i \<longleftrightarrow> i < length outs \<and> \<not> CTxOut_IsNull (outs ! i)"

definition CalcMaskSize :: "CTxOut list \<Rightarrow> nat \<times> nat" where
  "CalcMaskSize outs =
     foldl (\<lambda>(nLastUsedByte, nNonzeroBytes) b.
         if \<exists>i \<in> set [0..<8]. unspent_at outs (2 + b * 8 + i) then (b + 1, nNonzeroBytes + 1) else (nLastUsedByte, nNonzeroBytes))
       (0, 0) [0..<(length outs + 5) div 8]"

definition mask_byte :: "CTxOut list \<Rightarrow> nat \<Rightarrow> byte" where
  "mask_byte outs b = foldl (\<lambda>chAvail i. if unspent_at outs (2 + b * 8 + i) then chAvail OR push_bit i 1 else chAvail) 0 [0..<8]"

text \<open>A variable-length integer of type \<open>int\<close>: the writer stops at once at a negative number, the reader wraps.\<close>

definition WriteVarInt_int :: "int \<Rightarrow> byte list" where
  "WriteVarInt_int n = (if n < 0 then [word_of_int n AND 0x7F] else WriteVarInt (word_of_int n :: uint32_t))"

definition ReadVarInt_int :: "int reader" where
  "ReadVarInt_int = rbind ReadVarInt (\<lambda>n. rreturn (sint (n :: uint32_t)))"

fun ser_unspent :: "('k, 's) secp256k1 \<Rightarrow> CTxOut list \<Rightarrow> byte list result" where
  "ser_unspent ec [] = Inr []"
| "ser_unspent ec (out # outs) =
     (if CTxOut_IsNull out then ser_unspent ec outs
      else case CTxOutCompressor_Serialize ec out of
        Inl e \<Rightarrow> Inl e
      | Inr b \<Rightarrow> (case ser_unspent ec outs of Inl e \<Rightarrow> Inl e | Inr bs \<Rightarrow> Inr (b @ bs)))"

definition CCoins_Serialize :: "('k, 's) secp256k1 \<Rightarrow> CCoins \<Rightarrow> byte list result" where
  "CCoins_Serialize ec c =
     (let outs = cc_vout c; (nMaskSize, nMaskCode) = CalcMaskSize outs;
          fFirst = unspent_at outs 0; fSecond = unspent_at outs 1
      in if \<not> (fFirst \<or> fSecond \<or> nMaskCode \<noteq> 0) then Inl (AssertFail ''fFirst || fSecond || nMaskCode'')
         else let nCode = 8 * (of_nat nMaskCode - (if fFirst \<or> fSecond then 0 else 1)) + (if cc_fCoinBase c then 1 else 0) +
                          (if fFirst then 2 else 0) + (if fSecond then 4 else 0) :: uint32_t
              in case ser_unspent ec outs of
                   Inl e \<Rightarrow> Inl e
                 | Inr txouts \<Rightarrow>
                     Inr (WriteVarInt_int (cc_nVersion c) @ WriteVarInt nCode @
                          map (mask_byte outs) [0..<nMaskSize] @ txouts @ WriteVarInt_int (cc_nHeight c)))"

text \<open>The mask is read until enough of its bytes were not zero.\<close>

fun read_mask :: "nat \<Rightarrow> byte list \<Rightarrow> (bool list \<times> byte list) result" where
  "read_mask nMaskCode [] = (if nMaskCode = 0 then Inr ([], []) else Inl (Throw ''CBaseDataStream::read(): end of data''))"
| "read_mask nMaskCode (chAvail # s) =
     (if nMaskCode = 0 then Inr ([], chAvail # s)
      else case read_mask (if chAvail \<noteq> 0 then nMaskCode - 1 else nMaskCode) s of
        Inl e \<Rightarrow> Inl e
      | Inr (avail, s') \<Rightarrow> Inr (map (\<lambda>p. chAvail AND push_bit p 1 \<noteq> 0) [0..<8] @ avail, s'))"

fun read_unspent :: "('k, 's) secp256k1 \<Rightarrow> bool list \<Rightarrow> CTxOut list reader" where
  "read_unspent ec [] = rreturn []"
| "read_unspent ec (f # avail) =
     rbind (if f then CTxOutCompressor_Unserialize ec CTxOut_null else rreturn CTxOut_null) (\<lambda>out.
     rbind (read_unspent ec avail) (\<lambda>outs. rreturn (out # outs)))"

definition CCoins_Unserialize :: "('k, 's) secp256k1 \<Rightarrow> CCoins reader" where
  "CCoins_Unserialize ec =
     rbind ReadVarInt_int (\<lambda>nVersion.
     rbind ReadVarInt (\<lambda>nCode :: uint32_t.
     rbind (read_mask (unat (nCode div 8 + (if nCode AND 6 \<noteq> 0 then 0 else 1)))) (\<lambda>mask.
     rbind (read_unspent ec ([nCode AND 2 \<noteq> 0, nCode AND 4 \<noteq> 0] @ mask)) (\<lambda>outs.
     rbind ReadVarInt_int (\<lambda>nHeight.
       rreturn (CCoins_Cleanup \<lparr>cc_fCoinBase = (nCode AND 1 \<noteq> 0), cc_vout = outs, cc_nHeight = nHeight, cc_nVersion = nVersion\<rparr>))))))"

section \<open>Undo data\<close>

record CTxInUndo =
  iu_txout :: CTxOut
  iu_fCoinBase :: bool
  iu_nHeight :: uint32_t
  iu_nVersion :: int

definition CTxInUndo_of :: "CTxOut \<Rightarrow> CTxInUndo" where
  "CTxInUndo_of txoutIn = \<lparr>iu_txout = txoutIn, iu_fCoinBase = False, iu_nHeight = 0, iu_nVersion = 0\<rparr>"

definition CTxInUndo_Serialize :: "('k, 's) secp256k1 \<Rightarrow> CTxInUndo \<Rightarrow> byte list result" where
  "CTxInUndo_Serialize ec u =
     (case CTxOutCompressor_Serialize ec (iu_txout u) of
        Inl e \<Rightarrow> Inl e
      | Inr b \<Rightarrow> Inr (WriteVarInt (iu_nHeight u * 2 + (if iu_fCoinBase u then 1 else 0)) @
                      (if iu_nHeight u > 0 then WriteVarInt_int (iu_nVersion u) else []) @ b))"

definition CTxInUndo_Unserialize :: "('k, 's) secp256k1 \<Rightarrow> CTxInUndo reader" where
  "CTxInUndo_Unserialize ec =
     rbind ReadVarInt (\<lambda>nCode :: uint32_t.
       let nHeight = nCode div 2; fCoinBase = (nCode AND 1 \<noteq> 0) in
     rbind (if nHeight > 0 then ReadVarInt_int else rreturn 0) (\<lambda>nVersion.
     rbind (CTxOutCompressor_Unserialize ec CTxOut_null) (\<lambda>txout.
       rreturn \<lparr>iu_txout = txout, iu_fCoinBase = fCoinBase, iu_nHeight = nHeight, iu_nVersion = nVersion\<rparr>)))"

section \<open>Reading back what was written\<close>

definition strip_nulls :: "CTxOut list \<Rightarrow> CTxOut list" where
  "strip_nulls outs = rev (dropWhile CTxOut_IsNull (rev outs))"

lemma CCoins_Cleanup_strip: "CCoins_Cleanup c = c\<lparr>cc_vout := strip_nulls (cc_vout c)\<rparr>"
  by (simp add: CCoins_Cleanup_def strip_nulls_def)

lemma strip_nulls_append: "list_all CTxOut_IsNull ys \<Longrightarrow> strip_nulls (xs @ ys) = strip_nulls xs"
  by (auto simp: strip_nulls_def list_all_iff intro!: dropWhile_append2)

lemma ser_unspent_nulls: "list_all CTxOut_IsNull ys \<Longrightarrow> ser_unspent ec (xs @ ys) = ser_unspent ec xs"
proof -
  assume "list_all CTxOut_IsNull ys"
  then have "ser_unspent ec ys = Inr []" by (induction ys) auto
  then show ?thesis by (induction xs) (auto split: sum.split)
qed

text \<open>Outputs that can be stored: the spent ones are null, the others are within the range of compression.\<close>

definition ok_outs :: "('k, 's) secp256k1 \<Rightarrow> CTxOut list \<Rightarrow> bool" where
  "ok_outs ec outs \<longleftrightarrow> (\<forall>x \<in> set outs. if CTxOut_IsNull x then x = CTxOut_null else ok_compressed ec x)"

lemma CTxOut_null_IsNull [simp]: "CTxOut_IsNull CTxOut_null"
  by (simp add: CTxOut_IsNull_def CTxOut_null_def)

lemma ok_outs_Cons: "ok_outs ec (x # xs) \<longleftrightarrow> (if CTxOut_IsNull x then x = CTxOut_null else ok_compressed ec x) \<and> ok_outs ec xs"
  by (simp add: ok_outs_def)

lemma compressed_total: "ok_compressed ec x \<Longrightarrow> CTxOutCompressor_Serialize ec x = Inr (compressed_bytes ec x)"
proof -
  obtain c where "CompressAmount (word_of_int (nValue x)) = Inr c"
    using CompressAmount_value by (cases "(word_of_int (nValue x) :: uint64_t) = 0", simp add: CompressAmount_def) (metis surj_pair)
  then show ?thesis by (simp add: compressed_bytes_def CTxOutCompressor_Serialize_def)
qed

lemma read_unspent_roundtrip:
  assumes "ok_outs ec outs"
  obtains b where "ser_unspent ec outs = Inr b" "\<And>s. read_unspent ec (map (\<lambda>x. \<not> CTxOut_IsNull x) outs) (b @ s) = Inr (outs, s)"
proof -
  have "\<exists>b. ser_unspent ec outs = Inr b \<and> (\<forall>s. read_unspent ec (map (\<lambda>x. \<not> CTxOut_IsNull x) outs) (b @ s) = Inr (outs, s))"
    using assms
  proof (induction outs)
    case Nil
    then show ?case by (simp add: rreturn_def)
  next
    case (Cons x xs)
    then obtain b where b: "ser_unspent ec xs = Inr b" "\<And>s. read_unspent ec (map (\<lambda>x. \<not> CTxOut_IsNull x) xs) (b @ s) = Inr (xs, s)"
      by (auto simp: ok_outs_Cons)
    show ?case
    proof (cases "CTxOut_IsNull x")
      case True
      then show ?thesis using b Cons.prems by (simp add: ok_outs_Cons rbind_def rreturn_def)
    next
      case False
      then have ok: "ok_compressed ec x" using Cons.prems by (simp add: ok_outs_Cons)
      show ?thesis
        using False b compressed_total [OF ok] compressed.roundtrip [OF ok]
        by (simp add: rbind_def rreturn_def)
    qed
  qed
  then show thesis using that by blast
qed

text \<open>The mask.\<close>

abbreviation mask_bits :: "byte \<Rightarrow> bool list" where
  "mask_bits ch \<equiv> map (\<lambda>p. ch AND push_bit p 1 \<noteq> 0) [0..<8]"

lemma read_mask_0 [simp]: "read_mask 0 s = Inr ([], s)"
  by (cases s) simp_all

lemma read_mask_exact:
  "bs = [] \<or> last bs \<noteq> 0 \<Longrightarrow> read_mask (length (filter (\<lambda>b. b \<noteq> 0) bs)) (bs @ s) = Inr (concat (map mask_bits bs), s)"
proof (induction bs)
  case (Cons b bs)
  have "length (filter (\<lambda>b. b \<noteq> 0) (b # bs)) \<noteq> 0"
    using Cons.prems last_in_set [of "b # bs"] by (auto simp: filter_empty_conv)
  moreover have "bs = [] \<or> last bs \<noteq> 0" using Cons.prems by (cases bs) simp_all
  ultimately show ?case using Cons.IH by (auto simp del: upt_rec_numeral)
qed simp

lemma bit_push_1: "bit (push_bit i (1 :: byte)) p \<longleftrightarrow> i = p \<and> p < 8"
  unfolding push_bit_of_1 bit_exp_iff possible_bit_word by auto

lemma bit_foldl_or:
  "bit (foldl (\<lambda>ch i. if u i then ch OR push_bit i 1 else ch) a is) p \<longleftrightarrow> bit a p \<or> (p \<in> set is \<and> u p \<and> p < 8)" for a :: byte
proof (induction "is" arbitrary: a)
  case (Cons i "is")
  have "bit (if u i then a OR push_bit i 1 else a) p \<longleftrightarrow> bit a p \<or> (p = i \<and> u p \<and> p < 8)"
    by (cases "u i") (auto simp only: bit_or_iff bit_push_1 if_True if_False)
  then show ?case using Cons.IH [of "if u i then a OR push_bit i 1 else a"] by (simp only: foldl_Cons set_simps) blast
qed simp

lemma mask_byte_bit: "bit (mask_byte outs b) p \<longleftrightarrow> p < 8 \<and> unspent_at outs (2 + b * 8 + p)"
  unfolding mask_byte_def bit_foldl_or by auto

lemma mask_byte_bits: "mask_bits (mask_byte outs b) = map (\<lambda>i. unspent_at outs (2 + b * 8 + i)) [0..<8]"
proof -
  have "(mask_byte outs b AND push_bit p 1 \<noteq> 0) = unspent_at outs (2 + b * 8 + p)" if "p < 8" for p
    using that and_exp_eq_0_iff_not_bit [of "mask_byte outs b" p] by (simp add: push_bit_eq_mult mask_byte_bit)
  then show ?thesis by (simp del: upt_rec_numeral)
qed

lemma mask_byte_0_iff: "mask_byte outs b \<noteq> 0 \<longleftrightarrow> (\<exists>i \<in> set [0..<8]. unspent_at outs (2 + b * 8 + i))"
  by (auto simp: bit_eq_iff mask_byte_bit simp del: upt_rec_numeral)

lemma last_used_foldl:
  fixes P :: "nat \<Rightarrow> bool"
  assumes "foldl (\<lambda>(l, k) b. if P b then (b + 1, k + 1) else (l, k)) (0, 0 :: nat) [0..<n] = (L, K)"
  shows "K = length (filter P [0..<L]) \<and> L \<le> n \<and> (\<forall>b. L \<le> b \<and> b < n \<longrightarrow> \<not> P b) \<and> (L = 0 \<or> P (L - 1))"
  using assms
proof (induction n arbitrary: L K)
  case (Suc n)
  obtain l k :: nat where f: "foldl (\<lambda>(l, k) b. if P b then (b + 1, k + 1) else (l, k)) (0, 0) [0..<n] = (l, k)" by fastforce
  note IH = Suc.IH [OF f]
  show ?case
  proof (cases "P n")
    case True
    then have LK: "L = Suc n" "K = Suc k" using Suc.prems f by simp_all
    have "filter P [0..<n] = filter P ([0..<l] @ [l..<n])" using IH by (metis le_add_diff_inverse upt_add_eq_append zero_le)
    also have "\<dots> = filter P [0..<l]" using IH by (auto simp: filter_empty_conv)
    finally show ?thesis using LK True IH by auto
  next
    case False
    then have "L = l" "K = k" using Suc.prems f by simp_all
    then show ?thesis using IH False by (metis le_SucI less_Suc_eq)
  qed
qed simp

lemma CalcMaskSize_spec:
  assumes "CalcMaskSize outs = (L, K)"
  shows "K = length (filter (\<lambda>b. b \<noteq> 0) (map (mask_byte outs) [0..<L]))" "L = 0 \<or> mask_byte outs (L - 1) \<noteq> 0"
    "\<And>i. 2 + 8 * L \<le> i \<Longrightarrow> \<not> unspent_at outs i" "8 * L \<le> length outs + 5"
proof -
  let ?P = "\<lambda>b. mask_byte outs b \<noteq> 0"
  let ?n = "(length outs + 5) div 8"
  have "foldl (\<lambda>(l, k) b. if ?P b then (b + 1, k + 1) else (l, k)) (0, 0) [0..<?n] = (L, K)"
    using assms by (simp only: CalcMaskSize_def mask_byte_0_iff)
  note s = last_used_foldl [OF this]
  show "K = length (filter (\<lambda>b. b \<noteq> 0) (map (mask_byte outs) [0..<L]))" using s by (simp add: filter_map comp_def)
  show "L = 0 \<or> mask_byte outs (L - 1) \<noteq> 0" using s by simp
  show "8 * L \<le> length outs + 5" using s by linarith
  fix i
  assume i: "2 + 8 * L \<le> i"
  define b where "b = (i - 2) div 8"
  have ib: "i = 2 + b * 8 + (i - 2) mod 8" using i by (simp add: b_def)
  have "L \<le> b" using i by (simp add: b_def)
  show "\<not> unspent_at outs i"
  proof (cases "b < ?n")
    case True
    then have "\<not> ?P b" using s \<open>L \<le> b\<close> by blast
    then have "\<not> unspent_at outs (2 + b * 8 + (i - 2) mod 8)" unfolding mask_byte_0_iff by auto
    then show ?thesis using ib by simp
  next
    case False
    then have "length outs \<le> i" using ib by linarith
    then show ?thesis by (simp add: unspent_at_def)
  qed
qed

lemma mask_concat: "concat (map (\<lambda>b. map (\<lambda>i. u (2 + b * 8 + i)) [0..<8]) [0..<L]) = map (\<lambda>i. u (2 + i)) [0..<8 * L]"
proof (induction L)
  case (Suc L)
  have "[0..<8 * Suc L] = [0..<8 * L] @ map (\<lambda>i. 8 * L + i) [0..<8]"
    using upt_add_eq_append [of 0 "8 * L" 8] map_add_upt [of "8 * L" 8] by (simp add: add.commute)
  then show ?case using Suc by (simp add: mult.commute add.assoc del: upt_rec_numeral)
qed simp

text \<open>The list of outputs the reader builds: cut or filled with null outputs to the length of the mask.\<close>

lemma padded_outs:
  assumes "\<And>i. N \<le> i \<Longrightarrow> \<not> unspent_at outs i"
  defines "outs' \<equiv> take N outs @ replicate (N - length outs) CTxOut_null"
  shows "map (unspent_at outs) [0..<N] = map (\<lambda>x. \<not> CTxOut_IsNull x) outs'" "ser_unspent ec outs' = ser_unspent ec outs"
    "strip_nulls outs' = strip_nulls outs"
proof -
  have "list_all CTxOut_IsNull (drop N outs)"
    using assms(1) by (auto simp: list_all_length unspent_at_def)
  then have d: "ser_unspent ec (take N outs @ drop N outs) = ser_unspent ec (take N outs)"
    "strip_nulls (take N outs @ drop N outs) = strip_nulls (take N outs)"
    by (simp_all only: ser_unspent_nulls strip_nulls_append)
  have r: "list_all CTxOut_IsNull (replicate (N - length outs) CTxOut_null)" by (simp add: list_all_length)
  show "ser_unspent ec outs' = ser_unspent ec outs" "strip_nulls outs' = strip_nulls outs"
    using d r by (simp_all add: outs'_def ser_unspent_nulls strip_nulls_append)
  show "map (unspent_at outs) [0..<N] = map (\<lambda>x. \<not> CTxOut_IsNull x) outs'"
    by (rule nth_equalityI) (auto simp: outs'_def nth_append unspent_at_def)
qed

lemma and_pow2: "w AND 1 \<noteq> 0 \<longleftrightarrow> odd (unat w)" "w AND 2 \<noteq> 0 \<longleftrightarrow> odd (unat w div 2)" "w AND 4 \<noteq> 0 \<longleftrightarrow> odd (unat w div 4)"
  "w AND 6 \<noteq> 0 \<longleftrightarrow> odd (unat w div 2) \<or> odd (unat w div 4)" for w :: uint32_t
proof -
  have b: "w AND 2 ^ n \<noteq> 0 \<longleftrightarrow> odd (unat w div 2 ^ n)" for n
    unfolding and_exp_eq_0_iff_not_bit by (simp add: bit_unsigned_iff flip: bit_iff_odd)
  show 1: "w AND 1 \<noteq> 0 \<longleftrightarrow> odd (unat w)" "w AND 2 \<noteq> 0 \<longleftrightarrow> odd (unat w div 2)" "w AND 4 \<noteq> 0 \<longleftrightarrow> odd (unat w div 4)"
    using b [of 0] b [of 1] b [of 2] by simp_all
  have "w AND 6 = (w AND 2) OR (w AND 4)" by (simp flip: bit.conj_disj_distrib)
  then show "w AND 6 \<noteq> 0 \<longleftrightarrow> odd (unat w div 2) \<or> odd (unat w div 4)" using 1 by (simp add: or_eq_0_iff)
qed

lemma code_bits:
  fixes m :: nat and a b c :: bool
  assumes "m < 2 ^ 28"
  defines "w \<equiv> 8 * of_nat m + (if a then 1 else 0) + (if b then 2 else 0) + (if c then 4 else 0) :: uint32_t"
  shows "unat (w div 8) = m" "w AND 1 \<noteq> 0 \<longleftrightarrow> a" "w AND 2 \<noteq> 0 \<longleftrightarrow> b" "w AND 4 \<noteq> 0 \<longleftrightarrow> c" "w AND 6 \<noteq> 0 \<longleftrightarrow> b \<or> c"
proof -
  let ?n = "8 * m + (if a then 1 else 0) + (if b then 2 else 0) + (if c then 4 else 0)"
  have "w = of_nat ?n" by (simp add: w_def)
  moreover have "unat (of_nat ?n :: uint32_t) = ?n"
    by (rule unat32_of_nat) (use assms(1) in \<open>auto split: if_splits\<close>)
  ultimately have u: "unat w = ?n" by metis
  have "unat w div 8 = m" unfolding u by (cases a; cases b; cases c; simp; presburger?)
  then show "unat (w div 8) = m" by (simp add: unat_div)
  show "w AND 1 \<noteq> 0 \<longleftrightarrow> a" "w AND 2 \<noteq> 0 \<longleftrightarrow> b" "w AND 4 \<noteq> 0 \<longleftrightarrow> c" "w AND 6 \<noteq> 0 \<longleftrightarrow> b \<or> c"
    unfolding and_pow2 u by (cases a; cases b; cases c; simp; presburger?)+
qed

lemma varint_int_roundtrip: "0 \<le> n \<Longrightarrow> n < 2 ^ 31 \<Longrightarrow> ReadVarInt_int (WriteVarInt_int n @ s) = Inr (n, s)"
  by (simp add: ReadVarInt_int_def WriteVarInt_int_def varint32.bind rreturn_def signed_of_int signed_take_bit_int_eq_self)

lemma mask_not_empty:
  assumes "\<not> IsPruned c" "CalcMaskSize (cc_vout c) = (L, K)"
  shows "unspent_at (cc_vout c) 0 \<or> unspent_at (cc_vout c) 1 \<or> K \<noteq> 0"
proof (rule ccontr)
  assume none: "\<not> ?thesis"
  note mask = CalcMaskSize_spec [OF assms(2)]
  have "L = 0"
  proof (rule ccontr)
    assume "L \<noteq> 0"
    then have "mask_byte (cc_vout c) (L - 1) \<in> set (filter (\<lambda>b. b \<noteq> 0) (map (mask_byte (cc_vout c)) [0..<L]))" using mask(2) by auto
    then show False using none mask(1) by (metis length_pos_if_in_set less_irrefl)
  qed
  then have "\<not> unspent_at (cc_vout c) i" for i
    using none mask(3) [of i] by (cases "i < 2") (auto simp: less_2_cases_iff)
  then show False using assms(1) by (auto simp: IsPruned_def list_all_length unspent_at_def)
qed

lemma map_upt_two: "map u [0..<2 + n] = [u 0, u 1] @ map (\<lambda>i. u (2 + i)) [0..<n]"
proof -
  have "[0..<2 + n] = [0, 1] @ map (\<lambda>i. i + 2) [0..<n]"
    using upt_add_eq_append [of 0 2 n] map_add_upt [of 2 n] by (simp add: upt_rec)
  then show ?thesis by (simp only: map_append map_map list.map comp_def add.commute)
qed

lemma varint_int_bind: "0 \<le> n \<Longrightarrow> n < 2 ^ 31 \<Longrightarrow> rbind ReadVarInt_int f (WriteVarInt_int n @ s) = f n s"
  by (simp add: rbind_def varint_int_roundtrip)

lemma mask_roundtrip:
  assumes "CalcMaskSize outs = (L, K)"
  shows "read_mask K (map (mask_byte outs) [0..<L] @ t) = Inr (map (\<lambda>i. unspent_at outs (2 + i)) [0..<8 * L], t)"
proof -
  note mask = CalcMaskSize_spec [OF assms]
  let ?bs = "map (mask_byte outs) [0..<L]"
  have "?bs = [] \<or> last ?bs \<noteq> 0" using mask(2) by (cases L) simp_all
  note exact = read_mask_exact [OF this, folded mask(1)]
  have "concat (map mask_bits ?bs) = map (\<lambda>i. unspent_at outs (2 + i)) [0..<8 * L]"
    unfolding map_map comp_def mask_byte_bits by (rule mask_concat)
  then show ?thesis unfolding exact by (rule arg_cong)
qed

lemma code_roundtrip:
  fixes K :: nat and a b c :: bool
  assumes "K < 2 ^ 28" "b \<or> c \<or> K \<noteq> 0"
  defines "w \<equiv> 8 * (of_nat K - (if b \<or> c then 0 else 1)) + (if a then 1 else 0) + (if b then 2 else 0) + (if c then 4 else 0) :: uint32_t"
  shows "unat (w div 8 + (if w AND 6 \<noteq> 0 then 0 else 1)) = K" "w AND 1 \<noteq> 0 \<longleftrightarrow> a" "w AND 2 \<noteq> 0 \<longleftrightarrow> b" "w AND 4 \<noteq> 0 \<longleftrightarrow> c"
proof -
  define m where "m = (if b \<or> c then K else K - 1)"
  have m: "m < 2 ^ 28" "of_nat K - (if b \<or> c then 0 else 1) = (of_nat m :: uint32_t)"
    using assms(1,2) by (auto simp: m_def of_nat_diff)
  note bits = code_bits [OF m(1), of a b c, folded m(2), folded w_def]
  show "w AND 1 \<noteq> 0 \<longleftrightarrow> a" "w AND 2 \<noteq> 0 \<longleftrightarrow> b" "w AND 4 \<noteq> 0 \<longleftrightarrow> c" by (rule bits)+
  show "unat (w div 8 + (if w AND 6 \<noteq> 0 then 0 else 1)) = K"
  proof (cases "b \<or> c")
    case True
    then show ?thesis using bits by (simp add: m_def)
  next
    case False
    then have "K = Suc m" using assms(2) by (simp add: m_def)
    moreover have "w div 8 = of_nat m" using bits(1) by (metis of_nat_unat ucast_id)
    then have "w div 8 + 1 = of_nat (Suc m)" by simp
    moreover have "unat (of_nat (Suc m) :: uint32_t) = Suc m" by (rule unat32_of_nat) (use m(1) in simp)
    ultimately show ?thesis using False bits(5) by (simp add: add.commute)
  qed
qed


definition ex_coins :: CCoins where
  "ex_coins = \<lparr>cc_fCoinBase = True,
     cc_vout = [CTxOut_null, \<lparr>nValue = 1250000000, scriptPubKey = [OP_1]\<rparr>, CTxOut_null, \<lparr>nValue = 7, scriptPubKey = []\<rparr>, CTxOut_null],
     cc_nHeight = 120891, cc_nVersion = 4\<rparr>"


text \<open>Undo data of an input.\<close>

definition ok_undo :: "('k, 's) secp256k1 \<Rightarrow> CTxInUndo \<Rightarrow> bool" where
  "ok_undo ec u \<longleftrightarrow> ok_compressed ec (iu_txout u) \<and> iu_nHeight u < 0x80000000 \<and>
     (if iu_nHeight u > 0 then 0 \<le> iu_nVersion u \<and> iu_nVersion u < 2 ^ 31 else iu_nVersion u = 0)"

definition undo_bytes :: "('k, 's) secp256k1 \<Rightarrow> CTxInUndo \<Rightarrow> byte list" where
  "undo_bytes ec u = (case CTxInUndo_Serialize ec u of Inl _ \<Rightarrow> [] | Inr b \<Rightarrow> b)"

lemma undo_code:
  fixes h :: uint32_t
  assumes "h < 0x80000000"
  shows "(h * 2 + (if b then 1 else 0)) div 2 = h" "(h * 2 + (if b then 1 else 0)) AND 1 \<noteq> 0 \<longleftrightarrow> b"
proof -
  let ?n = "2 * unat h + (if b then 1 else 0)"
  have "unat h < 2 ^ 31" using assms by (simp add: word_less_nat_alt)
  then have "unat (of_nat ?n :: uint32_t) = ?n" by (intro unat32_of_nat) simp
  moreover have "h * 2 + (if b then 1 else 0) = of_nat ?n" by (simp add: mult.commute)
  ultimately have u: "unat (h * 2 + (if b then 1 else 0)) = ?n" by metis
  show "(h * 2 + (if b then 1 else 0)) AND 1 \<noteq> 0 \<longleftrightarrow> b" unfolding and_pow2 u by (cases b) simp_all
  have "unat ((h * 2 + (if b then 1 else 0)) div 2) = unat h" unfolding unat_div u by (cases b) simp_all
  then show "(h * 2 + (if b then 1 else 0)) div 2 = h" by (simp only: word_unat_eq_iff)
qed

interpretation undo: codec "undo_bytes ec" "CTxInUndo_Unserialize ec" "ok_undo ec" for ec
proof
  fix u s
  assume ok: "ok_undo ec u"
  then have "ok_compressed ec (iu_txout u)" "iu_nHeight u < 0x80000000" by (simp_all add: ok_undo_def)
  note code = undo_code [OF this(2), of "iu_fCoinBase u"] and comp = compressed_total [OF this(1)] compressed.bind [OF this(1)]
  show "CTxInUndo_Unserialize ec (undo_bytes ec u @ s) = Inr (u, s)"
  proof (cases "iu_nHeight u > 0")
    case True
    then have "0 \<le> iu_nVersion u" "iu_nVersion u < 2 ^ 31" using ok by (simp_all add: ok_undo_def)
    then show ?thesis
      using True unfolding undo_bytes_def CTxInUndo_Serialize_def CTxInUndo_Unserialize_def comp(1)
      by (simp add: varint32.bind Let_def code varint_int_bind comp(2) rreturn_def)
  next
    case False
    then have "iu_nVersion u = 0" "iu_nHeight u = 0" using ok by (simp_all add: ok_undo_def word_gt_0)
    then show ?thesis
      using False code unfolding undo_bytes_def CTxInUndo_Serialize_def CTxInUndo_Unserialize_def comp(1)
      by (simp add: varint32.bind Let_def rbind_rreturn comp(2)) (simp add: rreturn_def)
  qed
qed

end
