(* ===== verification/CoinsView.thy ===== *)
theory CoinsView
  imports Coins
begin

text \<open>
  Views on the unspent outputs, anchors and nullifiers: \<^verbatim>\<open>src/coins.h\<close> and \<^verbatim>\<open>src/coins.cpp\<close> from \<open>CCoinsView\<close> on, and
  the database view of \<^verbatim>\<open>src/txdb.cpp\<close>. A class derived from \<open>CCoinsView\<close> is a record of its virtual methods over the
  state of its objects. The locale \<open>coins_view\<close> is the contract of a view; the database meets it, and a cache on a
  view that meets it meets it too, so that caches can be stacked. Memory accounting and statistics are left out, and
  writing to the store succeeds.
\<close>

unbundle bit_operations_syntax

section \<open>Views\<close>

datatype ShieldedType = SPROUT | SAPLING

text \<open>A cache entry's flags, DIRTY and FRESH, are a field each.\<close>

record CCoinsCacheEntry =
  ce_coins :: CCoins
  ce_dirty :: bool
  ce_fresh :: bool

record 't CAnchorsCacheEntry =
  ae_entered :: bool
  ae_tree :: 't
  ae_dirty :: bool

record CNullifiersCacheEntry =
  ne_entered :: bool
  ne_dirty :: bool

text \<open>The arguments of \<open>BatchWrite\<close>.\<close>

record ('st, 'sp) coins_batch =
  mapCoins :: "uint256 \<rightharpoonup> CCoinsCacheEntry"
  bw_hashBlock :: uint256
  bw_hashSproutAnchor :: uint256
  bw_hashSaplingAnchor :: uint256
  mapSproutAnchors :: "uint256 \<rightharpoonup> 'st CAnchorsCacheEntry"
  mapSaplingAnchors :: "uint256 \<rightharpoonup> 'sp CAnchorsCacheEntry"
  mapSproutNullifiers :: "uint256 \<rightharpoonup> CNullifiersCacheEntry"
  mapSaplingNullifiers :: "uint256 \<rightharpoonup> CNullifiersCacheEntry"

text \<open>
  The virtual methods of \<open>CCoinsView\<close>, for a class whose objects have the state \<open>'s\<close>. The \<open>const\<close> methods may
  change the mutable part of the state.
\<close>

record ('s, 'st, 'sp) CCoinsView =
  v_GetSproutAnchorAt :: "uint256 \<Rightarrow> 's \<Rightarrow> 'st option \<times> 's"
  v_GetSaplingAnchorAt :: "uint256 \<Rightarrow> 's \<Rightarrow> 'sp option \<times> 's"
  v_GetNullifier :: "uint256 \<Rightarrow> ShieldedType \<Rightarrow> 's \<Rightarrow> bool \<times> 's"
  v_GetCoins :: "uint256 \<Rightarrow> 's \<Rightarrow> CCoins option \<times> 's"
  v_HaveCoins :: "uint256 \<Rightarrow> 's \<Rightarrow> bool \<times> 's"
  v_GetBestBlock :: "'s \<Rightarrow> uint256 \<times> 's"
  v_GetBestAnchor :: "ShieldedType \<Rightarrow> 's \<Rightarrow> uint256 \<times> 's"
  v_BatchWrite :: "('st, 'sp) coins_batch \<Rightarrow> 's \<Rightarrow> (bool \<times> 's) result"

section \<open>The cache\<close>

record ('s, 'st, 'sp) CCoinsViewCache =
  base :: 's
  hasModifier :: bool
  hashBlock :: uint256
  cacheCoins :: "uint256 \<rightharpoonup> CCoinsCacheEntry"
  hashSproutAnchor :: uint256
  hashSaplingAnchor :: uint256
  cacheSproutAnchors :: "uint256 \<rightharpoonup> 'st CAnchorsCacheEntry"
  cacheSaplingAnchors :: "uint256 \<rightharpoonup> 'sp CAnchorsCacheEntry"
  cacheSproutNullifiers :: "uint256 \<rightharpoonup> CNullifiersCacheEntry"
  cacheSaplingNullifiers :: "uint256 \<rightharpoonup> CNullifiersCacheEntry"

definition CCoinsViewCache_new :: "'s \<Rightarrow> ('s, 'st, 'sp) CCoinsViewCache" where
  "CCoinsViewCache_new baseIn =
     \<lparr>base = baseIn, hasModifier = False, hashBlock = null256, cacheCoins = Map.empty, hashSproutAnchor = null256,
      hashSaplingAnchor = null256, cacheSproutAnchors = Map.empty, cacheSaplingAnchors = Map.empty,
      cacheSproutNullifiers = Map.empty, cacheSaplingNullifiers = Map.empty\<rparr>"

definition FetchCoins ::
  "('s, 'st, 'sp) CCoinsView \<Rightarrow> uint256 \<Rightarrow> ('s, 'st, 'sp) CCoinsViewCache \<Rightarrow> CCoinsCacheEntry option \<times> ('s, 'st, 'sp) CCoinsViewCache" where
  "FetchCoins V txid c =
     (case cacheCoins c txid of
        Some e \<Rightarrow> (Some e, c)
      | None \<Rightarrow>
          (case v_GetCoins V txid (base c) of
             (None, b) \<Rightarrow> (None, c\<lparr>base := b\<rparr>)
           | (Some tmp, b) \<Rightarrow>
               let e = \<lparr>ce_coins = tmp, ce_dirty = False, ce_fresh = IsPruned tmp\<rparr>
               in (Some e, c\<lparr>base := b, cacheCoins := (cacheCoins c)(txid \<mapsto> e)\<rparr>)))"

definition CCoinsViewCache_GetSproutAnchorAt ::
  "('s, 'st, 'sp) CCoinsView \<Rightarrow> uint256 \<Rightarrow> ('s, 'st, 'sp) CCoinsViewCache \<Rightarrow> 'st option \<times> ('s, 'st, 'sp) CCoinsViewCache" where
  "CCoinsViewCache_GetSproutAnchorAt V rt c =
     (case cacheSproutAnchors c rt of
        Some e \<Rightarrow> (if ae_entered e then Some (ae_tree e) else None, c)
      | None \<Rightarrow>
          (case v_GetSproutAnchorAt V rt (base c) of
             (None, b) \<Rightarrow> (None, c\<lparr>base := b\<rparr>)
           | (Some tree, b) \<Rightarrow>
               (Some tree, c\<lparr>base := b, cacheSproutAnchors :=
                 (cacheSproutAnchors c)(rt \<mapsto> \<lparr>ae_entered = True, ae_tree = tree, ae_dirty = False\<rparr>)\<rparr>)))"

definition CCoinsViewCache_GetSaplingAnchorAt ::
  "('s, 'st, 'sp) CCoinsView \<Rightarrow> uint256 \<Rightarrow> ('s, 'st, 'sp) CCoinsViewCache \<Rightarrow> 'sp option \<times> ('s, 'st, 'sp) CCoinsViewCache" where
  "CCoinsViewCache_GetSaplingAnchorAt V rt c =
     (case cacheSaplingAnchors c rt of
        Some e \<Rightarrow> (if ae_entered e then Some (ae_tree e) else None, c)
      | None \<Rightarrow>
          (case v_GetSaplingAnchorAt V rt (base c) of
             (None, b) \<Rightarrow> (None, c\<lparr>base := b\<rparr>)
           | (Some tree, b) \<Rightarrow>
               (Some tree, c\<lparr>base := b, cacheSaplingAnchors :=
                 (cacheSaplingAnchors c)(rt \<mapsto> \<lparr>ae_entered = True, ae_tree = tree, ae_dirty = False\<rparr>)\<rparr>)))"

definition CCoinsViewCache_GetNullifier ::
  "('s, 'st, 'sp) CCoinsView \<Rightarrow> uint256 \<Rightarrow> ShieldedType \<Rightarrow> ('s, 'st, 'sp) CCoinsViewCache \<Rightarrow> bool \<times> ('s, 'st, 'sp) CCoinsViewCache" where
  "CCoinsViewCache_GetNullifier V nullifier type c =
     (case (case type of SPROUT \<Rightarrow> cacheSproutNullifiers c | SAPLING \<Rightarrow> cacheSaplingNullifiers c) nullifier of
        Some e \<Rightarrow> (ne_entered e, c)
      | None \<Rightarrow>
          (case v_GetNullifier V nullifier type (base c) of
             (tmp, b) \<Rightarrow>
               let e = \<lparr>ne_entered = tmp, ne_dirty = False\<rparr>; c = c\<lparr>base := b\<rparr> in
               (tmp, case type of
                       SPROUT \<Rightarrow> c\<lparr>cacheSproutNullifiers := (cacheSproutNullifiers c)(nullifier \<mapsto> e)\<rparr>
                     | SAPLING \<Rightarrow> c\<lparr>cacheSaplingNullifiers := (cacheSaplingNullifiers c)(nullifier \<mapsto> e)\<rparr>)))"

definition CCoinsViewCache_GetBestBlock ::
  "('s, 'st, 'sp) CCoinsView \<Rightarrow> ('s, 'st, 'sp) CCoinsViewCache \<Rightarrow> uint256 \<times> ('s, 'st, 'sp) CCoinsViewCache" where
  "CCoinsViewCache_GetBestBlock V c =
     (if hashBlock c = null256
      then (case v_GetBestBlock V (base c) of (h, b) \<Rightarrow> (h, c\<lparr>base := b, hashBlock := h\<rparr>))
      else (hashBlock c, c))"

definition CCoinsViewCache_GetBestAnchor ::
  "('s, 'st, 'sp) CCoinsView \<Rightarrow> ShieldedType \<Rightarrow> ('s, 'st, 'sp) CCoinsViewCache \<Rightarrow> uint256 \<times> ('s, 'st, 'sp) CCoinsViewCache" where
  "CCoinsViewCache_GetBestAnchor V type c =
     (case type of
        SPROUT \<Rightarrow>
          (if hashSproutAnchor c = null256
           then (case v_GetBestAnchor V type (base c) of (h, b) \<Rightarrow> (h, c\<lparr>base := b, hashSproutAnchor := h\<rparr>))
           else (hashSproutAnchor c, c))
      | SAPLING \<Rightarrow>
          (if hashSaplingAnchor c = null256
           then (case v_GetBestAnchor V type (base c) of (h, b) \<Rightarrow> (h, c\<lparr>base := b, hashSaplingAnchor := h\<rparr>))
           else (hashSaplingAnchor c, c)))"

text \<open>What the views use of a note commitment tree: its root, a new tree, the root of that, and appending.\<close>

record 't tree_ops =
  tr_root :: "'t \<Rightarrow> uint256"
  tr_new :: 't
  tr_empty_root :: uint256
  tr_append :: "uint256 \<Rightarrow> 't \<Rightarrow> 't result"

text \<open>\<open>AbstractPushAnchor\<close> and \<open>AbstractPopAnchor\<close> on the map of anchors and the current root.\<close>

definition AbstractPushAnchor ::
  "'t tree_ops \<Rightarrow> 't \<Rightarrow> uint256 \<Rightarrow> (uint256 \<rightharpoonup> 't CAnchorsCacheEntry) \<Rightarrow> (uint256 \<rightharpoonup> 't CAnchorsCacheEntry) \<times> uint256" where
  "AbstractPushAnchor T tree currentRoot cacheAnchors =
     (let newrt = tr_root T tree in
      if currentRoot \<noteq> newrt
      then (cacheAnchors(newrt \<mapsto> \<lparr>ae_entered = True, ae_tree = tree, ae_dirty = True\<rparr>), newrt)
      else (cacheAnchors, currentRoot))"

definition PushAnchor_Sprout ::
  "('s, 'st, 'sp) CCoinsView \<Rightarrow> 'st tree_ops \<Rightarrow> 'st \<Rightarrow> ('s, 'st, 'sp) CCoinsViewCache \<Rightarrow> ('s, 'st, 'sp) CCoinsViewCache" where
  "PushAnchor_Sprout V T tree c =
     (case CCoinsViewCache_GetBestAnchor V SPROUT c of
        (currentRoot, c) \<Rightarrow>
          (case AbstractPushAnchor T tree currentRoot (cacheSproutAnchors c) of
             (anchors, hash) \<Rightarrow> c\<lparr>cacheSproutAnchors := anchors, hashSproutAnchor := hash\<rparr>))"

definition PushAnchor_Sapling ::
  "('s, 'st, 'sp) CCoinsView \<Rightarrow> 'sp tree_ops \<Rightarrow> 'sp \<Rightarrow> ('s, 'st, 'sp) CCoinsViewCache \<Rightarrow> ('s, 'st, 'sp) CCoinsViewCache" where
  "PushAnchor_Sapling V T tree c =
     (case CCoinsViewCache_GetBestAnchor V SAPLING c of
        (currentRoot, c) \<Rightarrow>
          (case AbstractPushAnchor T tree currentRoot (cacheSaplingAnchors c) of
             (anchors, hash) \<Rightarrow> c\<lparr>cacheSaplingAnchors := anchors, hashSaplingAnchor := hash\<rparr>))"

definition PopAnchor ::
  "('s, 'st, 'sp) CCoinsView \<Rightarrow> uint256 \<Rightarrow> ShieldedType \<Rightarrow> ('s, 'st, 'sp) CCoinsViewCache \<Rightarrow> ('s, 'st, 'sp) CCoinsViewCache result" where
  "PopAnchor V newrt type c =
     (case CCoinsViewCache_GetBestAnchor V type c of
        (currentRoot, c) \<Rightarrow>
          if currentRoot = newrt then Inr c
          else case type of
            SPROUT \<Rightarrow>
              (case CCoinsViewCache_GetSproutAnchorAt V currentRoot c of
                 (None, c) \<Rightarrow> Inl (AssertFail ''GetSproutAnchorAt(currentRoot, tree)'')
               | (Some _, c) \<Rightarrow>
                   Inr (c\<lparr>cacheSproutAnchors := (cacheSproutAnchors c)(currentRoot \<mapsto>
                          (the (cacheSproutAnchors c currentRoot))\<lparr>ae_entered := False, ae_dirty := True\<rparr>),
                          hashSproutAnchor := newrt\<rparr>))
          | SAPLING \<Rightarrow>
              (case CCoinsViewCache_GetSaplingAnchorAt V currentRoot c of
                 (None, c) \<Rightarrow> Inl (AssertFail ''GetSaplingAnchorAt(currentRoot, tree)'')
               | (Some _, c) \<Rightarrow>
                   Inr (c\<lparr>cacheSaplingAnchors := (cacheSaplingAnchors c)(currentRoot \<mapsto>
                          (the (cacheSaplingAnchors c currentRoot))\<lparr>ae_entered := False, ae_dirty := True\<rparr>),
                          hashSaplingAnchor := newrt\<rparr>)))"

definition set_nullifier :: "bool \<Rightarrow> uint256 \<Rightarrow> (uint256 \<rightharpoonup> CNullifiersCacheEntry) \<Rightarrow> (uint256 \<rightharpoonup> CNullifiersCacheEntry)" where
  "set_nullifier spent nf m = m(nf \<mapsto> \<lparr>ne_entered = spent, ne_dirty = True\<rparr>)"

definition SetNullifiers :: "CTransaction \<Rightarrow> bool \<Rightarrow> ('s, 'st, 'sp) CCoinsViewCache \<Rightarrow> ('s, 'st, 'sp) CCoinsViewCache" where
  "SetNullifiers tx spent c =
     c\<lparr>cacheSproutNullifiers := fold (set_nullifier spent) (concat (map js_nullifiers (vJoinSplit tx))) (cacheSproutNullifiers c),
       cacheSaplingNullifiers := fold (set_nullifier spent) (map sd_nullifier (vShieldedSpend tx)) (cacheSaplingNullifiers c)\<rparr>"

definition CCoinsViewCache_GetCoins ::
  "('s, 'st, 'sp) CCoinsView \<Rightarrow> uint256 \<Rightarrow> ('s, 'st, 'sp) CCoinsViewCache \<Rightarrow> CCoins option \<times> ('s, 'st, 'sp) CCoinsViewCache" where
  "CCoinsViewCache_GetCoins V txid c = (case FetchCoins V txid c of (e, c) \<Rightarrow> (map_option ce_coins e, c))"

definition CCoinsViewCache_HaveCoins ::
  "('s, 'st, 'sp) CCoinsView \<Rightarrow> uint256 \<Rightarrow> ('s, 'st, 'sp) CCoinsViewCache \<Rightarrow> bool \<times> ('s, 'st, 'sp) CCoinsViewCache" where
  "CCoinsViewCache_HaveCoins V txid c =
     (case FetchCoins V txid c of (e, c) \<Rightarrow> (case e of None \<Rightarrow> False | Some e \<Rightarrow> cc_vout (ce_coins e) \<noteq> [], c))"

text \<open>
  A modifier is a reference to an entry of the cache: \<open>ModifyCoins\<close> and \<open>ModifyNewCoins\<close> create it, the caller
  changes the coins through it, and the destructor cleans up. The key of the entry stands for the reference.
\<close>

definition ModifyCoins ::
  "('s, 'st, 'sp) CCoinsView \<Rightarrow> uint256 \<Rightarrow> ('s, 'st, 'sp) CCoinsViewCache \<Rightarrow> ('s, 'st, 'sp) CCoinsViewCache result" where
  "ModifyCoins V txid c =
     (if hasModifier c then Inl (AssertFail ''!hasModifier'')
      else case cacheCoins c txid of
        Some e \<Rightarrow> Inr (c\<lparr>cacheCoins := (cacheCoins c)(txid \<mapsto> e\<lparr>ce_dirty := True\<rparr>), hasModifier := True\<rparr>)
      | None \<Rightarrow>
          (case v_GetCoins V txid (base c) of
             (r, b) \<Rightarrow>
               let e = (case r of None \<Rightarrow> \<lparr>ce_coins = CCoins_Clear, ce_dirty = True, ce_fresh = True\<rparr>
                        | Some coins \<Rightarrow> \<lparr>ce_coins = coins, ce_dirty = True, ce_fresh = IsPruned coins\<rparr>)
               in Inr (c\<lparr>base := b, cacheCoins := (cacheCoins c)(txid \<mapsto> e), hasModifier := True\<rparr>)))"

definition ModifyNewCoins :: "uint256 \<Rightarrow> ('s, 'st, 'sp) CCoinsViewCache \<Rightarrow> ('s, 'st, 'sp) CCoinsViewCache result" where
  "ModifyNewCoins txid c =
     (if hasModifier c then Inl (AssertFail ''!hasModifier'')
      else Inr (c\<lparr>cacheCoins := (cacheCoins c)(txid \<mapsto> \<lparr>ce_coins = CCoins_Clear, ce_dirty = True, ce_fresh = True\<rparr>), hasModifier := True\<rparr>))"

definition modifier_coins :: "uint256 \<Rightarrow> ('s, 'st, 'sp) CCoinsViewCache \<Rightarrow> CCoins" where
  "modifier_coins txid c = ce_coins (the (cacheCoins c txid))"

definition modifier_set :: "uint256 \<Rightarrow> CCoins \<Rightarrow> ('s, 'st, 'sp) CCoinsViewCache \<Rightarrow> ('s, 'st, 'sp) CCoinsViewCache" where
  "modifier_set txid coins c = c\<lparr>cacheCoins := (cacheCoins c)(txid \<mapsto> (the (cacheCoins c txid))\<lparr>ce_coins := coins\<rparr>)\<rparr>"

definition CCoinsModifier_destroy :: "uint256 \<Rightarrow> ('s, 'st, 'sp) CCoinsViewCache \<Rightarrow> ('s, 'st, 'sp) CCoinsViewCache result" where
  "CCoinsModifier_destroy txid c =
     (if \<not> hasModifier c then Inl (AssertFail ''cache.hasModifier'')
      else let e = the (cacheCoins c txid); e = e\<lparr>ce_coins := CCoins_Cleanup (ce_coins e)\<rparr>
           in Inr (c\<lparr>hasModifier := False,
                     cacheCoins := (if ce_fresh e \<and> IsPruned (ce_coins e) then (cacheCoins c)(txid := None)
                                    else (cacheCoins c)(txid \<mapsto> e))\<rparr>))"

definition SetBestBlock :: "uint256 \<Rightarrow> ('s, 'st, 'sp) CCoinsViewCache \<Rightarrow> ('s, 'st, 'sp) CCoinsViewCache" where
  "SetBestBlock hashBlockIn c = c\<lparr>hashBlock := hashBlockIn\<rparr>"

definition Uncache :: "uint256 \<Rightarrow> ('s, 'st, 'sp) CCoinsViewCache \<Rightarrow> ('s, 'st, 'sp) CCoinsViewCache" where
  "Uncache hash c =
     (case cacheCoins c hash of
        Some e \<Rightarrow> (if \<not> ce_dirty e \<and> \<not> ce_fresh e then c\<lparr>cacheCoins := (cacheCoins c)(hash := None)\<rparr> else c)
      | None \<Rightarrow> c)"

section \<open>Writing a cache to its base\<close>

text \<open>
  The loops of \<open>BatchWrite\<close> visit every key of a child's map once and change the entry of the parent at that key
  only, so each is given by what becomes of one entry: \<open>None\<close> is an entry that is missing.
\<close>

definition write_coins :: "CCoinsCacheEntry option \<Rightarrow> CCoinsCacheEntry option \<Rightarrow> CCoinsCacheEntry option" where
  "write_coins child us =
     (case child of
        None \<Rightarrow> us
      | Some it \<Rightarrow>
          if \<not> ce_dirty it then us
          else case us of
            None \<Rightarrow>
              (if \<not> (ce_fresh it \<and> IsPruned (ce_coins it))
               then Some \<lparr>ce_coins = ce_coins it, ce_dirty = True, ce_fresh = ce_fresh it\<rparr> else None)
          | Some itUs \<Rightarrow>
              (if ce_fresh itUs \<and> IsPruned (ce_coins it) then None
               else Some (itUs\<lparr>ce_coins := ce_coins it, ce_dirty := True\<rparr>)))"

definition BatchWriteAnchors :: "'t CAnchorsCacheEntry option \<Rightarrow> 't CAnchorsCacheEntry option \<Rightarrow> 't CAnchorsCacheEntry option" where
  "BatchWriteAnchors child parent =
     (case child of
        None \<Rightarrow> parent
      | Some ch \<Rightarrow>
          if \<not> ae_dirty ch then parent
          else case parent of
            None \<Rightarrow> Some \<lparr>ae_entered = ae_entered ch, ae_tree = ae_tree ch, ae_dirty = True\<rparr>
          | Some p \<Rightarrow> (if ae_entered p \<noteq> ae_entered ch then Some (p\<lparr>ae_entered := ae_entered ch, ae_dirty := True\<rparr>) else Some p))"

definition BatchWriteNullifiers :: "CNullifiersCacheEntry option \<Rightarrow> CNullifiersCacheEntry option \<Rightarrow> CNullifiersCacheEntry option" where
  "BatchWriteNullifiers child parent =
     (case child of
        None \<Rightarrow> parent
      | Some ch \<Rightarrow>
          if \<not> ne_dirty ch then parent
          else case parent of
            None \<Rightarrow> Some \<lparr>ne_entered = ne_entered ch, ne_dirty = True\<rparr>
          | Some p \<Rightarrow> (if ne_entered p \<noteq> ne_entered ch then Some (p\<lparr>ne_entered := ne_entered ch, ne_dirty := True\<rparr>) else Some p))"

definition CCoinsViewCache_BatchWrite ::
  "('st, 'sp) coins_batch \<Rightarrow> ('s, 'st, 'sp) CCoinsViewCache \<Rightarrow> (bool \<times> ('s, 'st, 'sp) CCoinsViewCache) result" where
  "CCoinsViewCache_BatchWrite w c =
     (if hasModifier c then Inl (AssertFail ''!hasModifier'')
      else Inr (True, c\<lparr>cacheCoins := (\<lambda>k. write_coins (mapCoins w k) (cacheCoins c k)),
             cacheSproutAnchors := (\<lambda>k. BatchWriteAnchors (mapSproutAnchors w k) (cacheSproutAnchors c k)),
             cacheSaplingAnchors := (\<lambda>k. BatchWriteAnchors (mapSaplingAnchors w k) (cacheSaplingAnchors c k)),
             cacheSproutNullifiers := (\<lambda>k. BatchWriteNullifiers (mapSproutNullifiers w k) (cacheSproutNullifiers c k)),
             cacheSaplingNullifiers := (\<lambda>k. BatchWriteNullifiers (mapSaplingNullifiers w k) (cacheSaplingNullifiers c k)),
             hashSproutAnchor := bw_hashSproutAnchor w, hashSaplingAnchor := bw_hashSaplingAnchor w, hashBlock := bw_hashBlock w\<rparr>))"

definition cache_batch :: "('s, 'st, 'sp) CCoinsViewCache \<Rightarrow> ('st, 'sp) coins_batch" where
  "cache_batch c =
     \<lparr>mapCoins = cacheCoins c, bw_hashBlock = hashBlock c, bw_hashSproutAnchor = hashSproutAnchor c,
      bw_hashSaplingAnchor = hashSaplingAnchor c, mapSproutAnchors = cacheSproutAnchors c, mapSaplingAnchors = cacheSaplingAnchors c,
      mapSproutNullifiers = cacheSproutNullifiers c, mapSaplingNullifiers = cacheSaplingNullifiers c\<rparr>"

definition Flush :: "('s, 'st, 'sp) CCoinsView \<Rightarrow> ('s, 'st, 'sp) CCoinsViewCache \<Rightarrow> (bool \<times> ('s, 'st, 'sp) CCoinsViewCache) result" where
  "Flush V c =
     (case v_BatchWrite V (cache_batch c) (base c) of
        Inl e \<Rightarrow> Inl e
      | Inr (fOk, b) \<Rightarrow>
          Inr (fOk, c\<lparr>base := b, cacheCoins := Map.empty, cacheSproutAnchors := Map.empty, cacheSaplingAnchors := Map.empty,
                      cacheSproutNullifiers := Map.empty, cacheSaplingNullifiers := Map.empty\<rparr>))"

definition CCoinsViewCache_view :: "('s, 'st, 'sp) CCoinsView \<Rightarrow> (('s, 'st, 'sp) CCoinsViewCache, 'st, 'sp) CCoinsView" where
  "CCoinsViewCache_view V =
     \<lparr>v_GetSproutAnchorAt = CCoinsViewCache_GetSproutAnchorAt V, v_GetSaplingAnchorAt = CCoinsViewCache_GetSaplingAnchorAt V,
      v_GetNullifier = CCoinsViewCache_GetNullifier V, v_GetCoins = CCoinsViewCache_GetCoins V, v_HaveCoins = CCoinsViewCache_HaveCoins V,
      v_GetBestBlock = CCoinsViewCache_GetBestBlock V, v_GetBestAnchor = CCoinsViewCache_GetBestAnchor V,
      v_BatchWrite = CCoinsViewCache_BatchWrite\<rparr>"

section \<open>The database\<close>

text \<open>
  The key-value store behind \<open>CCoinsViewDB\<close>, one map for each prefix of the keys. A nullifier is in the store when
  its key is.
\<close>

record ('st, 'sp) CCoinsViewDB =
  db_coins :: "uint256 \<rightharpoonup> CCoins"
  db_sprout_anchors :: "uint256 \<rightharpoonup> 'st"
  db_sapling_anchors :: "uint256 \<rightharpoonup> 'sp"
  db_sprout_nullifiers :: "uint256 \<Rightarrow> bool"
  db_sapling_nullifiers :: "uint256 \<Rightarrow> bool"
  db_best_block :: "uint256 option"
  db_best_sprout_anchor :: "uint256 option"
  db_best_sapling_anchor :: "uint256 option"

definition db_GetAnchorAt :: "'t tree_ops \<Rightarrow> (uint256 \<rightharpoonup> 't) \<Rightarrow> uint256 \<Rightarrow> 't option" where
  "db_GetAnchorAt T store rt = (if rt = tr_empty_root T then Some (tr_new T) else store rt)"

definition db_GetNullifier :: "uint256 \<Rightarrow> ShieldedType \<Rightarrow> ('st, 'sp) CCoinsViewDB \<Rightarrow> bool" where
  "db_GetNullifier nf type db = (case type of SPROUT \<Rightarrow> db_sprout_nullifiers db nf | SAPLING \<Rightarrow> db_sapling_nullifiers db nf)"

definition db_GetBestAnchor :: "'st tree_ops \<Rightarrow> 'sp tree_ops \<Rightarrow> ShieldedType \<Rightarrow> ('st, 'sp) CCoinsViewDB \<Rightarrow> uint256" where
  "db_GetBestAnchor ST SP type db =
     (case type of
        SPROUT \<Rightarrow> (case db_best_sprout_anchor db of None \<Rightarrow> tr_empty_root ST | Some h \<Rightarrow> h)
      | SAPLING \<Rightarrow> (case db_best_sapling_anchor db of None \<Rightarrow> tr_empty_root SP | Some h \<Rightarrow> h))"

definition db_write_anchor :: "'t tree_ops \<Rightarrow> uint256 \<Rightarrow> 't CAnchorsCacheEntry option \<Rightarrow> 't option \<Rightarrow> 't option" where
  "db_write_anchor T rt child stored =
     (case child of
        None \<Rightarrow> stored
      | Some it \<Rightarrow> (if \<not> ae_dirty it then stored else if \<not> ae_entered it then None
                     else if rt \<noteq> tr_empty_root T then Some (ae_tree it) else stored))"

definition db_write_nullifier :: "CNullifiersCacheEntry option \<Rightarrow> bool \<Rightarrow> bool" where
  "db_write_nullifier child stored = (case child of None \<Rightarrow> stored | Some it \<Rightarrow> (if ne_dirty it then ne_entered it else stored))"

definition CCoinsViewDB_BatchWrite ::
  "'st tree_ops \<Rightarrow> 'sp tree_ops \<Rightarrow> ('st, 'sp) coins_batch \<Rightarrow> ('st, 'sp) CCoinsViewDB \<Rightarrow> (bool \<times> ('st, 'sp) CCoinsViewDB) result" where
  "CCoinsViewDB_BatchWrite ST SP w db =
     Inr (True, \<lparr>db_coins = (\<lambda>k. case mapCoins w k of
                   None \<Rightarrow> db_coins db k
                 | Some it \<Rightarrow> (if \<not> ce_dirty it then db_coins db k else if IsPruned (ce_coins it) then None else Some (ce_coins it))),
       db_sprout_anchors = (\<lambda>k. db_write_anchor ST k (mapSproutAnchors w k) (db_sprout_anchors db k)),
       db_sapling_anchors = (\<lambda>k. db_write_anchor SP k (mapSaplingAnchors w k) (db_sapling_anchors db k)),
       db_sprout_nullifiers = (\<lambda>k. db_write_nullifier (mapSproutNullifiers w k) (db_sprout_nullifiers db k)),
       db_sapling_nullifiers = (\<lambda>k. db_write_nullifier (mapSaplingNullifiers w k) (db_sapling_nullifiers db k)),
       db_best_block = (if bw_hashBlock w \<noteq> null256 then Some (bw_hashBlock w) else db_best_block db),
       db_best_sprout_anchor = (if bw_hashSproutAnchor w \<noteq> null256 then Some (bw_hashSproutAnchor w) else db_best_sprout_anchor db),
       db_best_sapling_anchor = (if bw_hashSaplingAnchor w \<noteq> null256 then Some (bw_hashSaplingAnchor w) else db_best_sapling_anchor db)\<rparr>)"

definition CCoinsViewDB_view :: "'st tree_ops \<Rightarrow> 'sp tree_ops \<Rightarrow> (('st, 'sp) CCoinsViewDB, 'st, 'sp) CCoinsView" where
  "CCoinsViewDB_view ST SP =
     \<lparr>v_GetSproutAnchorAt = (\<lambda>rt db. (db_GetAnchorAt ST (db_sprout_anchors db) rt, db)),
      v_GetSaplingAnchorAt = (\<lambda>rt db. (db_GetAnchorAt SP (db_sapling_anchors db) rt, db)),
      v_GetNullifier = (\<lambda>nf type db. (db_GetNullifier nf type db, db)),
      v_GetCoins = (\<lambda>txid db. (db_coins db txid, db)),
      v_HaveCoins = (\<lambda>txid db. (db_coins db txid \<noteq> None, db)),
      v_GetBestBlock = (\<lambda>db. (case db_best_block db of None \<Rightarrow> null256 | Some h \<Rightarrow> h, db)),
      v_GetBestAnchor = (\<lambda>type db. (db_GetBestAnchor ST SP type db, db)),
      v_BatchWrite = CCoinsViewDB_BatchWrite ST SP\<rparr>"

section \<open>What a view promises\<close>

text \<open>
  The state a view stands for: coins that are not fully spent, anchors, nullifiers, the best block and the best
  anchors.
\<close>

record ('st, 'sp) utxo =
  u_coins :: "uint256 \<Rightarrow> CCoins option"
  u_sprout :: "uint256 \<Rightarrow> 'st option"
  u_sapling :: "uint256 \<Rightarrow> 'sp option"
  u_nullifier :: "ShieldedType \<Rightarrow> uint256 \<Rightarrow> bool"
  u_block :: uint256
  u_anchor :: "ShieldedType \<Rightarrow> uint256"

definition live :: "CCoins option \<Rightarrow> CCoins option" where
  "live r = (case r of None \<Rightarrow> None | Some c \<Rightarrow> if IsPruned c then None else Some c)"

lemma live_simps [simp]: "live None = None" "live (Some c) = (if IsPruned c then None else Some c)"
  by (simp_all add: live_def)

definition anchor_of :: "'t CAnchorsCacheEntry \<Rightarrow> 't option" where
  "anchor_of e = (if ae_entered e then Some (ae_tree e) else None)"

text \<open>The effect of a batch on that state, and when a batch fits it.\<close>

definition apply_batch :: "('st, 'sp) coins_batch \<Rightarrow> ('st, 'sp) utxo \<Rightarrow> ('st, 'sp) utxo" where
  "apply_batch w u =
     \<lparr>u_coins = (\<lambda>k. case mapCoins w k of None \<Rightarrow> u_coins u k | Some e \<Rightarrow> live (Some (ce_coins e))),
      u_sprout = (\<lambda>k. case mapSproutAnchors w k of None \<Rightarrow> u_sprout u k | Some e \<Rightarrow> anchor_of e),
      u_sapling = (\<lambda>k. case mapSaplingAnchors w k of None \<Rightarrow> u_sapling u k | Some e \<Rightarrow> anchor_of e),
      u_nullifier = (\<lambda>t k. case (case t of SPROUT \<Rightarrow> mapSproutNullifiers w k | SAPLING \<Rightarrow> mapSaplingNullifiers w k) of
                       None \<Rightarrow> u_nullifier u t k | Some e \<Rightarrow> ne_entered e),
      u_block = (if bw_hashBlock w = null256 then u_block u else bw_hashBlock w),
      u_anchor = (\<lambda>t. case t of
                    SPROUT \<Rightarrow> (if bw_hashSproutAnchor w = null256 then u_anchor u SPROUT else bw_hashSproutAnchor w)
                  | SAPLING \<Rightarrow> (if bw_hashSaplingAnchor w = null256 then u_anchor u SAPLING else bw_hashSaplingAnchor w))\<rparr>"

definition coins_fit :: "CCoins option \<Rightarrow> CCoinsCacheEntry option \<Rightarrow> bool" where
  "coins_fit below child \<longleftrightarrow>
     (case child of None \<Rightarrow> True
      | Some e \<Rightarrow> (ce_fresh e \<longrightarrow> below = None) \<and> (\<not> ce_dirty e \<longrightarrow> live (Some (ce_coins e)) = below))"

definition anchor_fits :: "'t \<Rightarrow> bool \<Rightarrow> 't option \<Rightarrow> 't CAnchorsCacheEntry option \<Rightarrow> bool" where
  "anchor_fits tree permanent below child \<longleftrightarrow>
     (case child of None \<Rightarrow> True
      | Some e \<Rightarrow> ae_tree e = tree \<and> (permanent \<longrightarrow> ae_entered e) \<and> (\<not> ae_dirty e \<longrightarrow> anchor_of e = below))"

definition nullifier_fits :: "bool \<Rightarrow> CNullifiersCacheEntry option \<Rightarrow> bool" where
  "nullifier_fits below child \<longleftrightarrow> (case child of None \<Rightarrow> True | Some e \<Rightarrow> \<not> ne_dirty e \<longrightarrow> ne_entered e = below)"

text \<open>
  Trees are determined by their roots, \<open>TS\<close> and \<open>TP\<close> for the two kinds; the empty roots \<open>ES\<close> and \<open>EP\<close> are never removed.
\<close>

definition batch_fits ::
  "(uint256 \<Rightarrow> 'st) \<Rightarrow> (uint256 \<Rightarrow> 'sp) \<Rightarrow> uint256 \<Rightarrow> uint256 \<Rightarrow> ('st, 'sp) utxo \<Rightarrow> ('st, 'sp) coins_batch \<Rightarrow> bool" where
  "batch_fits TS TP ES EP u w \<longleftrightarrow>
     (\<forall>k. coins_fit (u_coins u k) (mapCoins w k) \<and>
          anchor_fits (TS k) (k = ES) (u_sprout u k) (mapSproutAnchors w k) \<and>
          anchor_fits (TP k) (k = EP) (u_sapling u k) (mapSaplingAnchors w k) \<and>
          nullifier_fits (u_nullifier u SPROUT k) (mapSproutNullifiers w k) \<and>
          nullifier_fits (u_nullifier u SAPLING k) (mapSaplingNullifiers w k))"

definition batch_loaded :: "('st, 'sp) coins_batch \<Rightarrow> bool" where
  "batch_loaded w \<longleftrightarrow> bw_hashBlock w \<noteq> null256 \<and> bw_hashSproutAnchor w \<noteq> null256 \<and> bw_hashSaplingAnchor w \<noteq> null256"

definition trees_fit :: "(uint256 \<Rightarrow> 'st) \<Rightarrow> (uint256 \<Rightarrow> 'sp) \<Rightarrow> ('st, 'sp) utxo \<Rightarrow> bool" where
  "trees_fit TS TP u \<longleftrightarrow> (\<forall>k. (u_sprout u k = None \<or> u_sprout u k = Some (TS k)) \<and> (u_sapling u k = None \<or> u_sapling u k = Some (TP k)))"

text \<open>
  The contract of \<open>CCoinsView\<close>: reading gives the value of the state and does not change it, and writing a batch
  that fits applies it.
\<close>

locale coins_view =
  fixes V :: "('s, 'st, 'sp) CCoinsView" and okv :: "'s \<Rightarrow> bool" and absv :: "'s \<Rightarrow> ('st, 'sp) utxo"
    and TS :: "uint256 \<Rightarrow> 'st" and TP :: "uint256 \<Rightarrow> 'sp" and ES EP :: uint256
  assumes GetCoins: "okv s \<Longrightarrow> v_GetCoins V k s = (r, s') \<Longrightarrow> live r = u_coins (absv s) k \<and> okv s' \<and> absv s' = absv s"
    and GetSproutAnchorAt: "okv s \<Longrightarrow> v_GetSproutAnchorAt V k s = (x, s') \<Longrightarrow> x = u_sprout (absv s) k \<and> okv s' \<and> absv s' = absv s"
    and GetSaplingAnchorAt: "okv s \<Longrightarrow> v_GetSaplingAnchorAt V k s = (y, s') \<Longrightarrow> y = u_sapling (absv s) k \<and> okv s' \<and> absv s' = absv s"
    and GetNullifier: "okv s \<Longrightarrow> v_GetNullifier V k t s = (b, s') \<Longrightarrow> b = u_nullifier (absv s) t k \<and> okv s' \<and> absv s' = absv s"
    and GetBestBlock: "okv s \<Longrightarrow> v_GetBestBlock V s = (h, s') \<Longrightarrow> h = u_block (absv s) \<and> okv s' \<and> absv s' = absv s"
    and GetBestAnchor: "okv s \<Longrightarrow> v_GetBestAnchor V t s = (h, s') \<Longrightarrow> h = u_anchor (absv s) t \<and> okv s' \<and> absv s' = absv s"
    and HaveCoins: "okv s \<Longrightarrow> v_HaveCoins V k s = (b, s') \<Longrightarrow> (u_coins (absv s) k \<noteq> None \<longrightarrow> b) \<and> okv s' \<and> absv s' = absv s"
    and trees: "okv s \<Longrightarrow> trees_fit TS TP (absv s)"
    and BatchWrite: "okv s \<Longrightarrow> batch_fits TS TP ES EP (absv s) w \<Longrightarrow> batch_loaded w \<Longrightarrow>
      \<exists>s'. v_BatchWrite V w s = Inr (True, s') \<and> okv s' \<and> absv s' = apply_batch w (absv s)"

text \<open>A cache stands for the state of its base with its own entries applied.\<close>

definition cache_abs :: "('s \<Rightarrow> ('st, 'sp) utxo) \<Rightarrow> ('s, 'st, 'sp) CCoinsViewCache \<Rightarrow> ('st, 'sp) utxo" where
  "cache_abs absv c = apply_batch (cache_batch c) (absv (base c))"

definition cache_inv ::
  "(uint256 \<Rightarrow> 'st) \<Rightarrow> (uint256 \<Rightarrow> 'sp) \<Rightarrow> uint256 \<Rightarrow> uint256 \<Rightarrow> ('s \<Rightarrow> bool) \<Rightarrow> ('s \<Rightarrow> ('st, 'sp) utxo) \<Rightarrow>
   ('s, 'st, 'sp) CCoinsViewCache \<Rightarrow> bool" where
  "cache_inv TS TP ES EP okv absv c \<longleftrightarrow> okv (base c) \<and> \<not> hasModifier c \<and> batch_fits TS TP ES EP (absv (base c)) (cache_batch c)"

section \<open>A cache keeps the contract of its base\<close>

lemma coins_fit_simps [simp]:
  "coins_fit u None" "coins_fit u (Some e) \<longleftrightarrow> (ce_fresh e \<longrightarrow> u = None) \<and> (\<not> ce_dirty e \<longrightarrow> live (Some (ce_coins e)) = u)"
  by (simp_all add: coins_fit_def)

lemma anchor_fits_simps [simp]:
  "anchor_fits t p u None"
  "anchor_fits t p u (Some e) \<longleftrightarrow> ae_tree e = t \<and> (p \<longrightarrow> ae_entered e) \<and> (\<not> ae_dirty e \<longrightarrow> anchor_of e = u)"
  by (simp_all add: anchor_fits_def)

lemma nullifier_fits_simps [simp]:
  "nullifier_fits u None" "nullifier_fits u (Some e) \<longleftrightarrow> (\<not> ne_dirty e \<longrightarrow> ne_entered e = u)"
  by (simp_all add: nullifier_fits_def)

text \<open>One entry of a batch, written to an entry of a cache above a value.\<close>

lemma write_coins_fits:
  assumes "coins_fit u us" "coins_fit (case us of None \<Rightarrow> u | Some e \<Rightarrow> live (Some (ce_coins e))) child"
  shows "coins_fit u (write_coins child us)"
    "(case write_coins child us of None \<Rightarrow> u | Some e \<Rightarrow> live (Some (ce_coins e))) =
     (case child of None \<Rightarrow> (case us of None \<Rightarrow> u | Some e \<Rightarrow> live (Some (ce_coins e))) | Some e \<Rightarrow> live (Some (ce_coins e)))"
  using assms by (auto simp: write_coins_def split: option.splits if_splits)

lemma BatchWriteAnchors_fits:
  assumes "anchor_fits t p u us" "anchor_fits t p (case us of None \<Rightarrow> u | Some e \<Rightarrow> anchor_of e) child"
  shows "anchor_fits t p u (BatchWriteAnchors child us)"
    "(case BatchWriteAnchors child us of None \<Rightarrow> u | Some e \<Rightarrow> anchor_of e) =
     (case child of None \<Rightarrow> (case us of None \<Rightarrow> u | Some e \<Rightarrow> anchor_of e) | Some e \<Rightarrow> anchor_of e)"
  using assms by (auto simp: BatchWriteAnchors_def anchor_of_def split: option.splits if_splits)

lemma BatchWriteNullifiers_fits:
  assumes "nullifier_fits u us" "nullifier_fits (case us of None \<Rightarrow> u | Some e \<Rightarrow> ne_entered e) child"
  shows "nullifier_fits u (BatchWriteNullifiers child us)"
    "(case BatchWriteNullifiers child us of None \<Rightarrow> u | Some e \<Rightarrow> ne_entered e) =
     (case child of None \<Rightarrow> (case us of None \<Rightarrow> u | Some e \<Rightarrow> ne_entered e) | Some e \<Rightarrow> ne_entered e)"
  using assms by (auto simp: BatchWriteNullifiers_def split: option.splits if_splits)

lemma utxo_eqI:
  assumes "\<And>k. u_coins u k = u_coins v k" "\<And>k. u_sprout u k = u_sprout v k" "\<And>k. u_sapling u k = u_sapling v k"
    "\<And>k. u_nullifier u SPROUT k = u_nullifier v SPROUT k" "\<And>k. u_nullifier u SAPLING k = u_nullifier v SAPLING k"
    "u_block u = u_block v" "u_anchor u SPROUT = u_anchor v SPROUT" "u_anchor u SAPLING = u_anchor v SAPLING"
  shows "u = (v :: ('st, 'sp) utxo)"
proof (rule utxo.equality)
  show "u_nullifier u = u_nullifier v" by (intro ext) (metis (full_types) ShieldedType.exhaust assms(4,5))
  show "u_anchor u = u_anchor v" by (intro ext) (metis (full_types) ShieldedType.exhaust assms(7,8))
qed (use assms in \<open>auto simp: fun_eq_iff\<close>)

lemma apply_batch_sel [simp]:
  "u_coins (apply_batch w u) k = (case mapCoins w k of None \<Rightarrow> u_coins u k | Some e \<Rightarrow> live (Some (ce_coins e)))"
  "u_sprout (apply_batch w u) k = (case mapSproutAnchors w k of None \<Rightarrow> u_sprout u k | Some e \<Rightarrow> anchor_of e)"
  "u_sapling (apply_batch w u) k = (case mapSaplingAnchors w k of None \<Rightarrow> u_sapling u k | Some e \<Rightarrow> anchor_of e)"
  "u_nullifier (apply_batch w u) SPROUT k = (case mapSproutNullifiers w k of None \<Rightarrow> u_nullifier u SPROUT k | Some e \<Rightarrow> ne_entered e)"
  "u_nullifier (apply_batch w u) SAPLING k = (case mapSaplingNullifiers w k of None \<Rightarrow> u_nullifier u SAPLING k | Some e \<Rightarrow> ne_entered e)"
  "u_block (apply_batch w u) = (if bw_hashBlock w = null256 then u_block u else bw_hashBlock w)"
  "u_anchor (apply_batch w u) SPROUT = (if bw_hashSproutAnchor w = null256 then u_anchor u SPROUT else bw_hashSproutAnchor w)"
  "u_anchor (apply_batch w u) SAPLING = (if bw_hashSaplingAnchor w = null256 then u_anchor u SAPLING else bw_hashSaplingAnchor w)"
  by (simp_all add: apply_batch_def)

lemma cache_batch_sel [simp]:
  "mapCoins (cache_batch c) = cacheCoins c" "mapSproutAnchors (cache_batch c) = cacheSproutAnchors c"
  "mapSaplingAnchors (cache_batch c) = cacheSaplingAnchors c" "mapSproutNullifiers (cache_batch c) = cacheSproutNullifiers c"
  "mapSaplingNullifiers (cache_batch c) = cacheSaplingNullifiers c" "bw_hashBlock (cache_batch c) = hashBlock c"
  "bw_hashSproutAnchor (cache_batch c) = hashSproutAnchor c" "bw_hashSaplingAnchor (cache_batch c) = hashSaplingAnchor c"
  by (simp_all add: cache_batch_def)

lemma cache_abs_sel [simp]:
  "u_coins (cache_abs absv c) k = (case cacheCoins c k of None \<Rightarrow> u_coins (absv (base c)) k | Some e \<Rightarrow> live (Some (ce_coins e)))"
  "u_sprout (cache_abs absv c) k = (case cacheSproutAnchors c k of None \<Rightarrow> u_sprout (absv (base c)) k | Some e \<Rightarrow> anchor_of e)"
  "u_sapling (cache_abs absv c) k = (case cacheSaplingAnchors c k of None \<Rightarrow> u_sapling (absv (base c)) k | Some e \<Rightarrow> anchor_of e)"
  "u_nullifier (cache_abs absv c) SPROUT k = (case cacheSproutNullifiers c k of None \<Rightarrow> u_nullifier (absv (base c)) SPROUT k | Some e \<Rightarrow> ne_entered e)"
  "u_nullifier (cache_abs absv c) SAPLING k = (case cacheSaplingNullifiers c k of None \<Rightarrow> u_nullifier (absv (base c)) SAPLING k | Some e \<Rightarrow> ne_entered e)"
  "u_block (cache_abs absv c) = (if hashBlock c = null256 then u_block (absv (base c)) else hashBlock c)"
  "u_anchor (cache_abs absv c) SPROUT = (if hashSproutAnchor c = null256 then u_anchor (absv (base c)) SPROUT else hashSproutAnchor c)"
  "u_anchor (cache_abs absv c) SAPLING = (if hashSaplingAnchor c = null256 then u_anchor (absv (base c)) SAPLING else hashSaplingAnchor c)"
  by (simp_all add: cache_abs_def)

lemma cache_invD:
  assumes "cache_inv TS TP ES EP okv absv c"
  shows "okv (base c)" "\<not> hasModifier c" "coins_fit (u_coins (absv (base c)) k) (cacheCoins c k)"
    "anchor_fits (TS k) (k = ES) (u_sprout (absv (base c)) k) (cacheSproutAnchors c k)"
    "anchor_fits (TP k) (k = EP) (u_sapling (absv (base c)) k) (cacheSaplingAnchors c k)"
    "nullifier_fits (u_nullifier (absv (base c)) SPROUT k) (cacheSproutNullifiers c k)"
    "nullifier_fits (u_nullifier (absv (base c)) SAPLING k) (cacheSaplingNullifiers c k)"
  using assms by (auto simp: cache_inv_def batch_fits_def)

lemma cache_invI:
  assumes "okv (base c)" "\<not> hasModifier c" "\<And>k. coins_fit (u_coins (absv (base c)) k) (cacheCoins c k)"
    "\<And>k. anchor_fits (TS k) (k = ES) (u_sprout (absv (base c)) k) (cacheSproutAnchors c k)"
    "\<And>k. anchor_fits (TP k) (k = EP) (u_sapling (absv (base c)) k) (cacheSaplingAnchors c k)"
    "\<And>k. nullifier_fits (u_nullifier (absv (base c)) SPROUT k) (cacheSproutNullifiers c k)"
    "\<And>k. nullifier_fits (u_nullifier (absv (base c)) SAPLING k) (cacheSaplingNullifiers c k)"
  shows "cache_inv TS TP ES EP okv absv c"
  using assms by (auto simp: cache_inv_def batch_fits_def)

context coins_view
begin

lemma cache_BatchWrite:
  assumes "cache_inv TS TP ES EP okv absv c" "batch_fits TS TP ES EP (cache_abs absv c) w" "batch_loaded w"
  shows "\<exists>c'. CCoinsViewCache_BatchWrite w c = Inr (True, c') \<and> cache_inv TS TP ES EP okv absv c' \<and>
    cache_abs absv c' = apply_batch w (cache_abs absv c)"
proof -
  note d = cache_invD [OF assms(1)]
  obtain c' where c': "CCoinsViewCache_BatchWrite w c = Inr (True, c')" using d(2) by (simp add: CCoinsViewCache_BatchWrite_def)
  have fits: "coins_fit (u_coins (cache_abs absv c) k) (mapCoins w k)"
    "anchor_fits (TS k) (k = ES) (u_sprout (cache_abs absv c) k) (mapSproutAnchors w k)"
    "anchor_fits (TP k) (k = EP) (u_sapling (cache_abs absv c) k) (mapSaplingAnchors w k)"
    "nullifier_fits (u_nullifier (cache_abs absv c) SPROUT k) (mapSproutNullifiers w k)"
    "nullifier_fits (u_nullifier (cache_abs absv c) SAPLING k) (mapSaplingNullifiers w k)" for k
    using assms(2) by (simp_all only: batch_fits_def)
  have sel: "cacheCoins c' k = write_coins (mapCoins w k) (cacheCoins c k)" "base c' = base c" "\<not> hasModifier c'"
    "cacheSproutAnchors c' k = BatchWriteAnchors (mapSproutAnchors w k) (cacheSproutAnchors c k)"
    "cacheSaplingAnchors c' k = BatchWriteAnchors (mapSaplingAnchors w k) (cacheSaplingAnchors c k)"
    "cacheSproutNullifiers c' k = BatchWriteNullifiers (mapSproutNullifiers w k) (cacheSproutNullifiers c k)"
    "cacheSaplingNullifiers c' k = BatchWriteNullifiers (mapSaplingNullifiers w k) (cacheSaplingNullifiers c k)"
    "hashBlock c' = bw_hashBlock w" "hashSproutAnchor c' = bw_hashSproutAnchor w" "hashSaplingAnchor c' = bw_hashSaplingAnchor w" for k
    using c' d(2) by (auto simp: CCoinsViewCache_BatchWrite_def)
  note wr = write_coins_fits [OF d(3) fits(1) [simplified]] BatchWriteAnchors_fits [OF d(4) fits(2) [simplified]]
    BatchWriteAnchors_fits [OF d(5) fits(3) [simplified]] BatchWriteNullifiers_fits [OF d(6) fits(4) [simplified]]
    BatchWriteNullifiers_fits [OF d(7) fits(5) [simplified]]
  have "cache_inv TS TP ES EP okv absv c'"
    by (rule cache_invI) (simp_all only: sel d(1) wr simp_thms)
  moreover have "cache_abs absv c' = apply_batch w (cache_abs absv c)"
    using assms(3) by (intro utxo_eqI) (simp_all only: cache_abs_sel apply_batch_sel sel wr batch_loaded_def if_False simp_thms)
  ultimately show ?thesis using c' by blast
qed

end

context coins_view
begin

abbreviation cinv :: "('s, 'st, 'sp) CCoinsViewCache \<Rightarrow> bool" where "cinv \<equiv> cache_inv TS TP ES EP okv absv"
abbreviation cabs :: "('s, 'st, 'sp) CCoinsViewCache \<Rightarrow> ('st, 'sp) utxo" where "cabs \<equiv> cache_abs absv"

lemma rebase: "cinv c \<Longrightarrow> okv b \<Longrightarrow> absv b = absv (base c) \<Longrightarrow> cinv (c\<lparr>base := b\<rparr>) \<and> cabs (c\<lparr>base := b\<rparr>) = cabs c"
  by (auto intro!: cache_invI utxo_eqI dest: cache_invD split: option.split)

lemma FetchCoins_law:
  assumes "cinv c" "FetchCoins V k c = (e, c')"
  shows "live (map_option ce_coins e) = u_coins (cabs c) k \<and> cinv c' \<and> cabs c' = cabs c \<and> cacheCoins c' k = e"
proof (cases "cacheCoins c k")
  case (Some a)
  then have "e = Some a" "c' = c" using assms(2) by (simp_all add: FetchCoins_def)
  then show ?thesis using assms(1) Some by simp
next
  case None
  note d = cache_invD [OF assms(1)]
  obtain r b where r: "v_GetCoins V k (base c) = (r, b)" by fastforce
  note g = GetCoins [OF d(1) r]
  show ?thesis
  proof (cases r)
    case None': None
    then have c': "e = None" "c' = c\<lparr>base := b\<rparr>" using assms(2) None r by (simp_all add: FetchCoins_def)
    then show ?thesis using rebase [OF assms(1), of b] g None None' by simp
  next
    case (Some coins)
    let ?e = "\<lparr>ce_coins = coins, ce_dirty = False, ce_fresh = IsPruned coins\<rparr>"
    have c': "e = Some ?e" "c' = c\<lparr>base := b, cacheCoins := (cacheCoins c)(k \<mapsto> ?e)\<rparr>"
      using assms(2) None r Some by (auto simp: FetchCoins_def Let_def)
    have u: "u_coins (absv (base c)) k = live (Some coins)" using g Some by simp
    have "cinv c'" unfolding c' using d g u by (intro cache_invI) auto
    moreover have "cabs c' = cabs c" unfolding c' using g u None by (intro utxo_eqI) (auto simp del: live_simps split: option.split)
    ultimately show ?thesis using c' u None by (simp del: live_simps)
  qed
qed

lemma Sprout_law:
  assumes "cinv c" "CCoinsViewCache_GetSproutAnchorAt V k c = (x, c')"
  shows "x = u_sprout (cabs c) k \<and> cinv c' \<and> cabs c' = cabs c \<and> (x \<noteq> None \<longrightarrow> (\<exists>e. cacheSproutAnchors c' k = Some e))"
proof (cases "cacheSproutAnchors c k")
  case (Some a)
  then have "x = anchor_of a" "c' = c" using assms(2) by (auto simp: CCoinsViewCache_GetSproutAnchorAt_def anchor_of_def)
  then show ?thesis using assms(1) Some by simp
next
  case None
  note d = cache_invD [OF assms(1)]
  obtain r b where r: "v_GetSproutAnchorAt V k (base c) = (r, b)" by fastforce
  note g = GetSproutAnchorAt [OF d(1) r]
  show ?thesis
  proof (cases r)
    case None': None
    then have c': "x = None" "c' = c\<lparr>base := b\<rparr>" using assms(2) None r by (simp_all add: CCoinsViewCache_GetSproutAnchorAt_def)
    then show ?thesis using rebase [OF assms(1), of b] g None None' by simp
  next
    case (Some tree)
    let ?e = "\<lparr>ae_entered = True, ae_tree = tree, ae_dirty = False\<rparr>"
    have c': "x = Some tree" "c' = c\<lparr>base := b, cacheSproutAnchors := (cacheSproutAnchors c)(k \<mapsto> ?e)\<rparr>"
      using assms(2) None r Some by (auto simp: CCoinsViewCache_GetSproutAnchorAt_def)
    have "tree = TS k" using trees [OF d(1)] g Some unfolding trees_fit_def by (metis option.distinct(1) option.inject)
    then have "cinv c'" unfolding c' using d g Some by (intro cache_invI) (auto simp: anchor_of_def)
    moreover have "cabs c' = cabs c" unfolding c' using g Some None by (intro utxo_eqI) (auto simp: anchor_of_def split: option.split)
    ultimately show ?thesis using c' g None Some by simp
  qed
qed

lemma Sapling_law:
  assumes "cinv c" "CCoinsViewCache_GetSaplingAnchorAt V k c = (x, c')"
  shows "x = u_sapling (cabs c) k \<and> cinv c' \<and> cabs c' = cabs c \<and> (x \<noteq> None \<longrightarrow> (\<exists>e. cacheSaplingAnchors c' k = Some e))"
proof (cases "cacheSaplingAnchors c k")
  case (Some a)
  then have "x = anchor_of a" "c' = c" using assms(2) by (auto simp: CCoinsViewCache_GetSaplingAnchorAt_def anchor_of_def)
  then show ?thesis using assms(1) Some by simp
next
  case None
  note d = cache_invD [OF assms(1)]
  obtain r b where r: "v_GetSaplingAnchorAt V k (base c) = (r, b)" by fastforce
  note g = GetSaplingAnchorAt [OF d(1) r]
  show ?thesis
  proof (cases r)
    case None': None
    then have c': "x = None" "c' = c\<lparr>base := b\<rparr>" using assms(2) None r by (simp_all add: CCoinsViewCache_GetSaplingAnchorAt_def)
    then show ?thesis using rebase [OF assms(1), of b] g None None' by simp
  next
    case (Some tree)
    let ?e = "\<lparr>ae_entered = True, ae_tree = tree, ae_dirty = False\<rparr>"
    have c': "x = Some tree" "c' = c\<lparr>base := b, cacheSaplingAnchors := (cacheSaplingAnchors c)(k \<mapsto> ?e)\<rparr>"
      using assms(2) None r Some by (auto simp: CCoinsViewCache_GetSaplingAnchorAt_def)
    have "tree = TP k" using trees [OF d(1)] g Some unfolding trees_fit_def by (metis option.distinct(1) option.inject)
    then have "cinv c'" unfolding c' using d g Some by (intro cache_invI) (auto simp: anchor_of_def)
    moreover have "cabs c' = cabs c" unfolding c' using g Some None by (intro utxo_eqI) (auto simp: anchor_of_def split: option.split)
    ultimately show ?thesis using c' g None Some by simp
  qed
qed

lemma Nullifier_law:
  assumes "cinv c" "CCoinsViewCache_GetNullifier V k t c = (x, c')"
  shows "x = u_nullifier (cabs c) t k \<and> cinv c' \<and> cabs c' = cabs c"
proof -
  note d = cache_invD [OF assms(1)]
  obtain r b where r: "v_GetNullifier V k t (base c) = (r, b)" by fastforce
  note g = GetNullifier [OF d(1) r]
  let ?e = "\<lparr>ne_entered = r, ne_dirty = False\<rparr>"
  show ?thesis
  proof (cases t)
    case SPROUT
    show ?thesis
    proof (cases "cacheSproutNullifiers c k")
      case None
      then have c': "x = r" "c' = c\<lparr>base := b, cacheSproutNullifiers := (cacheSproutNullifiers c)(k \<mapsto> ?e)\<rparr>"
        using assms(2) r SPROUT by (auto simp: CCoinsViewCache_GetNullifier_def Let_def)
      have "cinv c'" unfolding c' using d g SPROUT by (intro cache_invI) auto
      moreover have "cabs c' = cabs c" unfolding c' using g None SPROUT by (intro utxo_eqI) (auto split: option.split)
      ultimately show ?thesis using c' g None SPROUT by simp
    qed (use assms SPROUT in \<open>auto simp: CCoinsViewCache_GetNullifier_def\<close>)
  next
    case SAPLING
    show ?thesis
    proof (cases "cacheSaplingNullifiers c k")
      case None
      then have c': "x = r" "c' = c\<lparr>base := b, cacheSaplingNullifiers := (cacheSaplingNullifiers c)(k \<mapsto> ?e)\<rparr>"
        using assms(2) r SAPLING by (auto simp: CCoinsViewCache_GetNullifier_def Let_def)
      have "cinv c'" unfolding c' using d g SAPLING by (intro cache_invI) auto
      moreover have "cabs c' = cabs c" unfolding c' using g None SAPLING by (intro utxo_eqI) (auto split: option.split)
      ultimately show ?thesis using c' g None SAPLING by simp
    qed (use assms SAPLING in \<open>auto simp: CCoinsViewCache_GetNullifier_def\<close>)
  qed
qed

end

context coins_view
begin

lemma BestBlock_law:
  assumes "cinv c" "CCoinsViewCache_GetBestBlock V c = (h, c')"
  shows "h = u_block (cabs c) \<and> cinv c' \<and> cabs c' = cabs c"
proof (cases "hashBlock c = null256")
  case True
  note d = cache_invD [OF assms(1)]
  obtain r b where r: "v_GetBestBlock V (base c) = (r, b)" by fastforce
  note g = GetBestBlock [OF d(1) r]
  have c': "h = r" "c' = c\<lparr>base := b, hashBlock := r\<rparr>" using assms(2) True r by (auto simp: CCoinsViewCache_GetBestBlock_def)
  have "cinv c'" unfolding c' using d g by (intro cache_invI) auto
  moreover have "cabs c' = cabs c" unfolding c' using g True by (intro utxo_eqI) (auto split: option.split)
  ultimately show ?thesis using c' g True by simp
qed (use assms in \<open>auto simp: CCoinsViewCache_GetBestBlock_def\<close>)

lemma BestAnchor_law:
  assumes "cinv c" "CCoinsViewCache_GetBestAnchor V t c = (h, c')"
  shows "h = u_anchor (cabs c) t \<and> cinv c' \<and> cabs c' = cabs c"
proof -
  note d = cache_invD [OF assms(1)]
  obtain r b where r: "v_GetBestAnchor V t (base c) = (r, b)" by fastforce
  note g = GetBestAnchor [OF d(1) r]
  show ?thesis
  proof (cases t)
    case SPROUT
    show ?thesis
    proof (cases "hashSproutAnchor c = null256")
      case True
      then have c': "h = r" "c' = c\<lparr>base := b, hashSproutAnchor := r\<rparr>"
        using assms(2) r SPROUT by (auto simp: CCoinsViewCache_GetBestAnchor_def)
      have "cinv c'" unfolding c' using d g by (intro cache_invI) auto
      moreover have "cabs c' = cabs c" unfolding c' using g True SPROUT by (intro utxo_eqI) (auto split: option.split)
      ultimately show ?thesis using c' g True SPROUT by simp
    qed (use assms SPROUT in \<open>auto simp: CCoinsViewCache_GetBestAnchor_def\<close>)
  next
    case SAPLING
    show ?thesis
    proof (cases "hashSaplingAnchor c = null256")
      case True
      then have c': "h = r" "c' = c\<lparr>base := b, hashSaplingAnchor := r\<rparr>"
        using assms(2) r SAPLING by (auto simp: CCoinsViewCache_GetBestAnchor_def)
      have "cinv c'" unfolding c' using d g by (intro cache_invI) auto
      moreover have "cabs c' = cabs c" unfolding c' using g True SAPLING by (intro utxo_eqI) (auto split: option.split)
      ultimately show ?thesis using c' g True SAPLING by simp
    qed (use assms SAPLING in \<open>auto simp: CCoinsViewCache_GetBestAnchor_def\<close>)
  qed
qed

lemma HaveCoins_law:
  assumes "cinv c" "CCoinsViewCache_HaveCoins V k c = (b, c')"
  shows "(u_coins (cabs c) k \<noteq> None \<longrightarrow> b) \<and> cinv c' \<and> cabs c' = cabs c"
proof -
  obtain e d where e: "FetchCoins V k c = (e, d)" by fastforce
  then have c': "b = (case e of None \<Rightarrow> False | Some e \<Rightarrow> cc_vout (ce_coins e) \<noteq> [])" "c' = d"
    using assms(2) by (auto simp: CCoinsViewCache_HaveCoins_def)
  note f = FetchCoins_law [OF assms(1) e]
  have "b" if "u_coins (cabs c) k \<noteq> None"
  proof -
    from that f obtain a where "e = Some a" "\<not> IsPruned (ce_coins a)" by (cases e) (auto split: if_splits)
    then show ?thesis using c' by (auto simp: IsPruned_def)
  qed
  then show ?thesis using f c' by blast
qed

lemma cache_trees:
  assumes "cinv c"
  shows "trees_fit TS TP (cabs c)"
proof -
  note d = cache_invD [OF assms]
  have t: "u_sprout (absv (base c)) k = None \<or> u_sprout (absv (base c)) k = Some (TS k)"
    "u_sapling (absv (base c)) k = None \<or> u_sapling (absv (base c)) k = Some (TP k)" for k
    using trees [OF d(1)] by (simp_all add: trees_fit_def)
  have "u_sprout (cabs c) k = None \<or> u_sprout (cabs c) k = Some (TS k)" for k
    using t(1) [of k] d(4) [of k] by (cases "cacheSproutAnchors c k") (simp_all add: anchor_of_def)
  moreover have "u_sapling (cabs c) k = None \<or> u_sapling (cabs c) k = Some (TP k)" for k
    using t(2) [of k] d(5) [of k] by (cases "cacheSaplingAnchors c k") (simp_all add: anchor_of_def)
  ultimately show ?thesis by (simp add: trees_fit_def)
qed

text \<open>So a cache is a view in its own right, and caches can be stacked.\<close>

lemma cache_view: "coins_view (CCoinsViewCache_view V) cinv cabs TS TP ES EP"
proof
  show "live r = u_coins (cabs c) k \<and> cinv c' \<and> cabs c' = cabs c" if "cinv c" "v_GetCoins (CCoinsViewCache_view V) k c = (r, c')" for c k r c'
    using FetchCoins_law [OF that(1)] that(2) by (cases "FetchCoins V k c") (auto simp: CCoinsViewCache_view_def CCoinsViewCache_GetCoins_def)
qed (auto simp: CCoinsViewCache_view_def dest: Sprout_law Sapling_law Nullifier_law BestBlock_law BestAnchor_law HaveCoins_law
    intro: cache_trees cache_BatchWrite)

lemma Flush_law:
  assumes "cinv c" "batch_loaded (cache_batch c)"
  shows "\<exists>c'. Flush V c = Inr (True, c') \<and> cinv c' \<and> absv (base c') = cabs c \<and> cabs c' = cabs c"
proof -
  note d = cache_invD [OF assms(1)]
  have "batch_fits TS TP ES EP (absv (base c)) (cache_batch c)" using assms(1) by (simp add: cache_inv_def)
  from BatchWrite [OF d(1) this assms(2)] obtain b where
    b: "v_BatchWrite V (cache_batch c) (base c) = Inr (True, b)" "okv b" "absv b = cabs c"
    by (auto simp: cache_abs_def)
  define c' where "c' = c\<lparr>base := b, cacheCoins := Map.empty, cacheSproutAnchors := Map.empty, cacheSaplingAnchors := Map.empty,
      cacheSproutNullifiers := Map.empty, cacheSaplingNullifiers := Map.empty\<rparr>"
  have "Flush V c = Inr (True, c')" using b by (simp add: Flush_def c'_def)
  moreover have "cinv c'" using b d by (intro cache_invI) (auto simp: c'_def)
  moreover have "cabs c' = cabs c" using b assms(2) by (intro utxo_eqI) (auto simp: c'_def batch_loaded_def simp del: cache_abs_sel, simp_all)
  ultimately show ?thesis using b by (auto simp: c'_def)
qed

end

lemma IsPruned_Cleanup [simp]: "IsPruned (CCoins_Cleanup c) = IsPruned c"
proof -
  have "list_all P (dropWhile P xs) = list_all P xs" for P :: "CTxOut \<Rightarrow> bool" and xs
    by (induction xs) auto
  then show ?thesis by (simp add: IsPruned_def CCoins_Cleanup_def)
qed

context coins_view
begin

lemma destroy_law:
  assumes "okv (base c)" "hasModifier c" "cacheCoins c k = Some e" "ce_dirty e" "ce_fresh e \<Longrightarrow> u_coins (absv (base c)) k = None"
    and fits: "\<And>j. j \<noteq> k \<Longrightarrow> coins_fit (u_coins (absv (base c)) j) (cacheCoins c j)"
      "\<And>j. anchor_fits (TS j) (j = ES) (u_sprout (absv (base c)) j) (cacheSproutAnchors c j)"
      "\<And>j. anchor_fits (TP j) (j = EP) (u_sapling (absv (base c)) j) (cacheSaplingAnchors c j)"
      "\<And>j. nullifier_fits (u_nullifier (absv (base c)) SPROUT j) (cacheSproutNullifiers c j)"
      "\<And>j. nullifier_fits (u_nullifier (absv (base c)) SAPLING j) (cacheSaplingNullifiers c j)"
  shows "\<exists>c'. CCoinsModifier_destroy k (modifier_set k y c) = Inr c' \<and> cinv c' \<and> base c' = base c \<and>
    cabs c' = (cabs c)\<lparr>u_coins := (u_coins (cabs c))(k := live (Some (CCoins_Cleanup y)))\<rparr>"
proof -
  let ?y = "CCoins_Cleanup y"
  define c' where "c' = c\<lparr>hasModifier := False, cacheCoins := (cacheCoins c)(k := (if ce_fresh e \<and> IsPruned y then None else Some (e\<lparr>ce_coins := ?y\<rparr>)))\<rparr>"
  have "CCoinsModifier_destroy k (modifier_set k y c) = Inr c'"
    using assms(2,3) by (auto simp: CCoinsModifier_destroy_def modifier_set_def c'_def Let_def)
  moreover have "cinv c'"
    using assms by (intro cache_invI) (auto simp: c'_def)
  moreover have "cabs c' = (cabs c)\<lparr>u_coins := (u_coins (cabs c))(k := live (Some ?y))\<rparr>"
    using assms(5) by (intro utxo_eqI) (auto simp: c'_def split: option.split)
  moreover have "base c' = base c" by (simp add: c'_def)
  ultimately show ?thesis by blast
qed

lemma Modify_law:
  assumes "cinv c"
  obtains c1 where "ModifyCoins V k c = Inr c1" "live (Some (modifier_coins k c1)) = u_coins (cabs c) k"
    "\<And>y. \<exists>c'. CCoinsModifier_destroy k (modifier_set k y c1) = Inr c' \<and> cinv c' \<and> absv (base c') = absv (base c) \<and>
       cabs c' = (cabs c)\<lparr>u_coins := (u_coins (cabs c))(k := live (Some (CCoins_Cleanup y)))\<rparr>"
proof (cases "cacheCoins c k")
  case (Some e)
  note d = cache_invD [OF assms]
  let ?c1 = "c\<lparr>cacheCoins := (cacheCoins c)(k \<mapsto> e\<lparr>ce_dirty := True\<rparr>), hasModifier := True\<rparr>"
  have c1: "ModifyCoins V k c = Inr ?c1" using Some d(2) by (simp add: ModifyCoins_def)
  have abs: "cabs ?c1 = cabs c" using Some by (intro utxo_eqI) (auto split: option.split)
  show thesis
  proof (rule that [OF c1])
    show "live (Some (modifier_coins k ?c1)) = u_coins (cabs c) k" using Some by (simp add: modifier_coins_def)
    show "\<exists>c'. CCoinsModifier_destroy k (modifier_set k y ?c1) = Inr c' \<and> cinv c' \<and> absv (base c') = absv (base c) \<and>
        cabs c' = (cabs c)\<lparr>u_coins := (u_coins (cabs c))(k := live (Some (CCoins_Cleanup y)))\<rparr>" for y
    proof -
      have "\<exists>c'. CCoinsModifier_destroy k (modifier_set k y ?c1) = Inr c' \<and> cinv c' \<and> base c' = base ?c1 \<and>
          cabs c' = (cabs ?c1)\<lparr>u_coins := (u_coins (cabs ?c1))(k := live (Some (CCoins_Cleanup y)))\<rparr>"
        using d d(3) [of k] Some by (intro destroy_law) auto
      then show ?thesis unfolding abs by auto
    qed
  qed
next
  case None
  note d = cache_invD [OF assms]
  obtain r b where r: "v_GetCoins V k (base c) = (r, b)" by fastforce
  note g = GetCoins [OF d(1) r]
  define e where "e = (case r of None \<Rightarrow> \<lparr>ce_coins = CCoins_Clear, ce_dirty = True, ce_fresh = True\<rparr>
    | Some coins \<Rightarrow> \<lparr>ce_coins = coins, ce_dirty = True, ce_fresh = IsPruned coins\<rparr>)"
  let ?c1 = "c\<lparr>base := b, cacheCoins := (cacheCoins c)(k \<mapsto> e), hasModifier := True\<rparr>"
  have c1: "ModifyCoins V k c = Inr ?c1" using None d(2) r by (simp add: ModifyCoins_def e_def)
  have e: "live (Some (ce_coins e)) = u_coins (absv (base c)) k" "ce_dirty e" "ce_fresh e \<longrightarrow> u_coins (absv (base c)) k = None"
    using g by (cases r; auto simp: e_def IsPruned_def CCoins_Clear_def)+
  have abs: "cabs ?c1 = cabs c" using None g e(1) by (intro utxo_eqI) (auto simp del: live_simps split: option.split)
  show thesis
  proof (rule that [OF c1])
    show "live (Some (modifier_coins k ?c1)) = u_coins (cabs c) k" using None e(1) by (simp add: modifier_coins_def)
    show "\<exists>c'. CCoinsModifier_destroy k (modifier_set k y ?c1) = Inr c' \<and> cinv c' \<and> absv (base c') = absv (base c) \<and>
        cabs c' = (cabs c)\<lparr>u_coins := (u_coins (cabs c))(k := live (Some (CCoins_Cleanup y)))\<rparr>" for y
    proof -
      have "\<exists>c'. CCoinsModifier_destroy k (modifier_set k y ?c1) = Inr c' \<and> cinv c' \<and> base c' = base ?c1 \<and>
          cabs c' = (cabs ?c1)\<lparr>u_coins := (u_coins (cabs ?c1))(k := live (Some (CCoins_Cleanup y)))\<rparr>"
        using d g e by (intro destroy_law) auto
      then show ?thesis unfolding abs using g by auto
    qed
  qed
qed

lemma ModifyNew_law:
  assumes "cinv c" "u_coins (absv (base c)) k = None"
  obtains c1 where "ModifyNewCoins k c = Inr c1" "modifier_coins k c1 = CCoins_Clear"
    "\<And>y. \<exists>c'. CCoinsModifier_destroy k (modifier_set k y c1) = Inr c' \<and> cinv c' \<and> absv (base c') = absv (base c) \<and>
       cabs c' = (cabs c)\<lparr>u_coins := (u_coins (cabs c))(k := live (Some (CCoins_Cleanup y)))\<rparr>"
proof -
  note d = cache_invD [OF assms(1)]
  let ?c1 = "c\<lparr>cacheCoins := (cacheCoins c)(k \<mapsto> \<lparr>ce_coins = CCoins_Clear, ce_dirty = True, ce_fresh = True\<rparr>), hasModifier := True\<rparr>"
  have c1: "ModifyNewCoins k c = Inr ?c1" using d(2) by (simp add: ModifyNewCoins_def)
  have abs: "(cabs c)\<lparr>u_coins := (u_coins (cabs c))(k := x)\<rparr> = (cabs ?c1)\<lparr>u_coins := (u_coins (cabs ?c1))(k := x)\<rparr>" for x
    by (intro utxo_eqI) (auto split: option.split)
  show thesis
  proof (rule that [OF c1])
    show "modifier_coins k ?c1 = CCoins_Clear" by (simp add: modifier_coins_def)
    show "\<exists>c'. CCoinsModifier_destroy k (modifier_set k y ?c1) = Inr c' \<and> cinv c' \<and> absv (base c') = absv (base c) \<and>
        cabs c' = (cabs c)\<lparr>u_coins := (u_coins (cabs c))(k := live (Some (CCoins_Cleanup y)))\<rparr>" for y
    proof -
      have "\<exists>c'. CCoinsModifier_destroy k (modifier_set k y ?c1) = Inr c' \<and> cinv c' \<and> base c' = base ?c1 \<and>
          cabs c' = (cabs ?c1)\<lparr>u_coins := (u_coins (cabs ?c1))(k := live (Some (CCoins_Cleanup y)))\<rparr>"
        using d assms(2) by (intro destroy_law) auto
      then show ?thesis unfolding abs by auto
    qed
  qed
qed

end

definition tx_nullifiers :: "CTransaction \<Rightarrow> ShieldedType \<Rightarrow> uint256 set" where
  "tx_nullifiers tx t = (case t of SPROUT \<Rightarrow> set (concat (map js_nullifiers (vJoinSplit tx))) | SAPLING \<Rightarrow> set (map sd_nullifier (vShieldedSpend tx)))"

lemma fold_set_nullifier:
  "fold (set_nullifier spent) xs m k = (if k \<in> set xs then Some \<lparr>ne_entered = spent, ne_dirty = True\<rparr> else m k)"
  by (induction xs arbitrary: m) (auto simp: set_nullifier_def)

context coins_view
begin

lemma SetNullifiers_law:
  assumes "cinv c"
  shows "cinv (SetNullifiers tx spent c) \<and> cabs (SetNullifiers tx spent c) =
    (cabs c)\<lparr>u_nullifier := \<lambda>t k. if k \<in> tx_nullifiers tx t then spent else u_nullifier (cabs c) t k\<rparr>"
proof
  note d = cache_invD [OF assms]
  show "cinv (SetNullifiers tx spent c)" using d by (intro cache_invI) (auto simp: SetNullifiers_def fold_set_nullifier)
  show "cabs (SetNullifiers tx spent c) = (cabs c)\<lparr>u_nullifier := \<lambda>t k. if k \<in> tx_nullifiers tx t then spent else u_nullifier (cabs c) t k\<rparr>"
    by (intro utxo_eqI) (auto simp: SetNullifiers_def fold_set_nullifier tx_nullifiers_def split: option.split)
qed

lemma PushAnchor_Sprout_law:
  assumes "cinv c" "TS (tr_root T tree) = tree" "tr_root T tree \<noteq> null256" "u_anchor (cabs c) SPROUT \<noteq> tr_root T tree"
  shows "cinv (PushAnchor_Sprout V T tree c) \<and> cabs (PushAnchor_Sprout V T tree c) =
    (cabs c)\<lparr>u_sprout := (u_sprout (cabs c))(tr_root T tree \<mapsto> tree), u_anchor := (u_anchor (cabs c))(SPROUT := tr_root T tree)\<rparr>"
proof -
  obtain h c1 where h: "CCoinsViewCache_GetBestAnchor V SPROUT c = (h, c1)" by fastforce
  note b = BestAnchor_law [OF assms(1) h]
  let ?e = "\<lparr>ae_entered = True, ae_tree = tree, ae_dirty = True\<rparr>"
  have p: "PushAnchor_Sprout V T tree c =
      c1\<lparr>cacheSproutAnchors := (cacheSproutAnchors c1)(tr_root T tree \<mapsto> ?e), hashSproutAnchor := tr_root T tree\<rparr>"
    using b assms(4) by (simp add: PushAnchor_Sprout_def h AbstractPushAnchor_def Let_def)
  have "cinv c1" using b by simp
  note d = cache_invD [OF this]
  have "cinv (PushAnchor_Sprout V T tree c)" unfolding p using d assms(2) by (intro cache_invI) auto
  moreover have "cabs (PushAnchor_Sprout V T tree c) =
      (cabs c1)\<lparr>u_sprout := (u_sprout (cabs c1))(tr_root T tree \<mapsto> tree), u_anchor := (u_anchor (cabs c1))(SPROUT := tr_root T tree)\<rparr>"
    unfolding p using assms(3) by (intro utxo_eqI) (auto simp: anchor_of_def split: option.split)
  ultimately show ?thesis using b by simp
qed

lemma PushAnchor_Sapling_law:
  assumes "cinv c" "TP (tr_root T tree) = tree" "tr_root T tree \<noteq> null256" "u_anchor (cabs c) SAPLING \<noteq> tr_root T tree"
  shows "cinv (PushAnchor_Sapling V T tree c) \<and> cabs (PushAnchor_Sapling V T tree c) =
    (cabs c)\<lparr>u_sapling := (u_sapling (cabs c))(tr_root T tree \<mapsto> tree), u_anchor := (u_anchor (cabs c))(SAPLING := tr_root T tree)\<rparr>"
proof -
  obtain h c1 where h: "CCoinsViewCache_GetBestAnchor V SAPLING c = (h, c1)" by fastforce
  note b = BestAnchor_law [OF assms(1) h]
  let ?e = "\<lparr>ae_entered = True, ae_tree = tree, ae_dirty = True\<rparr>"
  have p: "PushAnchor_Sapling V T tree c =
      c1\<lparr>cacheSaplingAnchors := (cacheSaplingAnchors c1)(tr_root T tree \<mapsto> ?e), hashSaplingAnchor := tr_root T tree\<rparr>"
    using b assms(4) by (simp add: PushAnchor_Sapling_def h AbstractPushAnchor_def Let_def)
  have "cinv c1" using b by simp
  note d = cache_invD [OF this]
  have "cinv (PushAnchor_Sapling V T tree c)" unfolding p using d assms(2) by (intro cache_invI) auto
  moreover have "cabs (PushAnchor_Sapling V T tree c) =
      (cabs c1)\<lparr>u_sapling := (u_sapling (cabs c1))(tr_root T tree \<mapsto> tree), u_anchor := (u_anchor (cabs c1))(SAPLING := tr_root T tree)\<rparr>"
    unfolding p using assms(3) by (intro utxo_eqI) (auto simp: anchor_of_def split: option.split)
  ultimately show ?thesis using b by simp
qed

lemma PopAnchor_Sprout_law:
  assumes "cinv c" "u_anchor (cabs c) SPROUT \<noteq> ES" "u_sprout (cabs c) (u_anchor (cabs c) SPROUT) \<noteq> None"
    and "newrt \<noteq> null256" "u_anchor (cabs c) SPROUT \<noteq> newrt"
  shows "\<exists>c'. PopAnchor V newrt SPROUT c = Inr c' \<and> cinv c' \<and> cabs c' =
    (cabs c)\<lparr>u_sprout := (u_sprout (cabs c))(u_anchor (cabs c) SPROUT := None), u_anchor := (u_anchor (cabs c))(SPROUT := newrt)\<rparr>"
proof -
  obtain h c1 where h: "CCoinsViewCache_GetBestAnchor V SPROUT c = (h, c1)" by fastforce
  note b = BestAnchor_law [OF assms(1) h]
  then have "cinv c1" by simp
  obtain x c2 where x: "CCoinsViewCache_GetSproutAnchorAt V h c1 = (x, c2)" by fastforce
  note g = Sprout_law [OF \<open>cinv c1\<close> x]
  then obtain tree e where te: "x = Some tree" "cacheSproutAnchors c2 h = Some e" using b assms(3) by auto
  let ?c' = "c2\<lparr>cacheSproutAnchors := (cacheSproutAnchors c2)(h \<mapsto> e\<lparr>ae_entered := False, ae_dirty := True\<rparr>), hashSproutAnchor := newrt\<rparr>"
  have "PopAnchor V newrt SPROUT c = Inr ?c'" using h x te b assms(5) by (simp add: PopAnchor_def)
  note pop = this
  have "cinv c2" using g by simp
  note d = cache_invD [OF this]
  have "ae_tree e = TS h" using d(4) [of h] te by simp
  moreover have "h \<noteq> ES" using b assms(2) by metis
  ultimately have "cinv ?c'" using d by (intro cache_invI) auto
  moreover have "cabs ?c' = (cabs c2)\<lparr>u_sprout := (u_sprout (cabs c2))(h := None), u_anchor := (u_anchor (cabs c2))(SPROUT := newrt)\<rparr>"
    using assms(4) by (intro utxo_eqI) (auto simp: anchor_of_def split: option.split)
  moreover have "cabs c2 = cabs c" "h = u_anchor (cabs c) SPROUT" using b g by simp_all
  ultimately show ?thesis using pop by (intro exI [of _ ?c']) (simp only: simp_thms)
qed

lemma PopAnchor_Sapling_law:
  assumes "cinv c" "u_anchor (cabs c) SAPLING \<noteq> EP" "u_sapling (cabs c) (u_anchor (cabs c) SAPLING) \<noteq> None"
    and "newrt \<noteq> null256" "u_anchor (cabs c) SAPLING \<noteq> newrt"
  shows "\<exists>c'. PopAnchor V newrt SAPLING c = Inr c' \<and> cinv c' \<and> cabs c' =
    (cabs c)\<lparr>u_sapling := (u_sapling (cabs c))(u_anchor (cabs c) SAPLING := None), u_anchor := (u_anchor (cabs c))(SAPLING := newrt)\<rparr>"
proof -
  obtain h c1 where h: "CCoinsViewCache_GetBestAnchor V SAPLING c = (h, c1)" by fastforce
  note b = BestAnchor_law [OF assms(1) h]
  then have "cinv c1" by simp
  obtain x c2 where x: "CCoinsViewCache_GetSaplingAnchorAt V h c1 = (x, c2)" by fastforce
  note g = Sapling_law [OF \<open>cinv c1\<close> x]
  then obtain tree e where te: "x = Some tree" "cacheSaplingAnchors c2 h = Some e" using b assms(3) by auto
  let ?c' = "c2\<lparr>cacheSaplingAnchors := (cacheSaplingAnchors c2)(h \<mapsto> e\<lparr>ae_entered := False, ae_dirty := True\<rparr>), hashSaplingAnchor := newrt\<rparr>"
  have "PopAnchor V newrt SAPLING c = Inr ?c'" using h x te b assms(5) by (simp add: PopAnchor_def)
  note pop = this
  have "cinv c2" using g by simp
  note d = cache_invD [OF this]
  have "ae_tree e = TP h" using d(5) [of h] te by simp
  moreover have "h \<noteq> EP" using b assms(2) by metis
  ultimately have "cinv ?c'" using d by (intro cache_invI) auto
  moreover have "cabs ?c' = (cabs c2)\<lparr>u_sapling := (u_sapling (cabs c2))(h := None), u_anchor := (u_anchor (cabs c2))(SAPLING := newrt)\<rparr>"
    using assms(4) by (intro utxo_eqI) (auto simp: anchor_of_def split: option.split)
  moreover have "cabs c2 = cabs c" "h = u_anchor (cabs c) SAPLING" using b g by simp_all
  ultimately show ?thesis using pop by (intro exI [of _ ?c']) (simp only: simp_thms)
qed

end

section \<open>The database meets the contract\<close>

definition db_abs :: "'st tree_ops \<Rightarrow> 'sp tree_ops \<Rightarrow> ('st, 'sp) CCoinsViewDB \<Rightarrow> ('st, 'sp) utxo" where
  "db_abs ST SP db =
     \<lparr>u_coins = (\<lambda>k. live (db_coins db k)),
      u_sprout = db_GetAnchorAt ST (db_sprout_anchors db), u_sapling = db_GetAnchorAt SP (db_sapling_anchors db),
      u_nullifier = (\<lambda>t k. db_GetNullifier k t db),
      u_block = (case db_best_block db of None \<Rightarrow> null256 | Some h \<Rightarrow> h),
      u_anchor = (\<lambda>t. db_GetBestAnchor ST SP t db)\<rparr>"

definition db_inv :: "'st tree_ops \<Rightarrow> 'sp tree_ops \<Rightarrow> (uint256 \<Rightarrow> 'st) \<Rightarrow> (uint256 \<Rightarrow> 'sp) \<Rightarrow> ('st, 'sp) CCoinsViewDB \<Rightarrow> bool" where
  "db_inv ST SP TS TP db \<longleftrightarrow> trees_fit TS TP (db_abs ST SP db)"

lemma db_abs_sel [simp]:
  "u_coins (db_abs ST SP db) k = live (db_coins db k)"
  "u_sprout (db_abs ST SP db) k = (if k = tr_empty_root ST then Some (tr_new ST) else db_sprout_anchors db k)"
  "u_sapling (db_abs ST SP db) k = (if k = tr_empty_root SP then Some (tr_new SP) else db_sapling_anchors db k)"
  "u_nullifier (db_abs ST SP db) SPROUT k = db_sprout_nullifiers db k"
  "u_nullifier (db_abs ST SP db) SAPLING k = db_sapling_nullifiers db k"
  "u_block (db_abs ST SP db) = (case db_best_block db of None \<Rightarrow> null256 | Some h \<Rightarrow> h)"
  "u_anchor (db_abs ST SP db) SPROUT = (case db_best_sprout_anchor db of None \<Rightarrow> tr_empty_root ST | Some h \<Rightarrow> h)"
  "u_anchor (db_abs ST SP db) SAPLING = (case db_best_sapling_anchor db of None \<Rightarrow> tr_empty_root SP | Some h \<Rightarrow> h)"
  by (simp_all add: db_abs_def db_GetAnchorAt_def db_GetNullifier_def db_GetBestAnchor_def)

lemma db_coins_written:
  "coins_fit (live stored) child \<Longrightarrow>
   live (case child of None \<Rightarrow> stored
         | Some it \<Rightarrow> if \<not> ce_dirty it then stored else if IsPruned (ce_coins it) then None else Some (ce_coins it)) =
   (case child of None \<Rightarrow> live stored | Some e \<Rightarrow> live (Some (ce_coins e)))"
  by (auto split: option.split)

lemma db_anchor_written:
  fixes T :: "'t tree_ops"
  defines "get \<equiv> \<lambda>k stored. if k = tr_empty_root T then Some (tr_new T) else stored"
  assumes "get k stored = None \<or> get k stored = Some t" "anchor_fits t (k = tr_empty_root T) (get k stored) child"
  shows "get k (db_write_anchor T k child stored) = (case child of None \<Rightarrow> get k stored | Some e \<Rightarrow> anchor_of e)"
  using assms(2,3) by (auto simp: get_def db_write_anchor_def anchor_of_def split: option.splits if_splits)

lemma db_nullifier_written:
  "nullifier_fits stored child \<Longrightarrow> db_write_nullifier child stored = (case child of None \<Rightarrow> stored | Some e \<Rightarrow> ne_entered e)"
  by (auto simp: db_write_nullifier_def split: option.split)

lemma db_BatchWrite:
  assumes "db_inv ST SP TS TP db" "batch_fits TS TP (tr_empty_root ST) (tr_empty_root SP) (db_abs ST SP db) w" "batch_loaded w"
  shows "\<exists>db'. CCoinsViewDB_BatchWrite ST SP w db = Inr (True, db') \<and> db_inv ST SP TS TP db' \<and> db_abs ST SP db' = apply_batch w (db_abs ST SP db)"
proof -
  obtain db' where w: "CCoinsViewDB_BatchWrite ST SP w db = Inr (True, db')" by (simp add: CCoinsViewDB_BatchWrite_def)
  let ?S = "\<lambda>k v. if k = tr_empty_root ST then Some (tr_new ST) else v" and ?P = "\<lambda>k v. if k = tr_empty_root SP then Some (tr_new SP) else v"
  have fits: "coins_fit (live (db_coins db k)) (mapCoins w k)"
    "anchor_fits (TS k) (k = tr_empty_root ST) (?S k (db_sprout_anchors db k)) (mapSproutAnchors w k)"
    "anchor_fits (TP k) (k = tr_empty_root SP) (?P k (db_sapling_anchors db k)) (mapSaplingAnchors w k)"
    "nullifier_fits (db_sprout_nullifiers db k) (mapSproutNullifiers w k)" "nullifier_fits (db_sapling_nullifiers db k) (mapSaplingNullifiers w k)" for k
    using assms(2) by (simp_all only: batch_fits_def db_abs_sel)
  have trees: "?S k (db_sprout_anchors db k) = None \<or> ?S k (db_sprout_anchors db k) = Some (TS k)"
    "?P k (db_sapling_anchors db k) = None \<or> ?P k (db_sapling_anchors db k) = Some (TP k)" for k
    using assms(1) unfolding db_inv_def trees_fit_def db_abs_sel by blast+
  have sel: "db_coins db' k = (case mapCoins w k of None \<Rightarrow> db_coins db k
      | Some it \<Rightarrow> if \<not> ce_dirty it then db_coins db k else if IsPruned (ce_coins it) then None else Some (ce_coins it))"
    "db_sprout_anchors db' k = db_write_anchor ST k (mapSproutAnchors w k) (db_sprout_anchors db k)"
    "db_sapling_anchors db' k = db_write_anchor SP k (mapSaplingAnchors w k) (db_sapling_anchors db k)"
    "db_sprout_nullifiers db' k = db_write_nullifier (mapSproutNullifiers w k) (db_sprout_nullifiers db k)"
    "db_sapling_nullifiers db' k = db_write_nullifier (mapSaplingNullifiers w k) (db_sapling_nullifiers db k)"
    "db_best_block db' = Some (bw_hashBlock w)" "db_best_sprout_anchor db' = Some (bw_hashSproutAnchor w)"
    "db_best_sapling_anchor db' = Some (bw_hashSaplingAnchor w)" for k
    using w assms(3) by (auto simp: CCoinsViewDB_BatchWrite_def batch_loaded_def)
  have "db_abs ST SP db' = apply_batch w (db_abs ST SP db)"
  proof (rule utxo_eqI)
    show "u_coins (db_abs ST SP db') k = u_coins (apply_batch w (db_abs ST SP db)) k" for k
      unfolding db_abs_sel apply_batch_sel sel by (rule db_coins_written [OF fits(1)])
    show "u_sprout (db_abs ST SP db') k = u_sprout (apply_batch w (db_abs ST SP db)) k" for k
      unfolding db_abs_sel apply_batch_sel sel by (rule db_anchor_written [OF trees(1) fits(2)])
    show "u_sapling (db_abs ST SP db') k = u_sapling (apply_batch w (db_abs ST SP db)) k" for k
      unfolding db_abs_sel apply_batch_sel sel by (rule db_anchor_written [OF trees(2) fits(3)])
    show "u_nullifier (db_abs ST SP db') SPROUT k = u_nullifier (apply_batch w (db_abs ST SP db)) SPROUT k" for k
      unfolding db_abs_sel apply_batch_sel sel by (rule db_nullifier_written [OF fits(4)])
    show "u_nullifier (db_abs ST SP db') SAPLING k = u_nullifier (apply_batch w (db_abs ST SP db)) SAPLING k" for k
      unfolding db_abs_sel apply_batch_sel sel by (rule db_nullifier_written [OF fits(5)])
  qed (use assms(3) in \<open>simp_all add: sel batch_loaded_def\<close>)
  moreover have "u_sprout (apply_batch w (db_abs ST SP db)) k = None \<or> u_sprout (apply_batch w (db_abs ST SP db)) k = Some (TS k)" for k
    using trees(1) [of k] fits(2) [of k] unfolding apply_batch_sel db_abs_sel by (cases "mapSproutAnchors w k") (simp_all add: anchor_of_def)
  moreover have "u_sapling (apply_batch w (db_abs ST SP db)) k = None \<or> u_sapling (apply_batch w (db_abs ST SP db)) k = Some (TP k)" for k
    using trees(2) [of k] fits(3) [of k] unfolding apply_batch_sel db_abs_sel by (cases "mapSaplingAnchors w k") (simp_all add: anchor_of_def)
  ultimately have "db_abs ST SP db' = apply_batch w (db_abs ST SP db)" "trees_fit TS TP (apply_batch w (db_abs ST SP db))"
    by (simp_all only: trees_fit_def simp_thms)
  then show ?thesis using w by (simp add: db_inv_def)
qed

interpretation db: coins_view "CCoinsViewDB_view ST SP" "db_inv ST SP TS TP" "db_abs ST SP" TS TP "tr_empty_root ST" "tr_empty_root SP"
  for ST :: "'st tree_ops" and SP :: "'sp tree_ops" and TS TP
proof
  show "trees_fit TS TP (db_abs ST SP db)" if "db_inv ST SP TS TP db" for db using that by (simp add: db_inv_def)
  show "\<exists>db'. v_BatchWrite (CCoinsViewDB_view ST SP) w db = Inr (True, db') \<and> db_inv ST SP TS TP db' \<and> db_abs ST SP db' = apply_batch w (db_abs ST SP db)"
    if "db_inv ST SP TS TP db" "batch_fits TS TP (tr_empty_root ST) (tr_empty_root SP) (db_abs ST SP db) w" "batch_loaded w" for db w
    using db_BatchWrite [OF that] by (simp add: CCoinsViewDB_view_def)
qed (auto simp: CCoinsViewDB_view_def db_abs_def live_def split: option.splits)

text \<open>The cache on the database, as \<open>pcoinsTip\<close>, and a cache on that, as block connection uses.\<close>

interpretation tip: coins_view "CCoinsViewCache_view (CCoinsViewDB_view ST SP)"
  "cache_inv TS TP (tr_empty_root ST) (tr_empty_root SP) (db_inv ST SP TS TP) (db_abs ST SP)" "cache_abs (db_abs ST SP)"
  TS TP "tr_empty_root ST" "tr_empty_root SP" for ST :: "'st tree_ops" and SP :: "'sp tree_ops" and TS TP
  by (rule db.cache_view)

lemma Flush_loaded:
  assumes "Flush (CCoinsViewCache_view V) c = Inr (fOk, c')"
  shows "batch_loaded (cache_batch (base c')) = batch_loaded (cache_batch c)"
  using assms
  by (cases c) (auto simp: Flush_def CCoinsViewCache_view_def CCoinsViewCache_BatchWrite_def batch_loaded_def split: if_splits)


definition ex_trees :: "uint256 \<Rightarrow> unit tree_ops" where
  "ex_trees r = \<lparr>tr_root = \<lambda>_. r, tr_new = (), tr_empty_root = r, tr_append = \<lambda>_ _. Inr ()\<rparr>"

definition ex_db :: "(unit, unit) CCoinsViewDB" where
  "ex_db = \<lparr>db_coins = [[1] \<mapsto> ex_coins], db_sprout_anchors = Map.empty, db_sapling_anchors = Map.empty,
     db_sprout_nullifiers = \<lambda>_. False, db_sapling_nullifiers = \<lambda>_. False, db_best_block = None, db_best_sprout_anchor = None,
     db_best_sapling_anchor = None\<rparr>"

definition ex_cache :: "((unit, unit) CCoinsViewDB, unit, unit) CCoinsViewCache" where
  "ex_cache = (CCoinsViewCache_new ex_db)\<lparr>hashBlock := [9], hashSproutAnchor := [8], hashSaplingAnchor := [7],
     cacheCoins := [[1] \<mapsto> \<lparr>ce_coins = CCoins_Clear, ce_dirty = True, ce_fresh = False\<rparr>,
                    [2] \<mapsto> \<lparr>ce_coins = ex_coins, ce_dirty = True, ce_fresh = True\<rparr>]\<rparr>"

definition ex_child :: "(((unit, unit) CCoinsViewDB, unit, unit) CCoinsViewCache, unit, unit) CCoinsViewCache" where
  "ex_child = (CCoinsViewCache_new ex_cache)\<lparr>hashBlock := [10], hashSproutAnchor := [8], hashSaplingAnchor := [7],
     cacheCoins := [[2] \<mapsto> \<lparr>ce_coins = CCoins_Clear, ce_dirty = True, ce_fresh = False\<rparr>,
                    [3] \<mapsto> \<lparr>ce_coins = ex_coins, ce_dirty = True, ce_fresh = True\<rparr>]\<rparr>"

lemma ex_child_inv:
  defines "S \<equiv> ex_trees [8]" and "P \<equiv> ex_trees [7]"
  shows "cache_inv (\<lambda>_. ()) (\<lambda>_. ()) (tr_empty_root S) (tr_empty_root P)
      (cache_inv (\<lambda>_. ()) (\<lambda>_. ()) (tr_empty_root S) (tr_empty_root P) (db_inv S P (\<lambda>_. ()) (\<lambda>_. ())) (db_abs S P)) (cache_abs (db_abs S P)) ex_child"
proof -
  have live: "\<not> IsPruned ex_coins" "IsPruned CCoins_Clear" by (simp_all add: IsPruned_def ex_coins_def CCoins_Clear_def CTxOut_IsNull_def CTxOut_null_def)
  have "db_inv S P (\<lambda>_. ()) (\<lambda>_. ()) ex_db" by (simp add: db_inv_def trees_fit_def ex_db_def ex_trees_def S_def P_def)
  then have "cache_inv (\<lambda>_. ()) (\<lambda>_. ()) (tr_empty_root S) (tr_empty_root P) (db_inv S P (\<lambda>_. ()) (\<lambda>_. ())) (db_abs S P) ex_cache"
    by (intro cache_invI) (auto simp: ex_cache_def CCoinsViewCache_new_def ex_db_def)
  then have "cache_inv (\<lambda>_. ()) (\<lambda>_. ()) (tr_empty_root S) (tr_empty_root P) (db_inv S P (\<lambda>_. ()) (\<lambda>_. ())) (db_abs S P) (base ex_child)"
    by (simp add: ex_child_def CCoinsViewCache_new_def)
  then show "cache_inv (\<lambda>_. ()) (\<lambda>_. ()) (tr_empty_root S) (tr_empty_root P) (cache_inv (\<lambda>_. ()) (\<lambda>_. ()) (tr_empty_root S) (tr_empty_root P) (db_inv S P (\<lambda>_. ()) (\<lambda>_. ())) (db_abs S P))
      (cache_abs (db_abs S P)) ex_child"
    by (rule cache_invI) (auto simp: ex_child_def ex_cache_def CCoinsViewCache_new_def ex_db_def)
qed


end
