(* ===== verification/Spending.thy ===== *)
theory Spending
  imports CoinsView
begin

text \<open>
  What transactions do to a view of the unspent outputs: reading inputs through a cache (\<open>AccessCoins\<close>, \<open>HaveInputs\<close>,
  \<open>HaveShieldedRequirements\<close>, \<open>GetValueIn\<close> of \<^verbatim>\<open>src/coins.cpp\<close>), spending them and adding outputs (\<open>UpdateCoins\<close>), and taking
  that back with the undo data (\<open>ApplyTxInUndo\<close> and the loop of \<open>DisconnectBlock\<close>, \<^verbatim>\<open>src/main.cpp\<close>). The lemmas are proved in
  the contract of views, for every view that meets it.
\<close>

unbundle bit_operations_syntax

declare cache_abs_sel [simp del]

section \<open>Reading inputs through a view\<close>

definition AccessCoins ::
  "('s, 'st, 'sp) CCoinsView \<Rightarrow> uint256 \<Rightarrow> ('s, 'st, 'sp) CCoinsViewCache \<Rightarrow> CCoins option \<times> ('s, 'st, 'sp) CCoinsViewCache" where
  "AccessCoins V txid c = (case FetchCoins V txid c of (None, c) \<Rightarrow> (None, c) | (Some e, c) \<Rightarrow> (Some (ce_coins e), c))"

definition HaveCoinsInCache :: "uint256 \<Rightarrow> ('s, 'st, 'sp) CCoinsViewCache \<Rightarrow> bool" where
  "HaveCoinsInCache txid c \<longleftrightarrow> cacheCoins c txid \<noteq> None"

definition GetOutputFor ::
  "('s, 'st, 'sp) CCoinsView \<Rightarrow> CTxIn \<Rightarrow> ('s, 'st, 'sp) CCoinsViewCache \<Rightarrow> (CTxOut \<times> ('s, 'st, 'sp) CCoinsViewCache) result" where
  "GetOutputFor V txin c =
     (case AccessCoins V (op_hash (prevout txin)) c of
        (None, c) \<Rightarrow> Inl (AssertFail ''coins && coins->IsAvailable(input.prevout.n)'')
      | (Some coins, c) \<Rightarrow>
          if IsAvailable coins (op_n (prevout txin)) then Inr (cc_vout coins ! unat (op_n (prevout txin)), c)
          else Inl (AssertFail ''coins && coins->IsAvailable(input.prevout.n)''))"

fun sum_inputs ::
  "('s, 'st, 'sp) CCoinsView \<Rightarrow> CTxIn list \<Rightarrow> CAmount \<Rightarrow> ('s, 'st, 'sp) CCoinsViewCache \<Rightarrow> (CAmount \<times> ('s, 'st, 'sp) CCoinsViewCache) result" where
  "sum_inputs V [] nResult c = Inr (nResult, c)"
| "sum_inputs V (txin # ins) nResult c =
     (case GetOutputFor V txin c of Inl e \<Rightarrow> Inl e | Inr (out, c) \<Rightarrow> sum_inputs V ins (nResult + nValue out) c)"

definition GetValueIn ::
  "('s, 'st, 'sp) CCoinsView \<Rightarrow> CTransaction \<Rightarrow> ('s, 'st, 'sp) CCoinsViewCache \<Rightarrow> (CAmount \<times> ('s, 'st, 'sp) CCoinsViewCache) result" where
  "GetValueIn V tx c =
     (if IsCoinBase tx then Inr (0, c)
      else case sum_inputs V (vin tx) 0 c of
        Inl e \<Rightarrow> Inl e
      | Inr (nResult, c) \<Rightarrow> (case GetShieldedValueIn tx of Inl e \<Rightarrow> Inl e | Inr n \<Rightarrow> Inr (nResult + n, c)))"

fun any_nullifier ::
  "('s, 'st, 'sp) CCoinsView \<Rightarrow> ShieldedType \<Rightarrow> uint256 list \<Rightarrow> ('s, 'st, 'sp) CCoinsViewCache \<Rightarrow> bool \<times> ('s, 'st, 'sp) CCoinsViewCache" where
  "any_nullifier V type [] c = (False, c)"
| "any_nullifier V type (nf # nfs) c =
     (case CCoinsViewCache_GetNullifier V nf type c of (b, c) \<Rightarrow> if b then (True, c) else any_nullifier V type nfs c)"

fun append_all :: "'t tree_ops \<Rightarrow> uint256 list \<Rightarrow> 't \<Rightarrow> 't result" where
  "append_all T [] tree = Inr tree"
| "append_all T (cm # cms) tree = (case tr_append T cm tree of Inl e \<Rightarrow> Inl e | Inr tree \<Rightarrow> append_all T cms tree)"

text \<open>A JoinSplit may use a tree that an earlier one of the same transaction made.\<close>

fun joinsplits_met ::
  "('s, 'st, 'sp) CCoinsView \<Rightarrow> 'st tree_ops \<Rightarrow> (uint256 \<rightharpoonup> 'st) \<Rightarrow> JSDescription list \<Rightarrow> ('s, 'st, 'sp) CCoinsViewCache \<Rightarrow>
   (bool \<times> ('s, 'st, 'sp) CCoinsViewCache) result" where
  "joinsplits_met V T intermediates [] c = Inr (True, c)"
| "joinsplits_met V T intermediates (joinsplit # js) c =
     (case any_nullifier V SPROUT (js_nullifiers joinsplit) c of
        (True, c) \<Rightarrow> Inr (False, c)
      | (False, c) \<Rightarrow>
          (case (case intermediates (js_anchor joinsplit) of
                   Some tree \<Rightarrow> (Some tree, c) | None \<Rightarrow> CCoinsViewCache_GetSproutAnchorAt V (js_anchor joinsplit) c) of
             (None, c) \<Rightarrow> Inr (False, c)
           | (Some tree, c) \<Rightarrow>
               (case append_all T (js_commitments joinsplit) tree of
                  Inl e \<Rightarrow> Inl e
                | Inr tree \<Rightarrow>
                    joinsplits_met V T (if intermediates (tr_root T tree) = None then intermediates(tr_root T tree \<mapsto> tree) else intermediates) js c)))"

fun spends_met ::
  "('s, 'st, 'sp) CCoinsView \<Rightarrow> SpendDescription list \<Rightarrow> ('s, 'st, 'sp) CCoinsViewCache \<Rightarrow> bool \<times> ('s, 'st, 'sp) CCoinsViewCache" where
  "spends_met V [] c = (True, c)"
| "spends_met V (spend # spends) c =
     (case CCoinsViewCache_GetNullifier V (sd_nullifier spend) SAPLING c of
        (True, c) \<Rightarrow> (False, c)
      | (False, c) \<Rightarrow>
          (case CCoinsViewCache_GetSaplingAnchorAt V (sd_anchor spend) c of
             (None, c) \<Rightarrow> (False, c) | (Some tree, c) \<Rightarrow> spends_met V spends c))"

definition HaveShieldedRequirements ::
  "('s, 'st, 'sp) CCoinsView \<Rightarrow> 'st tree_ops \<Rightarrow> CTransaction \<Rightarrow> ('s, 'st, 'sp) CCoinsViewCache \<Rightarrow> (bool \<times> ('s, 'st, 'sp) CCoinsViewCache) result" where
  "HaveShieldedRequirements V T tx c =
     (case joinsplits_met V T Map.empty (vJoinSplit tx) c of
        Inl e \<Rightarrow> Inl e
      | Inr (b, c) \<Rightarrow> if b then Inr (spends_met V (vShieldedSpend tx) c) else Inr (False, c))"

fun inputs_available ::
  "('s, 'st, 'sp) CCoinsView \<Rightarrow> CTxIn list \<Rightarrow> ('s, 'st, 'sp) CCoinsViewCache \<Rightarrow> bool \<times> ('s, 'st, 'sp) CCoinsViewCache" where
  "inputs_available V [] c = (True, c)"
| "inputs_available V (txin # ins) c =
     (case AccessCoins V (op_hash (prevout txin)) c of
        (None, c) \<Rightarrow> (False, c)
      | (Some coins, c) \<Rightarrow> if \<not> IsAvailable coins (op_n (prevout txin)) then (False, c) else inputs_available V ins c)"

definition HaveInputs ::
  "('s, 'st, 'sp) CCoinsView \<Rightarrow> CTransaction \<Rightarrow> ('s, 'st, 'sp) CCoinsViewCache \<Rightarrow> bool \<times> ('s, 'st, 'sp) CCoinsViewCache" where
  "HaveInputs V tx c = (if \<not> IsCoinBase tx then inputs_available V (vin tx) c else (True, c))"

section \<open>What they read\<close>

text \<open>An output that is unspent in a state.\<close>

definition unspent :: "('st, 'sp) utxo \<Rightarrow> COutPoint \<Rightarrow> CTxOut option" where
  "unspent u p =
     (case u_coins u (op_hash p) of
        None \<Rightarrow> None | Some coins \<Rightarrow> if IsAvailable coins (op_n p) then Some (cc_vout coins ! unat (op_n p)) else None)"

lemma IsAvailable_not_pruned: "IsAvailable coins n \<Longrightarrow> \<not> IsPruned coins"
  by (auto simp: IsAvailable_def IsPruned_def list_all_length)

lemma unspent_live:
  "live r = u_coins u (op_hash p) \<Longrightarrow>
   unspent u p = (case r of None \<Rightarrow> None | Some coins \<Rightarrow> if IsAvailable coins (op_n p) then Some (cc_vout coins ! unat (op_n p)) else None)"
  by (drule sym, cases r) (auto simp: unspent_def dest: IsAvailable_not_pruned split: if_splits)

context coins_view
begin

abbreviation same :: "('s, 'st, 'sp) CCoinsViewCache \<Rightarrow> ('s, 'st, 'sp) CCoinsViewCache \<Rightarrow> bool" where
  "same c c' \<equiv> cinv c' \<and> cabs c' = cabs c \<and> absv (base c') = absv (base c)"

lemma FetchCoins_base: "cinv c \<Longrightarrow> FetchCoins V k c = (e, c') \<Longrightarrow> absv (base c') = absv (base c)"
  by (auto simp: FetchCoins_def Let_def dest!: GetCoins [OF cache_invD(1)] split: option.splits prod.splits)

lemma Sprout_base: "cinv c \<Longrightarrow> CCoinsViewCache_GetSproutAnchorAt V k c = (x, c') \<Longrightarrow> absv (base c') = absv (base c)"
  by (auto simp: CCoinsViewCache_GetSproutAnchorAt_def dest!: GetSproutAnchorAt [OF cache_invD(1)] split: option.splits prod.splits)

lemma Sapling_base: "cinv c \<Longrightarrow> CCoinsViewCache_GetSaplingAnchorAt V k c = (x, c') \<Longrightarrow> absv (base c') = absv (base c)"
  by (auto simp: CCoinsViewCache_GetSaplingAnchorAt_def dest!: GetSaplingAnchorAt [OF cache_invD(1)] split: option.splits prod.splits)

lemma Nullifier_base: "cinv c \<Longrightarrow> CCoinsViewCache_GetNullifier V k t c = (x, c') \<Longrightarrow> absv (base c') = absv (base c)"
  by (auto simp: CCoinsViewCache_GetNullifier_def Let_def dest!: GetNullifier [OF cache_invD(1)]
      split: option.splits prod.splits ShieldedType.splits)

lemma BestAnchor_base: "cinv c \<Longrightarrow> CCoinsViewCache_GetBestAnchor V t c = (x, c') \<Longrightarrow> absv (base c') = absv (base c)"
  by (auto simp: CCoinsViewCache_GetBestAnchor_def dest!: GetBestAnchor [OF cache_invD(1)]
      split: if_splits prod.splits ShieldedType.splits)

lemma BestBlock_base: "cinv c \<Longrightarrow> CCoinsViewCache_GetBestBlock V c = (x, c') \<Longrightarrow> absv (base c') = absv (base c)"
  by (auto simp: CCoinsViewCache_GetBestBlock_def dest!: GetBestBlock [OF cache_invD(1)] split: if_splits prod.splits)

lemma AccessCoins_law:
  assumes "cinv c" "AccessCoins V k c = (r, c')"
  shows "live r = u_coins (cabs c) k \<and> same c c'"
proof -
  obtain e c1 where f: "FetchCoins V k c = (e, c1)" by fastforce
  then have "r = map_option ce_coins e" "c1 = c'" using assms(2) by (auto simp: AccessCoins_def split: option.splits)
  then show ?thesis using FetchCoins_law [OF assms(1) f] FetchCoins_base [OF assms(1) f] by simp
qed

lemma GetOutputFor_law:
  assumes "cinv c"
  shows "case unspent (cabs c) (prevout txin) of
      None \<Rightarrow> \<exists>e. GetOutputFor V txin c = Inl e
    | Some out \<Rightarrow> \<exists>c'. GetOutputFor V txin c = Inr (out, c') \<and> same c c'"
proof -
  obtain r c' where a: "AccessCoins V (op_hash (prevout txin)) c = (r, c')" by fastforce
  note l = AccessCoins_law [OF assms a]
  show ?thesis unfolding unspent_live [OF conjunct1 [OF l]] using a l by (auto simp: GetOutputFor_def split: option.split)
qed

lemma inputs_available_law:
  "cinv c \<Longrightarrow> inputs_available V ins c = (b, c') \<Longrightarrow> same c c' \<and> b = (\<forall>i \<in> set ins. unspent (cabs c) (prevout i) \<noteq> None)"
proof (induction ins arbitrary: c)
  case (Cons txin ins)
  obtain r c1 where a: "AccessCoins V (op_hash (prevout txin)) c = (r, c1)" by fastforce
  note l = AccessCoins_law [OF Cons.prems(1) a]
  note u = unspent_live [OF conjunct1 [OF l]]
  show ?case
  proof (cases "unspent (cabs c) (prevout txin)")
    case None
    then show ?thesis using Cons.prems(2) a l u by (auto split: option.splits if_splits)
  next
    case (Some out)
    then have "inputs_available V ins c1 = (b, c')" using Cons.prems(2) a u by (auto split: option.splits if_splits)
    then show ?thesis using Cons.IH [of c1] l Some by simp
  qed
qed simp

lemma any_nullifier_law:
  "cinv c \<Longrightarrow> any_nullifier V t nfs c = (b, c') \<Longrightarrow> same c c' \<and> b = (\<exists>nf \<in> set nfs. u_nullifier (cabs c) t nf)"
proof (induction nfs arbitrary: c)
  case (Cons nf nfs)
  obtain x c1 where g: "CCoinsViewCache_GetNullifier V nf t c = (x, c1)" by fastforce
  note l = Nullifier_law [OF Cons.prems(1) g] Nullifier_base [OF Cons.prems(1) g]
  show ?case
  proof (cases x)
    case False
    then have "any_nullifier V t nfs c1 = (b, c')" using Cons.prems(2) g by simp
    then show ?thesis using Cons.IH [of c1] l False by simp
  qed (use Cons.prems(2) g l in auto)
qed simp

end

definition value_of_inputs :: "('st, 'sp) utxo \<Rightarrow> CTxIn list \<Rightarrow> CAmount" where
  "value_of_inputs u ins = (\<Sum>i\<leftarrow>ins. nValue (the (unspent u (prevout i))))"

lemma value_of_inputs_simps [simp]:
  "value_of_inputs u [] = 0" "value_of_inputs u (i # ins) = nValue (the (unspent u (prevout i))) + value_of_inputs u ins"
  by (simp_all add: value_of_inputs_def)

context coins_view
begin

lemma sum_inputs_law:
  "cinv c \<Longrightarrow> sum_inputs V ins n c = Inr (m, c') \<Longrightarrow>
   same c c' \<and> (\<forall>i \<in> set ins. unspent (cabs c) (prevout i) \<noteq> None) \<and> m = n + value_of_inputs (cabs c) ins"
proof (induction ins arbitrary: c n)
  case (Cons txin ins)
  note g = GetOutputFor_law [OF Cons.prems(1), of txin]
  then obtain out c1 where o: "unspent (cabs c) (prevout txin) = Some out" "GetOutputFor V txin c = Inr (out, c1)" "same c c1"
    using Cons.prems(2) by (auto split: option.splits sum.splits)
  then have "sum_inputs V ins (n + nValue out) c1 = Inr (m, c')" using Cons.prems(2) by simp
  then show ?case using Cons.IH [of c1 "n + nValue out"] o by simp
qed simp

lemma sum_inputs_total:
  "cinv c \<Longrightarrow> \<forall>i \<in> set ins. unspent (cabs c) (prevout i) \<noteq> None \<Longrightarrow> \<exists>r. sum_inputs V ins n c = Inr r"
proof (induction ins arbitrary: c n)
  case (Cons txin ins)
  then obtain out c1 where "GetOutputFor V txin c = Inr (out, c1)" "same c c1"
    using GetOutputFor_law [OF Cons.prems(1), of txin] by auto
  then show ?case using Cons.IH [of c1 "n + nValue out"] Cons.prems(2) by simp
qed simp

lemma joinsplits_met_law:
  "cinv c \<Longrightarrow> joinsplits_met V T im js c = Inr (b, c') \<Longrightarrow>
   same c c' \<and> (b \<longrightarrow> (\<forall>j \<in> set js. \<forall>nf \<in> set (js_nullifiers j). \<not> u_nullifier (cabs c) SPROUT nf))"
proof (induction js arbitrary: c im)
  case (Cons j js)
  obtain x c1 where a: "any_nullifier V SPROUT (js_nullifiers j) c = (x, c1)" by fastforce
  note l = any_nullifier_law [OF Cons.prems(1) a]
  show ?case
  proof (cases x)
    case False
    obtain t c2 where t: "(case im (js_anchor j) of Some tree \<Rightarrow> (Some tree, c1) | None \<Rightarrow> CCoinsViewCache_GetSproutAnchorAt V (js_anchor j) c1) = (t, c2)"
      by fastforce
    have s: "same c c2"
    proof (cases "im (js_anchor j)")
      case None
      then have "CCoinsViewCache_GetSproutAnchorAt V (js_anchor j) c1 = (t, c2)" using t by simp
      then show ?thesis using Sprout_law Sprout_base l by metis
    qed (use t l in simp)
    show ?thesis
    proof (cases t)
      case None
      then show ?thesis using Cons.prems(2) a False t s by simp
    next
      case (Some tree)
      then obtain im' where "joinsplits_met V T im' js c2 = Inr (b, c')"
        using Cons.prems(2) a False t by (auto split: sum.splits)
      then show ?thesis using Cons.IH [of c2 im'] s l False by simp
    qed
  qed (use Cons.prems(2) a l in auto)
qed simp

lemma spends_met_law:
  "cinv c \<Longrightarrow> spends_met V spends c = (b, c') \<Longrightarrow>
   same c c' \<and> (b \<longrightarrow> (\<forall>s \<in> set spends. \<not> u_nullifier (cabs c) SAPLING (sd_nullifier s) \<and> u_sapling (cabs c) (sd_anchor s) \<noteq> None))"
proof (induction spends arbitrary: c)
  case (Cons s spends)
  obtain x c1 where n: "CCoinsViewCache_GetNullifier V (sd_nullifier s) SAPLING c = (x, c1)" by fastforce
  note l = Nullifier_law [OF Cons.prems(1) n] Nullifier_base [OF Cons.prems(1) n]
  obtain t c2 where t: "CCoinsViewCache_GetSaplingAnchorAt V (sd_anchor s) c1 = (t, c2)" by fastforce
  have "cinv c1" using l by simp
  note m = Sapling_law [OF this t] Sapling_base [OF this t]
  show ?case
  proof (cases "x \<or> t = None")
    case False
    then have "spends_met V spends c2 = (b, c')" using Cons.prems(2) n t by auto
    then show ?thesis using Cons.IH [of c2] l m False by auto
  qed (use Cons.prems(2) n t l m in auto)
qed simp

lemma HaveShieldedRequirements_law:
  assumes "cinv c" "HaveShieldedRequirements V T tx c = Inr (b, c')"
  shows "same c c' \<and> (b \<longrightarrow> (\<forall>t. \<forall>nf \<in> tx_nullifiers tx t. \<not> u_nullifier (cabs c) t nf))"
proof -
  obtain x c1 where j: "joinsplits_met V T Map.empty (vJoinSplit tx) c = Inr (x, c1)"
    and r: "if x then spends_met V (vShieldedSpend tx) c1 = (b, c') else b = False \<and> c' = c1"
    using assms(2) by (auto simp: HaveShieldedRequirements_def split: sum.splits if_splits)
  note l = joinsplits_met_law [OF assms(1) j]
  then have i: "cinv c1" by simp
  show ?thesis
  proof (cases x)
    case True
    then show ?thesis using l spends_met_law [OF i, of "vShieldedSpend tx" b c'] r
      by (auto simp: tx_nullifiers_def split: ShieldedType.splits)
  qed (use l r in auto)
qed

lemma HaveInputs_law:
  assumes "cinv c" "HaveInputs V tx c = (b, c')"
  shows "same c c' \<and> b = (IsCoinBase tx \<or> (\<forall>i \<in> set (vin tx). unspent (cabs c) (prevout i) \<noteq> None))"
  using assms inputs_available_law [OF assms(1)] by (auto simp: HaveInputs_def split: if_splits)

lemma GetValueIn_law:
  assumes "cinv c" "GetValueIn V tx c = Inr (n, c')" "\<not> IsCoinBase tx"
  shows "same c c' \<and> (\<exists>s. GetShieldedValueIn tx = Inr s \<and> n = value_of_inputs (cabs c) (vin tx) + s)"
  using assms by (auto simp: GetValueIn_def split: sum.splits dest!: sum_inputs_law [OF assms(1)])

end

section \<open>Spending and restoring outputs\<close>

text \<open>
  The life of a modifier: \<open>ModifyCoins\<close>, the work \<open>f\<close> on the coins it refers to, and the destructor at the end of the
  scope.
\<close>

definition with_coins ::
  "('s, 'st, 'sp) CCoinsView \<Rightarrow> uint256 \<Rightarrow> (CCoins \<Rightarrow> ('r \<times> CCoins) result) \<Rightarrow> ('s, 'st, 'sp) CCoinsViewCache \<Rightarrow>
   ('r \<times> ('s, 'st, 'sp) CCoinsViewCache) result" where
  "with_coins V txid f view =
     (case ModifyCoins V txid view of
        Inl e \<Rightarrow> Inl e
      | Inr view \<Rightarrow>
          (case f (modifier_coins txid view) of
             Inl e \<Rightarrow> Inl e
           | Inr (r, coins) \<Rightarrow>
               (case CCoinsModifier_destroy txid (modifier_set txid coins view) of Inl e \<Rightarrow> Inl e | Inr view \<Rightarrow> Inr (r, view))))"

definition spend_coins :: "uint32_t \<Rightarrow> CCoins \<Rightarrow> (CTxInUndo \<times> CCoins) result" where
  "spend_coins nPos coins =
     (if unat nPos \<ge> length (cc_vout coins) \<or> CTxOut_IsNull (cc_vout coins ! unat nPos) then Inl (AssertFail ''false'')
      else let undo = CTxInUndo_of (cc_vout coins ! unat nPos); coins = snd (CCoins_Spend coins nPos)
           in Inr (if length (cc_vout coins) = 0
                   then undo\<lparr>iu_nHeight := word_of_int (cc_nHeight coins), iu_fCoinBase := cc_fCoinBase coins, iu_nVersion := cc_nVersion coins\<rparr>
                   else undo, coins))"

fun spend_inputs ::
  "('s, 'st, 'sp) CCoinsView \<Rightarrow> CTxIn list \<Rightarrow> ('s, 'st, 'sp) CCoinsViewCache \<Rightarrow> (CTxInUndo list \<times> ('s, 'st, 'sp) CCoinsViewCache) result" where
  "spend_inputs V [] inputs = Inr ([], inputs)"
| "spend_inputs V (txin # ins) inputs =
     (case with_coins V (op_hash (prevout txin)) (spend_coins (op_n (prevout txin))) inputs of
        Inl e \<Rightarrow> Inl e
      | Inr (undo, inputs) \<Rightarrow>
          (case spend_inputs V ins inputs of Inl e \<Rightarrow> Inl e | Inr (undos, inputs) \<Rightarrow> Inr (undo # undos, inputs)))"

definition UpdateCoins ::
  "('s, 'st, 'sp) CCoinsView \<Rightarrow> CTransaction \<Rightarrow> int \<Rightarrow> ('s, 'st, 'sp) CCoinsViewCache \<Rightarrow> (CTxInUndo list \<times> ('s, 'st, 'sp) CCoinsViewCache) result" where
  "UpdateCoins V tx nHeight inputs =
     (case (if \<not> IsCoinBase tx then spend_inputs V (vin tx) inputs else Inr ([], inputs)) of
        Inl e \<Rightarrow> Inl e
      | Inr (txundo, inputs) \<Rightarrow>
          (case ModifyNewCoins (tx_hash tx) (SetNullifiers tx True inputs) of
             Inl e \<Rightarrow> Inl e
           | Inr inputs \<Rightarrow>
               (case CCoinsModifier_destroy (tx_hash tx) (modifier_set (tx_hash tx) (FromTx tx nHeight) inputs) of
                  Inl e \<Rightarrow> Inl e | Inr inputs \<Rightarrow> Inr (txundo, inputs))))"

text \<open>Resizing a vector of outputs to more elements; the position just past the end of it is the last one that can be written to.\<close>

definition vout_resize :: "nat \<Rightarrow> CTxOut list \<Rightarrow> CTxOut list" where
  "vout_resize n outs = take n outs @ replicate (n - length outs) CTxOut_null"

definition restore_coins :: "CTxInUndo \<Rightarrow> uint32_t \<Rightarrow> CCoins \<Rightarrow> (bool \<times> CCoins) result" where
  "restore_coins undo n coins =
     (let (fClean, coins) =
            (if iu_nHeight undo \<noteq> 0
             then (IsPruned coins, CCoins_Clear\<lparr>cc_fCoinBase := iu_fCoinBase undo, cc_nHeight := sint (iu_nHeight undo), cc_nVersion := iu_nVersion undo\<rparr>)
             else (\<not> IsPruned coins, coins));
          fClean = (fClean \<and> \<not> IsAvailable coins n);
          coins = (if length (cc_vout coins) < unat (n + 1) then coins\<lparr>cc_vout := vout_resize (unat (n + 1)) (cc_vout coins)\<rparr> else coins)
      in if unat n \<ge> length (cc_vout coins) then Inl (Throw ''vector index out of range'')
         else Inr (fClean, coins\<lparr>cc_vout := (cc_vout coins)[unat n := iu_txout undo]\<rparr>))"

definition ApplyTxInUndo ::
  "('s, 'st, 'sp) CCoinsView \<Rightarrow> CTxInUndo \<Rightarrow> COutPoint \<Rightarrow> ('s, 'st, 'sp) CCoinsViewCache \<Rightarrow> (bool \<times> ('s, 'st, 'sp) CCoinsViewCache) result" where
  "ApplyTxInUndo V undo out view = with_coins V (op_hash out) (restore_coins undo (op_n out)) view"

fun restore_inputs ::
  "('s, 'st, 'sp) CCoinsView \<Rightarrow> (CTxInUndo \<times> CTxIn) list \<Rightarrow> bool \<Rightarrow> ('s, 'st, 'sp) CCoinsViewCache \<Rightarrow> (bool \<times> ('s, 'st, 'sp) CCoinsViewCache) result" where
  "restore_inputs V [] fClean view = Inr (fClean, view)"
| "restore_inputs V ((undo, txin) # xs) fClean view =
     (case ApplyTxInUndo V undo (prevout txin) view of
        Inl e \<Rightarrow> Inl e
      | Inr (ok, view) \<Rightarrow> restore_inputs V xs (if \<not> ok then False else fClean) view)"

text \<open>
  Coins a view may hold: no spent output at the end, every spent output cleared, a height that is positive and a
  number of outputs that fits the index of an outpoint.
\<close>

definition coins_ok :: "CCoins \<Rightarrow> bool" where
  "coins_ok y \<longleftrightarrow> strip_nulls (cc_vout y) = cc_vout y \<and> (\<forall>x \<in> set (cc_vout y). CTxOut_IsNull x \<longrightarrow> x = CTxOut_null) \<and>
     0 < cc_nHeight y \<and> cc_nHeight y < 2 ^ 31 \<and> length (cc_vout y) < 2 ^ 32"

definition utxo_ok :: "('st, 'sp) utxo \<Rightarrow> bool" where
  "utxo_ok u \<longleftrightarrow> (\<forall>k y. u_coins u k = Some y \<longrightarrow> coins_ok y)"

lemma strip_nulls_take: "\<exists>m \<le> length xs. strip_nulls xs = take m xs \<and> (\<forall>x \<in> set (drop m xs). CTxOut_IsNull x)"
proof (induction xs rule: rev_induct)
  case (snoc x xs)
  then obtain m where m: "m \<le> length xs" "strip_nulls xs = take m xs" "\<forall>x \<in> set (drop m xs). CTxOut_IsNull x" by blast
  show ?case
  proof (cases "CTxOut_IsNull x")
    case True
    then have "strip_nulls (xs @ [x]) = take m (xs @ [x])" using m by (simp add: strip_nulls_append)
    then show ?thesis using m True by (intro exI [of _ m]) auto
  next
    case False
    then have "strip_nulls (xs @ [x]) = xs @ [x]" by (simp add: strip_nulls_def)
    then show ?thesis by (intro exI [of _ "length (xs @ [x])"]) simp
  qed
qed (simp add: strip_nulls_def)

lemma strip_nulls_last: "xs \<noteq> [] \<Longrightarrow> strip_nulls xs = xs \<longleftrightarrow> \<not> CTxOut_IsNull (last xs)"
proof (cases xs rule: rev_cases)
  case (snoc ys y)
  show ?thesis
  proof (cases "CTxOut_IsNull y")
    case True
    obtain m where "m \<le> length ys" "strip_nulls ys = take m ys" using strip_nulls_take [of ys] by blast
    then have "length (strip_nulls xs) < length xs" using snoc True by (simp add: strip_nulls_append)
    then show ?thesis using snoc True by auto
  next
    case False
    then show ?thesis using snoc by (simp add: strip_nulls_def)
  qed
qed simp

lemma strip_nulls_idem [simp]: "strip_nulls (strip_nulls xs) = strip_nulls xs"
proof -
  have "dropWhile P (dropWhile P ys) = dropWhile P ys" for P :: "CTxOut \<Rightarrow> bool" and ys by (induction ys) auto
  then show ?thesis by (simp add: strip_nulls_def)
qed

lemma strip_nulls_Nil [simp]: "strip_nulls [] = []"
  by (simp add: strip_nulls_def)

lemma Cleanup_idem [simp]: "CCoins_Cleanup (CCoins_Cleanup y) = CCoins_Cleanup y"
  by (simp add: CCoins_Cleanup_strip)

lemma length_vout_resize: "length (vout_resize n outs) = n"
  by (simp add: vout_resize_def)

text \<open>Putting an output back where it was spent.\<close>

lemma restore_vout:
  assumes "strip_nulls v = v" "\<forall>x \<in> set v. CTxOut_IsNull x \<longrightarrow> x = CTxOut_null" "n < length v" "\<not> CTxOut_IsNull (v ! n)"
  defines "w \<equiv> strip_nulls (v[n := CTxOut_null])"
  shows "(if length w < n + 1 then vout_resize (n + 1) w else w)[n := v ! n] = v" "n < length w \<Longrightarrow> CTxOut_IsNull (w ! n)"
proof -
  let ?v = "v[n := CTxOut_null]"
  obtain m where m: "m \<le> length ?v" "w = take m ?v" "\<forall>x \<in> set (drop m ?v). CTxOut_IsNull x"
    using strip_nulls_take [of ?v] unfolding w_def by blast
  show "n < length w \<Longrightarrow> CTxOut_IsNull (w ! n)" using m assms(3) by simp
  show "(if length w < n + 1 then vout_resize (n + 1) w else w)[n := v ! n] = v"
  proof (cases "n + 1 = length v")
    case True
    have nul: "\<forall>x \<in> set (drop m ?v). x = CTxOut_null"
      using m(3) assms(2) set_update_subset_insert [of v n CTxOut_null] set_drop_subset [of m ?v] by blast
    have "vout_resize (length v) w = take m ?v @ replicate (length v - m) CTxOut_null" using m by (simp add: vout_resize_def)
    also have "replicate (length v - m) CTxOut_null = drop m ?v"
      using nul by (intro replicate_eqI [symmetric]) auto
    finally have "vout_resize (n + 1) w = ?v" using True by simp
    then show ?thesis using True m by (cases "length w < n + 1") (auto simp: min_def split: if_splits)
  next
    case False
    have "v \<noteq> []" using assms(3) by auto
    moreover have "last ?v = last v" using False assms(3) by (subst last_list_update) auto
    ultimately have "w = ?v" using strip_nulls_last [of v] strip_nulls_last [of ?v] assms(1) unfolding w_def by simp
    then show ?thesis using assms(3) by simp
  qed
qed


lemma sint_height:
  assumes "0 < h" "h < 2 ^ 31"
  shows "sint (word_of_int h :: uint32_t) = h" "(word_of_int h :: uint32_t) \<noteq> 0"
proof -
  show "sint (word_of_int h :: uint32_t) = h" using assms by (simp add: sint_sbintrunc' signed_take_bit_int_eq_self)
  then show "(word_of_int h :: uint32_t) \<noteq> 0" using assms by (metis less_irrefl sint_0)
qed

lemma restore_spend:
  assumes "coins_ok y" "spend_coins n y = Inr (undo, y')" "live (Some z) = live (Some (CCoins_Cleanup y'))"
  shows "restore_coins undo n z = Inr (True, y)"
proof -
  let ?n = "unat n" and ?v = "cc_vout y"
  let ?w = "strip_nulls (?v[?n := CTxOut_null])"
  have av: "?n < length ?v" "\<not> CTxOut_IsNull (?v ! ?n)" using assms(2) by (auto simp: spend_coins_def split: if_splits)
  have y': "y' = y\<lparr>cc_vout := ?w\<rparr>" and u: "undo = (if ?w = []
      then (CTxInUndo_of (?v ! ?n))\<lparr>iu_nHeight := word_of_int (cc_nHeight y), iu_fCoinBase := cc_fCoinBase y, iu_nVersion := cc_nVersion y\<rparr>
      else CTxInUndo_of (?v ! ?n))"
    using assms(2) av by (auto simp: spend_coins_def CCoins_Spend_def CCoins_Cleanup_strip Let_def)
  note ok = assms(1) [unfolded coins_ok_def]
  have n1: "unat (n + 1) = ?n + 1"
    using av ok by (simp add: unat_word_ariths)
  have vok: "strip_nulls ?v = ?v" "\<forall>x \<in> set ?v. CTxOut_IsNull x \<longrightarrow> x = CTxOut_null" using ok by simp_all
  note r = restore_vout [OF vok av]
  show ?thesis
  proof (cases "?w = []")
    case True
    have "IsPruned y'" using y' True by (simp add: IsPruned_def)
    then have z: "IsPruned z" using assms(3) by (simp split: if_splits)
    have h: "sint (iu_nHeight undo) = cc_nHeight y" "iu_nHeight undo \<noteq> 0"
      using u True ok sint_height [of "cc_nHeight y"] by auto
    have "(vout_resize (?n + 1) [])[?n := ?v ! ?n] = ?v" using r(1) True by simp
    then show ?thesis using z h u True n1 by (simp add: restore_coins_def CCoins_Clear_def IsAvailable_def CTxInUndo_of_def vout_resize_def)
  next
    case False
    then have "\<not> IsPruned y'" using strip_nulls_last [of ?w] y' by (auto simp: IsPruned_def list_all_iff)
    then have z: "z = y'" "\<not> IsPruned z" using assms(3) y' by (auto simp: CCoins_Cleanup_strip split: if_splits)
    show ?thesis using z u False n1 r by (auto simp: restore_coins_def y' IsAvailable_def CTxInUndo_of_def Let_def length_vout_resize)
  qed
qed

section \<open>Restoring what was spent\<close>

definition set_coins :: "uint256 \<Rightarrow> CCoins option \<Rightarrow> ('st, 'sp) utxo \<Rightarrow> ('st, 'sp) utxo" where
  "set_coins k x u = u\<lparr>u_coins := (u_coins u)(k := x)\<rparr>"

lemma set_coins_sel [simp]:
  "u_coins (set_coins k x u) = (u_coins u)(k := x)" "u_sprout (set_coins k x u) = u_sprout u" "u_sapling (set_coins k x u) = u_sapling u"
  "u_nullifier (set_coins k x u) = u_nullifier u" "u_block (set_coins k x u) = u_block u" "u_anchor (set_coins k x u) = u_anchor u"
  by (simp_all add: set_coins_def)

lemma set_coins_again [simp]: "set_coins k x (set_coins k z u) = set_coins k x u"
  by (simp add: set_coins_def)

lemma set_coins_id: "u_coins u k = x \<Longrightarrow> set_coins k x u = u"
  by (auto simp: set_coins_def)

lemma utxo_ok_set: "utxo_ok u \<Longrightarrow> (\<And>y. x = Some y \<Longrightarrow> coins_ok y) \<Longrightarrow> utxo_ok (set_coins k x u)"
  by (auto simp: utxo_ok_def)

lemma spend_coins_available: "spend_coins n z = Inr r \<Longrightarrow> \<not> IsPruned z"
  by (rule IsAvailable_not_pruned [of z n]) (auto simp: spend_coins_def IsAvailable_def split: if_splits)

lemma coins_ok_Cleanup: "coins_ok y \<Longrightarrow> CCoins_Cleanup y = y"
  by (simp add: coins_ok_def CCoins_Cleanup_strip)

lemma set_strip_nulls: "set (strip_nulls xs) \<subseteq> set xs" "length (strip_nulls xs) \<le> length xs"
  using strip_nulls_take [of xs] set_take_subset [of _ xs] by fastforce+

lemma spend_coins_ok:
  assumes "coins_ok y" "spend_coins n y = Inr (undo, y')"
  shows "coins_ok (CCoins_Cleanup y')"
proof -
  let ?v = "cc_vout y" let ?w = "strip_nulls (?v[unat n := CTxOut_null])"
  have "CCoins_Cleanup y' = y\<lparr>cc_vout := ?w\<rparr>"
    using assms(2) by (auto simp: spend_coins_def CCoins_Spend_def CCoins_Cleanup_strip Let_def split: if_splits)
  moreover have "set ?w \<subseteq> insert CTxOut_null (set ?v)"
    using set_strip_nulls(1) [of "?v[unat n := CTxOut_null]"] set_update_subset_insert [of ?v "unat n" CTxOut_null] by blast
  moreover have "length ?w \<le> length ?v" using set_strip_nulls(2) [of "?v[unat n := CTxOut_null]"] by simp
  ultimately show ?thesis using assms(1) by (auto simp: coins_ok_def)
qed

context coins_view
begin

lemma with_coins_law:
  assumes "cinv c"
  shows "\<exists>z. live (Some z) = u_coins (cabs c) k \<and>
    (case f z of
       Inl e \<Rightarrow> with_coins V k f c = Inl e
     | Inr (r, y) \<Rightarrow> \<exists>c'. with_coins V k f c = Inr (r, c') \<and> cinv c' \<and> absv (base c') = absv (base c) \<and>
         cabs c' = set_coins k (live (Some (CCoins_Cleanup y))) (cabs c))"
proof -
  obtain c1 where c1: "ModifyCoins V k c = Inr c1" "live (Some (modifier_coins k c1)) = u_coins (cabs c) k"
    "\<And>y. \<exists>c'. CCoinsModifier_destroy k (modifier_set k y c1) = Inr c' \<and> cinv c' \<and> absv (base c') = absv (base c) \<and>
       cabs c' = (cabs c)\<lparr>u_coins := (u_coins (cabs c))(k := live (Some (CCoins_Cleanup y)))\<rparr>"
    using Modify_law [OF assms] by blast
  show ?thesis
  proof (intro exI [of _ "modifier_coins k c1"] conjI c1(2), cases "f (modifier_coins k c1)")
    case (Inr p)
    then obtain r y where "f (modifier_coins k c1) = Inr (r, y)" by (cases p) simp
    then show "case f (modifier_coins k c1) of Inl e \<Rightarrow> with_coins V k f c = Inl e
      | Inr (r, y) \<Rightarrow> \<exists>c'. with_coins V k f c = Inr (r, c') \<and> cinv c' \<and> absv (base c') = absv (base c) \<and>
          cabs c' = set_coins k (live (Some (CCoins_Cleanup y))) (cabs c)"
      using c1(3) [of y] c1(1) by (auto simp: with_coins_def set_coins_def)
  qed (simp add: with_coins_def c1)
qed

lemma spend_law:
  assumes "cinv c" "with_coins V (op_hash p) (spend_coins (op_n p)) c = Inr (undo, c')"
  obtains y y' where "u_coins (cabs c) (op_hash p) = Some y" "spend_coins (op_n p) y = Inr (undo, y')" "cinv c'"
    "absv (base c') = absv (base c)" "cabs c' = set_coins (op_hash p) (live (Some (CCoins_Cleanup y'))) (cabs c)"
proof -
  obtain z where z: "live (Some z) = u_coins (cabs c) (op_hash p)"
    "case spend_coins (op_n p) z of Inl e \<Rightarrow> with_coins V (op_hash p) (spend_coins (op_n p)) c = Inl e
     | Inr (r, y) \<Rightarrow> \<exists>c'. with_coins V (op_hash p) (spend_coins (op_n p)) c = Inr (r, c') \<and> cinv c' \<and> absv (base c') = absv (base c) \<and>
         cabs c' = set_coins (op_hash p) (live (Some (CCoins_Cleanup y))) (cabs c)"
    using with_coins_law [OF assms(1)] by blast
  then obtain y' where y': "spend_coins (op_n p) z = Inr (undo, y')" using assms(2) by (auto split: sum.splits)
  moreover have "u_coins (cabs c) (op_hash p) = Some z" using z(1) spend_coins_available [OF y'] by simp
  ultimately show thesis using that z(2) assms(2) by auto
qed

lemma restore_law:
  assumes "cinv c" "cabs c = set_coins (op_hash p) (live (Some (CCoins_Cleanup y'))) u" "u_coins u (op_hash p) = Some y"
    and "coins_ok y" "spend_coins (op_n p) y = Inr (undo, y')"
  shows "\<exists>c'. ApplyTxInUndo V undo p c = Inr (True, c') \<and> cinv c' \<and> cabs c' = u"
proof -
  obtain z where z: "live (Some z) = u_coins (cabs c) (op_hash p)"
    "case restore_coins undo (op_n p) z of Inl e \<Rightarrow> with_coins V (op_hash p) (restore_coins undo (op_n p)) c = Inl e
     | Inr (r, y) \<Rightarrow> \<exists>c'. with_coins V (op_hash p) (restore_coins undo (op_n p)) c = Inr (r, c') \<and> cinv c' \<and> absv (base c') = absv (base c) \<and>
         cabs c' = set_coins (op_hash p) (live (Some (CCoins_Cleanup y))) (cabs c)"
    using with_coins_law [OF assms(1)] by blast
  have "restore_coins undo (op_n p) z = Inr (True, y)"
    using restore_spend [OF assms(4,5)] z(1) assms(2) by simp
  moreover have "live (Some (CCoins_Cleanup y)) = u_coins u (op_hash p)"
    using assms(3,4) spend_coins_available [OF assms(5)] by (simp add: coins_ok_Cleanup)
  ultimately show ?thesis using z(2) assms(2) by (auto simp: ApplyTxInUndo_def set_coins_id)
qed

lemma restore_inputs_append:
  "restore_inputs V (xs @ ys) b c = (case restore_inputs V xs b c of Inl e \<Rightarrow> Inl e | Inr (b', c') \<Rightarrow> restore_inputs V ys b' c')"
  by (induction V xs b c rule: restore_inputs.induct) (auto split: sum.split)

lemma spend_inputs_law:
  "cinv c \<Longrightarrow> utxo_ok (cabs c) \<Longrightarrow> spend_inputs V ins c = Inr (undos, c1) \<Longrightarrow>
   cinv c1 \<and> absv (base c1) = absv (base c) \<and> utxo_ok (cabs c1) \<and> length undos = length ins \<and>
   (\<exists>m. cabs c1 = (cabs c)\<lparr>u_coins := m\<rparr> \<and> (\<forall>k. u_coins (cabs c) k = None \<longrightarrow> m k = None)) \<and>
   (\<forall>c2 b. cinv c2 \<longrightarrow> cabs c2 = cabs c1 \<longrightarrow>
      (\<exists>c3. restore_inputs V (rev (zip undos ins)) b c2 = Inr (b, c3) \<and> cinv c3 \<and> cabs c3 = cabs c))"
proof (induction ins arbitrary: c undos)
  case Nil
  then show ?case by (auto intro!: exI [of _ "u_coins (cabs c)"])
next
  case (Cons txin ins)
  let ?p = "prevout txin"
  obtain undo ca us where s: "with_coins V (op_hash ?p) (spend_coins (op_n ?p)) c = Inr (undo, ca)"
    "spend_inputs V ins ca = Inr (us, c1)" "undos = undo # us"
    using Cons.prems(3) by (auto split: sum.splits)
  obtain y y' where y: "u_coins (cabs c) (op_hash ?p) = Some y" "spend_coins (op_n ?p) y = Inr (undo, y')" "cinv ca"
    "absv (base ca) = absv (base c)" "cabs ca = set_coins (op_hash ?p) (live (Some (CCoins_Cleanup y'))) (cabs c)"
    using spend_law [OF Cons.prems(1) s(1)] by blast
  have ok: "coins_ok y" using Cons.prems(2) y(1) by (simp add: utxo_ok_def)
  have "utxo_ok (cabs ca)" unfolding y(5)
    by (rule utxo_ok_set [OF Cons.prems(2)]) (auto intro: spend_coins_ok [OF ok y(2)] split: if_splits)
  note IH = Cons.IH [OF y(3) this s(2)]
  obtain m where m: "cabs c1 = (cabs ca)\<lparr>u_coins := m\<rparr>" "\<forall>k. u_coins (cabs ca) k = None \<longrightarrow> m k = None" using IH by blast
  have "u_coins (cabs ca) k = None" if "u_coins (cabs c) k = None" for k using that y(1,5) by auto
  then have "\<forall>k. u_coins (cabs c) k = None \<longrightarrow> m k = None" using m(2) by blast
  moreover have "cabs c1 = (cabs c)\<lparr>u_coins := m\<rparr>" using m(1) y(5) by (simp add: set_coins_def)
  moreover have "\<exists>c3. restore_inputs V (rev (zip undos (txin # ins))) b c2 = Inr (b, c3) \<and> cinv c3 \<and> cabs c3 = cabs c"
    if c2: "cinv c2" "cabs c2 = cabs c1" for c2 b
  proof -
    obtain c3 where c3: "restore_inputs V (rev (zip us ins)) b c2 = Inr (b, c3)" "cinv c3" "cabs c3 = cabs ca" using IH c2 by blast
    obtain c4 where "ApplyTxInUndo V undo ?p c3 = Inr (True, c4)" "cinv c4" "cabs c4 = cabs c"
      using restore_law [OF c3(2) _ y(1) ok y(2)] c3(3) y(5) by auto
    then show ?thesis using c3(1) s(3) by (simp add: restore_inputs_append)
  qed
  ultimately show ?case using IH s(3) y(4) by auto
qed

end

section \<open>Transactions\<close>

text \<open>
  One step of the loop of \<open>DisconnectBlock\<close>, for a transaction and its undo data, which the first transaction of a block does
  not have. The result is no flag where undo data and transaction do not fit.
\<close>

definition outputs_match :: "CTransaction \<Rightarrow> int \<Rightarrow> CCoins \<Rightarrow> (bool \<times> CCoins) result" where
  "outputs_match tx nHeight outs =
     (let outs = ClearUnspendable outs; outsBlock = FromTx tx nHeight;
          outs = (if cc_nVersion outsBlock < 0 then outs\<lparr>cc_nVersion := cc_nVersion outsBlock\<rparr> else outs)
      in Inr (CCoins_eq outs outsBlock, CCoins_Clear))"

definition disconnect_tx ::
  "('s, 'st, 'sp) CCoinsView \<Rightarrow> int \<Rightarrow> CTransaction \<Rightarrow> CTxInUndo list option \<Rightarrow> bool \<Rightarrow> ('s, 'st, 'sp) CCoinsViewCache \<Rightarrow>
   (bool option \<times> ('s, 'st, 'sp) CCoinsViewCache) result" where
  "disconnect_tx V nHeight tx txundo fClean view =
     (case with_coins V (tx_hash tx) (outputs_match tx nHeight) view of
        Inl e \<Rightarrow> Inl e
      | Inr (ok, view) \<Rightarrow>
          (let fClean = (fClean \<and> ok); view = SetNullifiers tx False view in
           case txundo of
             None \<Rightarrow> Inr (Some fClean, view)
           | Some vprevout \<Rightarrow>
               if length vprevout \<noteq> length (vin tx) then Inr (None, view)
               else case restore_inputs V (rev (zip vprevout (vin tx))) fClean view of
                 Inl e \<Rightarrow> Inl e | Inr (fClean, view) \<Rightarrow> Inr (Some fClean, view)))"

fun disconnect_txs ::
  "('s, 'st, 'sp) CCoinsView \<Rightarrow> int \<Rightarrow> (CTransaction \<times> CTxInUndo list option) list \<Rightarrow> bool \<Rightarrow> ('s, 'st, 'sp) CCoinsViewCache \<Rightarrow>
   (bool option \<times> ('s, 'st, 'sp) CCoinsViewCache) result" where
  "disconnect_txs V nHeight [] fClean view = Inr (Some fClean, view)"
| "disconnect_txs V nHeight ((tx, txundo) # txs) fClean view =
     (case disconnect_tx V nHeight tx txundo fClean view of
        Inl e \<Rightarrow> Inl e
      | Inr (None, view) \<Rightarrow> Inr (None, view)
      | Inr (Some fClean, view) \<Rightarrow> disconnect_txs V nHeight txs fClean view)"

definition tx_outputs_ok :: "CTransaction \<Rightarrow> bool" where
  "tx_outputs_ok tx \<longleftrightarrow> (\<forall>x \<in> set (vout tx). 0 \<le> nValue x) \<and> length (vout tx) < 2 ^ 32"

lemma IsPruned_Clear [simp]: "IsPruned CCoins_Clear"
  by (simp add: IsPruned_def CCoins_Clear_def)

lemma null_spendable: "\<not> IsUnspendable (scriptPubKey CTxOut_null)"
  by (simp add: CTxOut_null_def IsUnspendable_def MAX_SCRIPT_SIZE_def)

lemma ClearUnspendable_strip:
  "ClearUnspendable c = c\<lparr>cc_vout := strip_nulls (map (\<lambda>x. if IsUnspendable (scriptPubKey x) then CTxOut_null else x) (cc_vout c))\<rparr>"
  by (simp add: ClearUnspendable_def CCoins_Cleanup_strip)

lemma FromTx_ok:
  assumes "tx_outputs_ok tx" "0 < h" "h < 2 ^ 31"
  shows "coins_ok (FromTx tx h)"
proof -
  let ?v = "map (\<lambda>x. if IsUnspendable (scriptPubKey x) then CTxOut_null else x) (vout tx)"
  have "FromTx tx h = \<lparr>cc_fCoinBase = IsCoinBase tx, cc_vout = strip_nulls ?v, cc_nHeight = h, cc_nVersion = tx_nVersion tx\<rparr>"
    by (simp add: FromTx_def ClearUnspendable_strip)
  moreover have "\<forall>x \<in> set ?v. CTxOut_IsNull x \<longrightarrow> x = CTxOut_null" using assms(1) by (auto simp: tx_outputs_ok_def CTxOut_IsNull_def)
  ultimately show ?thesis using assms set_strip_nulls [of ?v] by (fastforce simp: coins_ok_def tx_outputs_ok_def)
qed

lemma ClearUnspendable_again: "ClearUnspendable (FromTx tx h) = FromTx tx h"
proof -
  let ?f = "\<lambda>x. if IsUnspendable (scriptPubKey x) then CTxOut_null else x"
  have "map ?f (strip_nulls (map ?f (vout tx))) = strip_nulls (map ?f (vout tx))"
    using set_strip_nulls(1) [of "map ?f (vout tx)"] by (intro map_idI) (auto simp: null_spendable)
  then show ?thesis by (simp add: FromTx_def ClearUnspendable_strip)
qed

lemma IsPruned_ClearUnspendable: "IsPruned z \<Longrightarrow> IsPruned (ClearUnspendable z)"
  using IsPruned_Cleanup by (auto simp: ClearUnspendable_def IsPruned_def list_all_iff)

lemma outputs_match_same:
  assumes "live (Some z) = live (Some (FromTx tx h))"
  shows "outputs_match tx h z = Inr (True, CCoins_Clear)"
proof (cases "IsPruned (FromTx tx h)")
  case True
  then have "IsPruned z" using assms by (simp split: if_splits)
  then have "IsPruned (ClearUnspendable z)" by (rule IsPruned_ClearUnspendable)
  then show ?thesis using True by (simp add: outputs_match_def CCoins_eq_def IsPruned_def Let_def)
next
  case False
  then have "z = FromTx tx h" using assms by (simp split: if_splits)
  then show ?thesis by (simp add: outputs_match_def CCoins_eq_def ClearUnspendable_again Let_def)
qed

context coins_view
begin

lemma remove_outputs_law:
  assumes "cinv c" "cabs c = u\<lparr>u_coins := m(tx_hash tx := live (Some (FromTx tx h))), u_nullifier := n\<rparr>" "m (tx_hash tx) = None"
    and "\<And>t k. u_nullifier u t k \<longleftrightarrow> k \<notin> tx_nullifiers tx t \<and> n t k"
  obtains c' where "with_coins V (tx_hash tx) (outputs_match tx h) c = Inr (True, c')"
    "cinv (SetNullifiers tx False c')" "cabs (SetNullifiers tx False c') = u\<lparr>u_coins := m\<rparr>"
proof -
  let ?k = "tx_hash tx"
  obtain z where z: "live (Some z) = u_coins (cabs c) ?k"
    "case outputs_match tx h z of Inl e \<Rightarrow> with_coins V ?k (outputs_match tx h) c = Inl e
     | Inr (r, y) \<Rightarrow> \<exists>c'. with_coins V ?k (outputs_match tx h) c = Inr (r, c') \<and> cinv c' \<and> absv (base c') = absv (base c) \<and>
         cabs c' = set_coins ?k (live (Some (CCoins_Cleanup y))) (cabs c)"
    using with_coins_law [OF assms(1)] by blast
  have "outputs_match tx h z = Inr (True, CCoins_Clear)" using z(1) assms(2) by (intro outputs_match_same) simp
  then obtain c' where c': "with_coins V ?k (outputs_match tx h) c = Inr (True, c')" "cinv c'" "cabs c' = set_coins ?k None (cabs c)"
    using z(2) by auto
  have "cabs (SetNullifiers tx False c') = u\<lparr>u_coins := m\<rparr>"
  proof (rule utxo_eqI)
    show "u_coins (cabs (SetNullifiers tx False c')) k = u_coins (u\<lparr>u_coins := m\<rparr>) k" for k
      using SetNullifiers_law [OF c'(2)] c'(3) assms(2,3) by simp
  qed (use SetNullifiers_law [OF c'(2)] c'(3) assms(2) in \<open>simp_all add: assms(4)\<close>)
  then show thesis using that c' SetNullifiers_law [OF c'(2)] by blast
qed

lemma UpdateCoins_law:
  assumes "cinv c" "utxo_ok (cabs c)" "UpdateCoins V tx h c = Inr (txundo, c1)"
    and new: "u_coins (cabs c) (tx_hash tx) = None" "u_coins (absv (base c)) (tx_hash tx) = None"
    and tx: "tx_outputs_ok tx" "0 < h" "h < 2 ^ 31"
    and nfs: "\<forall>t. \<forall>nf \<in> tx_nullifiers tx t. \<not> u_nullifier (cabs c) t nf"
  shows "cinv c1 \<and> absv (base c1) = absv (base c) \<and> utxo_ok (cabs c1) \<and>
    u_nullifier (cabs c1) = (\<lambda>t k. k \<in> tx_nullifiers tx t \<or> u_nullifier (cabs c) t k) \<and>
    (\<forall>k. k \<noteq> tx_hash tx \<longrightarrow> u_coins (cabs c) k = None \<longrightarrow> u_coins (cabs c1) k = None) \<and>
    (\<exists>m n. cabs c1 = (cabs c)\<lparr>u_coins := m, u_nullifier := n\<rparr>) \<and>
    (\<forall>c2 b. cinv c2 \<longrightarrow> cabs c2 = cabs c1 \<longrightarrow>
      (\<exists>c3. disconnect_tx V h tx (if IsCoinBase tx then None else Some txundo) b c2 = Inr (Some b, c3) \<and> cinv c3 \<and> cabs c3 = cabs c))"
proof -
  let ?k = "tx_hash tx" and ?new = "live (Some (FromTx tx h))"
  obtain ca where s: "(if \<not> IsCoinBase tx then spend_inputs V (vin tx) c else Inr ([], c)) = Inr (txundo, ca)"
    using assms(3) by (auto simp: UpdateCoins_def split: sum.splits)
  have "\<exists>m. cabs ca = (cabs c)\<lparr>u_coins := m\<rparr> \<and> (\<forall>k. u_coins (cabs c) k = None \<longrightarrow> m k = None)" and ca: "cinv ca" "absv (base ca) = absv (base c)" "utxo_ok (cabs ca)"
    using spend_inputs_law [OF assms(1,2)] s assms(1,2) by (auto split: if_splits intro!: exI [of _ "u_coins (cabs c)"])
  then obtain m where m: "cabs ca = (cabs c)\<lparr>u_coins := m\<rparr>" "\<And>k. u_coins (cabs c) k = None \<Longrightarrow> m k = None" by blast
  let ?cb = "SetNullifiers tx True ca"
  note sn = SetNullifiers_law [OF ca(1), of tx True]
  have bb: "base ?cb = base ca" by (simp add: SetNullifiers_def)
  obtain cc where cc: "ModifyNewCoins ?k ?cb = Inr cc" "\<And>y. \<exists>c'. CCoinsModifier_destroy ?k (modifier_set ?k y cc) = Inr c' \<and> cinv c' \<and>
      absv (base c') = absv (base ?cb) \<and> cabs c' = (cabs ?cb)\<lparr>u_coins := (u_coins (cabs ?cb))(?k := live (Some (CCoins_Cleanup y)))\<rparr>"
  proof -
    have "cinv ?cb" "u_coins (absv (base ?cb)) ?k = None" using sn bb ca new(2) by simp_all
    from ModifyNew_law [OF this] show thesis using that by blast
  qed
  have okn: "coins_ok (FromTx tx h)" using FromTx_ok tx by blast
  obtain c' where c': "CCoinsModifier_destroy ?k (modifier_set ?k (FromTx tx h) cc) = Inr c'" "cinv c'" "absv (base c') = absv (base c)"
      "cabs c' = (cabs ?cb)\<lparr>u_coins := (u_coins (cabs ?cb))(?k := ?new)\<rparr>"
    using cc(2) [of "FromTx tx h"] bb ca okn by (auto simp: coins_ok_Cleanup)
  have "c' = c1" using assms(3) s cc(1) c'(1) by (simp add: UpdateCoins_def)
  define n where "n = (\<lambda>t k. k \<in> tx_nullifiers tx t \<or> u_nullifier (cabs c) t k)"
  have c1: "cabs c1 = (cabs c)\<lparr>u_coins := m(?k := ?new), u_nullifier := n\<rparr>"
    using c'(4) sn m(1) \<open>c' = c1\<close> by (intro utxo_eqI) (simp_all add: n_def)
  have "utxo_ok (cabs c1)" using ca(3) okn unfolding c1 by (auto simp: utxo_ok_def m(1))
  moreover have "\<exists>c3. disconnect_tx V h tx (if IsCoinBase tx then None else Some txundo) b c2 = Inr (Some b, c3) \<and> cinv c3 \<and> cabs c3 = cabs c"
    if c2: "cinv c2" "cabs c2 = cabs c1" for c2 b
  proof -
    have "cabs c2 = (cabs c)\<lparr>u_coins := m(?k := ?new), u_nullifier := n\<rparr>" "m ?k = None"
      "u_nullifier (cabs c) t k \<longleftrightarrow> k \<notin> tx_nullifiers tx t \<and> n t k" for t k
      using c2(2) c1 m(2) new(1) nfs by (auto simp: n_def)
    then obtain c3 where c3: "with_coins V ?k (outputs_match tx h) c2 = Inr (True, c3)" "cinv (SetNullifiers tx False c3)"
        "cabs (SetNullifiers tx False c3) = cabs ca"
      using remove_outputs_law [OF c2(1)] m(1) by metis
    show ?thesis
    proof (cases "IsCoinBase tx")
      case True
      then show ?thesis using c3 s by (simp add: disconnect_tx_def)
    next
      case False
      then have "spend_inputs V (vin tx) c = Inr (txundo, ca)" using s by simp
      note r = spend_inputs_law [OF assms(1,2) this]
      then obtain c4 where "restore_inputs V (rev (zip txundo (vin tx))) b (SetNullifiers tx False c3) = Inr (b, c4)" "cinv c4" "cabs c4 = cabs c"
        using c3(2,3) by blast
      then show ?thesis using False c3(1) r by (simp add: disconnect_tx_def)
    qed
  qed
  ultimately show ?thesis using c' \<open>c' = c1\<close> m(2) unfolding c1 n_def by auto
qed

end

end
