(* ===== verification/TxCheck.thy ===== *)
theory TxCheck
  imports Spending
begin

text \<open>
  Checks of transactions (\<^verbatim>\<open>src/main.cpp\<close>): on their own (\<open>CheckTransaction\<close>), at a height (\<open>ContextualCheckTransaction\<close>, with the
  funding streams of \<^verbatim>\<open>src/consensus/funding.cpp\<close>), and against their inputs (\<open>CheckTxInputs\<close>, \<open>ContextualCheckInputs\<close>). A check
  returns the rejection that the code records in the validation state, or the assertion or exception that ends it.
\<close>

unbundle bit_operations_syntax

section \<open>Rejection\<close>

text \<open>
  Why a check ends: the validation state after \<open>CValidationState::DoS\<close> on a fresh state, or an assertion or exception.
  Debug messages are left out.
\<close>

datatype vfail = Rejected (nDoS: int) (chRejectCode: byte) (strRejectReason: string) (corruptionPossible: bool) | Aborted failure

type_synonym 'a checked = "vfail + 'a"

definition REJECT_INVALID :: byte where "REJECT_INVALID = 0x10"
definition REJECT_OBSOLETE :: byte where "REJECT_OBSOLETE = 0x11"
definition REJECT_NONSTANDARD :: byte where "REJECT_NONSTANDARD = 0x40"

definition DoS :: "int \<Rightarrow> string \<Rightarrow> 'a checked" where
  "DoS level reason = Inl (Rejected level REJECT_INVALID reason False)"

definition lift_result :: "'a result \<Rightarrow> 'a checked" where
  "lift_result r = map_sum Aborted id r"

definition sbind :: "'e + 'a \<Rightarrow> ('a \<Rightarrow> 'e + 'b) \<Rightarrow> 'e + 'b" where
  "sbind m f = (case m of Inl e \<Rightarrow> Inl e | Inr x \<Rightarrow> f x)"

lemma sbind_simps [simp]: "sbind (Inl e) f = Inl e" "sbind (Inr x) f = f x"
  by (simp_all add: sbind_def)

lemma sbind_Inr: "sbind m f = Inr y \<longleftrightarrow> (\<exists>x. m = Inr x \<and> f x = Inr y)"
  by (cases m) auto

lemma lift_result_simps [simp]: "lift_result (Inl e) = Inl (Aborted e)" "lift_result (Inr x) = Inr x"
  by (simp_all add: lift_result_def)

lemma lift_result_Inr: "lift_result r = Inr x \<longleftrightarrow> r = Inr x"
  by (cases r) auto

section \<open>Checks of a transaction on its own\<close>

definition SPROUT_MIN_TX_VERSION :: int where "SPROUT_MIN_TX_VERSION = 1"
definition OVERWINTER_MIN_TX_VERSION :: int where "OVERWINTER_MIN_TX_VERSION = 3"
definition OVERWINTER_MAX_TX_VERSION :: int where "OVERWINTER_MAX_TX_VERSION = 3"
definition SAPLING_MIN_TX_VERSION :: int where "SAPLING_MIN_TX_VERSION = 4"
definition SAPLING_MAX_TX_VERSION :: int where "SAPLING_MAX_TX_VERSION = 4"
definition MAX_BLOCK_SIZE :: nat where "MAX_BLOCK_SIZE = 2000000"
definition MAX_BLOCK_SIGOPS :: uint32_t where "MAX_BLOCK_SIGOPS = 20000"
definition MAX_TX_SIZE_BEFORE_SAPLING :: nat where "MAX_TX_SIZE_BEFORE_SAPLING = 100000"
definition MAX_TX_SIZE_AFTER_SAPLING :: nat where "MAX_TX_SIZE_AFTER_SAPLING = MAX_BLOCK_SIZE"
definition COINBASE_MATURITY :: int where "COINBASE_MATURITY = 100"
definition TX_EXPIRY_HEIGHT_THRESHOLD :: uint32_t where "TX_EXPIRY_HEIGHT_THRESHOLD = 500000000"
definition TX_EXPIRING_SOON_THRESHOLD :: int where "TX_EXPIRING_SOON_THRESHOLD = 3"

fun check_outputs :: "CTxOut list \<Rightarrow> CAmount \<Rightarrow> CAmount checked" where
  "check_outputs [] nValueOut = Inr nValueOut"
| "check_outputs (txout # outs) nValueOut =
     (if nValue txout < 0 then DoS 100 ''bad-txns-vout-negative''
      else if nValue txout > MAX_MONEY then DoS 100 ''bad-txns-vout-toolarge''
      else let nValueOut = nValueOut + nValue txout in
        if \<not> MoneyRange nValueOut then DoS 100 ''bad-txns-txouttotal-toolarge'' else check_outputs outs nValueOut)"

definition check_value_balance :: "CTransaction \<Rightarrow> CAmount \<Rightarrow> CAmount checked" where
  "check_value_balance tx nValueOut =
     (if vShieldedSpend tx = [] \<and> vShieldedOutput tx = [] \<and> valueBalance tx \<noteq> 0 then DoS 100 ''bad-txns-valuebalance-nonzero''
      else if valueBalance tx > MAX_MONEY \<or> valueBalance tx < - MAX_MONEY then DoS 100 ''bad-txns-valuebalance-toolarge''
      else if valueBalance tx \<le> 0
        then (let nValueOut = nValueOut + - valueBalance tx in
              if \<not> MoneyRange nValueOut then DoS 100 ''bad-txns-txouttotal-toolarge'' else Inr nValueOut)
      else Inr nValueOut)"

fun check_joinsplits :: "JSDescription list \<Rightarrow> CAmount \<Rightarrow> CAmount checked" where
  "check_joinsplits [] nValueOut = Inr nValueOut"
| "check_joinsplits (joinsplit # js) nValueOut =
     (if vpub_old joinsplit < 0 then DoS 100 ''bad-txns-vpub_old-negative''
      else if vpub_new joinsplit < 0 then DoS 100 ''bad-txns-vpub_new-negative''
      else if vpub_old joinsplit > MAX_MONEY then DoS 100 ''bad-txns-vpub_old-toolarge''
      else if vpub_new joinsplit > MAX_MONEY then DoS 100 ''bad-txns-vpub_new-toolarge''
      else if vpub_new joinsplit \<noteq> 0 \<and> vpub_old joinsplit \<noteq> 0 then DoS 100 ''bad-txns-vpubs-both-nonzero''
      else let nValueOut = nValueOut + vpub_old joinsplit in
        if \<not> MoneyRange nValueOut then DoS 100 ''bad-txns-txouttotal-toolarge'' else check_joinsplits js nValueOut)"

fun check_joinsplits_in :: "JSDescription list \<Rightarrow> CAmount \<Rightarrow> CAmount checked" where
  "check_joinsplits_in [] nValueIn = Inr nValueIn"
| "check_joinsplits_in (joinsplit # js) nValueIn =
     (let nValueIn = nValueIn + vpub_new joinsplit in
      if \<not> MoneyRange (vpub_new joinsplit) \<or> \<not> MoneyRange nValueIn then DoS 100 ''bad-txns-txintotal-toolarge''
      else check_joinsplits_in js nValueIn)"

definition check_duplicates :: "CTransaction \<Rightarrow> unit checked" where
  "check_duplicates tx =
     (if \<not> distinct (map prevout (vin tx)) then DoS 100 ''bad-txns-inputs-duplicate''
      else if \<not> distinct (concat (map js_nullifiers (vJoinSplit tx))) then DoS 100 ''bad-joinsplits-nullifiers-duplicate''
      else if \<not> distinct (map sd_nullifier (vShieldedSpend tx)) then DoS 100 ''bad-spend-description-nullifiers-duplicate''
      else Inr ())"

definition check_coinbase :: "CTransaction \<Rightarrow> unit checked" where
  "check_coinbase tx =
     (if IsCoinBase tx then
        if length (vJoinSplit tx) > 0 then DoS 100 ''bad-cb-has-joinsplits''
        else if length (vShieldedSpend tx) > 0 then DoS 100 ''bad-cb-has-spend-description''
        else if length (vShieldedOutput tx) > 0 then DoS 100 ''bad-cb-has-output-description''
        else if length (scriptSig (vin tx ! 0)) < 2 \<or> length (scriptSig (vin tx ! 0)) > 100 then DoS 100 ''bad-cb-length''
        else Inr ()
      else if \<exists>txin \<in> set (vin tx). COutPoint_IsNull (prevout txin) then DoS 10 ''bad-txns-prevout-null'' else Inr ())"

definition check_header :: "CTransaction \<Rightarrow> unit checked" where
  "check_header tx =
     (if \<not> fOverwintered tx \<and> tx_nVersion tx < SPROUT_MIN_TX_VERSION then DoS 100 ''bad-txns-version-too-low''
      else if fOverwintered tx \<and> tx_nVersion tx < OVERWINTER_MIN_TX_VERSION then DoS 100 ''bad-tx-overwinter-version-too-low''
      else if fOverwintered tx \<and> nVersionGroupId tx \<noteq> OVERWINTER_VERSION_GROUP_ID \<and> nVersionGroupId tx \<noteq> SAPLING_VERSION_GROUP_ID
        then DoS 100 ''bad-tx-version-group-id''
      else if fOverwintered tx \<and> nExpiryHeight tx \<ge> TX_EXPIRY_HEIGHT_THRESHOLD then DoS 100 ''bad-tx-expiry-height-too-high''
      else if vin tx = [] \<and> vJoinSplit tx = [] \<and> vShieldedSpend tx = [] then DoS 10 ''bad-txns-vin-empty''
      else if vout tx = [] \<and> vJoinSplit tx = [] \<and> vShieldedOutput tx = [] then DoS 10 ''bad-txns-vout-empty''
      else Inr ())"

definition CheckTransactionWithoutProofVerification :: "CTransaction \<Rightarrow> unit checked" where
  "CheckTransactionWithoutProofVerification tx =
     sbind (check_header tx) (\<lambda>_.
     sbind (lift_result (ser_tx tx)) (\<lambda>bs.
     if length bs > MAX_TX_SIZE_AFTER_SAPLING then DoS 100 ''bad-txns-oversize'' else
     sbind (check_outputs (vout tx) 0) (\<lambda>nValueOut.
     sbind (check_value_balance tx nValueOut) (\<lambda>nValueOut.
     sbind (check_joinsplits (vJoinSplit tx) nValueOut) (\<lambda>_.
     sbind (check_joinsplits_in (vJoinSplit tx) 0) (\<lambda>nValueIn.
     if valueBalance tx \<ge> 0 \<and> \<not> MoneyRange (nValueIn + valueBalance tx) then DoS 100 ''bad-txns-txintotal-toolarge'' else
     sbind (check_duplicates tx) (\<lambda>_.
     check_coinbase tx)))))))"

definition h_sig :: "blake2b \<Rightarrow> uint256 \<Rightarrow> uint256 list \<Rightarrow> uint256 \<Rightarrow> uint256" where
  "h_sig B randomSeed nullifiers pubKey = B (ascii ''ZcashComputehSig'') (randomSeed @ concat nullifiers @ pubKey)"

text \<open>\<open>librustzcash_sprout_verify\<close>, given the proof, the description and \<open>h_sig\<close>, is an argument.\<close>

definition VerifySprout :: "bool \<Rightarrow> blake2b \<Rightarrow> (byte list \<Rightarrow> JSDescription \<Rightarrow> uint256 \<Rightarrow> bool) \<Rightarrow> JSDescription \<Rightarrow> uint256 \<Rightarrow> bool" where
  "VerifySprout perform_verification B sprout_verify jsdesc pubKey =
     (if \<not> perform_verification then True
      else case js_proof jsdesc of
        PHGR proof \<Rightarrow> True
      | Groth proof \<Rightarrow> sprout_verify proof jsdesc (h_sig B (js_randomSeed jsdesc) (js_nullifiers jsdesc) pubKey))"

definition CheckTransaction :: "(JSDescription \<Rightarrow> uint256 \<Rightarrow> bool) \<Rightarrow> CTransaction \<Rightarrow> unit checked" where
  "CheckTransaction verifySprout tx =
     sbind (CheckTransactionWithoutProofVerification tx) (\<lambda>_.
       if \<exists>joinsplit \<in> set (vJoinSplit tx). \<not> verifySprout joinsplit (joinSplitPubKey tx)
       then DoS 100 ''bad-txns-joinsplit-verification-failed'' else Inr ())"

definition GetLegacySigOpCount :: "CTransaction \<Rightarrow> uint32_t" where
  "GetLegacySigOpCount tx =
     sum_list (map (\<lambda>txin. GetSigOpCount False (scriptSig txin)) (vin tx)) +
     sum_list (map (\<lambda>txout. GetSigOpCount False (scriptPubKey txout)) (vout tx))"

fun p2sh_sigops ::
  "('s, 'st, 'sp) CCoinsView \<Rightarrow> CTxIn list \<Rightarrow> uint32_t \<Rightarrow> ('s, 'st, 'sp) CCoinsViewCache \<Rightarrow> (uint32_t \<times> ('s, 'st, 'sp) CCoinsViewCache) result" where
  "p2sh_sigops V [] nSigOps inputs = Inr (nSigOps, inputs)"
| "p2sh_sigops V (txin # ins) nSigOps inputs =
     (case GetOutputFor V txin inputs of
        Inl e \<Rightarrow> Inl e
      | Inr (out, inputs) \<Rightarrow>
          p2sh_sigops V ins (if IsPayToScriptHash (scriptPubKey out) then nSigOps + GetSigOpCount_P2SH (scriptPubKey out) (scriptSig txin) else nSigOps) inputs)"

definition GetP2SHSigOpCount ::
  "('s, 'st, 'sp) CCoinsView \<Rightarrow> CTransaction \<Rightarrow> ('s, 'st, 'sp) CCoinsViewCache \<Rightarrow> (uint32_t \<times> ('s, 'st, 'sp) CCoinsViewCache) result" where
  "GetP2SHSigOpCount V tx inputs = (if IsCoinBase tx then Inr (0, inputs) else p2sh_sigops V (vin tx) 0 inputs)"

definition IsFinalTx :: "CTransaction \<Rightarrow> int \<Rightarrow> int \<Rightarrow> bool" where
  "IsFinalTx tx nBlockHeight nBlockTime =
     (if nLockTime tx = 0 then True
      else if uint (nLockTime tx) < (if uint (nLockTime tx) < uint LOCKTIME_THRESHOLD then nBlockHeight else nBlockTime) then True
      else list_all CTxIn_IsFinal (vin tx))"

definition IsExpiredTx :: "CTransaction \<Rightarrow> int \<Rightarrow> bool" where
  "IsExpiredTx tx nBlockHeight =
     (if nExpiryHeight tx = 0 \<or> IsCoinBase tx then False else (word_of_int nBlockHeight :: uint32_t) > nExpiryHeight tx)"

definition IsExpiringSoonTx :: "CTransaction \<Rightarrow> int \<Rightarrow> bool" where
  "IsExpiringSoonTx tx nNextBlockHeight = IsExpiredTx tx (nNextBlockHeight + TX_EXPIRING_SOON_THRESHOLD)"

section \<open>Funding streams\<close>

definition MAX_FUNDING_STREAMS :: nat where "MAX_FUNDING_STREAMS = 3"

record FSInfo =
  fs_recipient :: string
  fs_specification :: string
  fs_valueNumerator :: uint64_t
  fs_valueDenominator :: uint64_t

definition FundingStreamInfo :: "FSInfo list" where
  "FundingStreamInfo =
     [\<lparr>fs_recipient = ''Electric Coin Company'', fs_specification = ''https://zips.z.cash/zip-0214'', fs_valueNumerator = 7, fs_valueDenominator = 100\<rparr>,
      \<lparr>fs_recipient = ''Zcash Foundation'', fs_specification = ''https://zips.z.cash/zip-0214'', fs_valueNumerator = 5, fs_valueDenominator = 100\<rparr>,
      \<lparr>fs_recipient = ''Major Grants'', fs_specification = ''https://zips.z.cash/zip-0214'', fs_valueNumerator = 8, fs_valueDenominator = 100\<rparr>]"

definition FSInfo_Value :: "FSInfo \<Rightarrow> CAmount \<Rightarrow> CAmount" where
  "FSInfo_Value info blockSubsidy = sint ((word_of_int blockSubsidy * fs_valueNumerator info) div fs_valueDenominator info)"

definition stream_active :: "FundingStream option \<Rightarrow> int \<Rightarrow> bool" where
  "stream_active fs nHeight = (case fs of None \<Rightarrow> False | Some fs \<Rightarrow> nHeight \<ge> fs_startHeight fs \<and> nHeight < fs_endHeight fs)"

text \<open>A set is a list without repetitions.\<close>

fun stream_elements :: "Params \<Rightarrow> int \<Rightarrow> CAmount \<Rightarrow> nat list \<Rightarrow> (CScript \<times> CAmount) list \<Rightarrow> (CScript \<times> CAmount) list result" where
  "stream_elements params nHeight blockSubsidy [] requiredElements = Inr requiredElements"
| "stream_elements params nHeight blockSubsidy (idx # idxs) requiredElements =
     (if stream_active (vFundingStreams params ! idx) nHeight
      then case RecipientAddress (the (vFundingStreams params ! idx)) params nHeight of
        Inl e \<Rightarrow> Inl e
      | Inr addr \<Rightarrow> stream_elements params nHeight blockSubsidy idxs
                      (List.insert (addr, FSInfo_Value (FundingStreamInfo ! idx) blockSubsidy) requiredElements)
      else stream_elements params nHeight blockSubsidy idxs requiredElements)"

definition GetActiveFundingStreamElements :: "int \<Rightarrow> CAmount \<Rightarrow> Params \<Rightarrow> (CScript \<times> CAmount) list result" where
  "GetActiveFundingStreamElements nHeight blockSubsidy params =
     (case NetworkUpgradeActive params nHeight UPGRADE_CANOPY of
        Inl e \<Rightarrow> Inl e
      | Inr active \<Rightarrow> if active then stream_elements params nHeight blockSubsidy [0..<MAX_FUNDING_STREAMS] [] else Inr [])"

definition GetActiveFundingStreams :: "int \<Rightarrow> Params \<Rightarrow> FSInfo list result" where
  "GetActiveFundingStreams nHeight params =
     (case NetworkUpgradeActive params nHeight UPGRADE_CANOPY of
        Inl e \<Rightarrow> Inl e
      | Inr active \<Rightarrow>
          if active then Inr (map (\<lambda>idx. FundingStreamInfo ! idx) (filter (\<lambda>idx. stream_active (vFundingStreams params ! idx) nHeight) [0..<MAX_FUNDING_STREAMS]))
          else Inr [])"

definition erase_paid :: "CTxOut list \<Rightarrow> (CScript \<times> CAmount) list \<Rightarrow> (CScript \<times> CAmount) list" where
  "erase_paid outs els = foldl (\<lambda>els out. remove1 (scriptPubKey out, nValue out) els) els outs"

section \<open>Checks of a transaction at a height\<close>

text \<open>
  What the code uses of \<^verbatim>\<open>librustzcash\<close> to check Sapling descriptions, and of libsodium to check the JoinSplit
  signature.
\<close>

record 'x shielded_ops =
  sapling_ctx_init :: 'x
  sapling_check_spend :: "'x \<Rightarrow> SpendDescription \<Rightarrow> uint256 \<Rightarrow> bool \<times> 'x"
  sapling_check_output :: "'x \<Rightarrow> OutputDescription \<Rightarrow> bool \<times> 'x"
  sapling_final_check :: "'x \<Rightarrow> CAmount \<Rightarrow> byte list \<Rightarrow> uint256 \<Rightarrow> bool"
  ed25519_verify :: "byte list \<Rightarrow> uint256 \<Rightarrow> uint256 \<Rightarrow> bool"

fun check_all :: "('x \<Rightarrow> 'd \<Rightarrow> bool \<times> 'x) \<Rightarrow> 'd list \<Rightarrow> 'x \<Rightarrow> 'x option" where
  "check_all f [] ctx = Some ctx"
| "check_all f (d # ds) ctx = (case f ctx d of (ok, ctx) \<Rightarrow> if ok then check_all f ds ctx else None)"

definition check_sapling :: "'x shielded_ops \<Rightarrow> CTransaction \<Rightarrow> uint256 \<Rightarrow> unit checked" where
  "check_sapling X tx dataToBeSigned =
     (if vShieldedSpend tx = [] \<and> vShieldedOutput tx = [] then Inr ()
      else case check_all (\<lambda>ctx spend. sapling_check_spend X ctx spend dataToBeSigned) (vShieldedSpend tx) (sapling_ctx_init X) of
        None \<Rightarrow> DoS 100 ''bad-txns-sapling-spend-description-invalid''
      | Some ctx \<Rightarrow>
          (case check_all (sapling_check_output X) (vShieldedOutput tx) ctx of
             None \<Rightarrow> DoS 100 ''bad-txns-sapling-output-description-invalid''
           | Some ctx \<Rightarrow>
               if \<not> sapling_final_check X ctx (valueBalance tx) (bindingSig tx) dataToBeSigned
               then DoS 100 ''bad-txns-sapling-binding-signature-invalid'' else Inr ()))"

definition check_versions :: "CTransaction \<Rightarrow> int \<Rightarrow> int \<Rightarrow> bool \<Rightarrow> bool \<Rightarrow> bool \<Rightarrow> unit checked" where
  "check_versions tx nHeight dosLevel ibd overwinterActive saplingActive =
     (if \<not> overwinterActive \<and> fOverwintered tx then DoS (if ibd then 0 else dosLevel) ''tx-overwinter-not-active''
      else if overwinterActive \<and> \<not> fOverwintered tx then DoS dosLevel ''tx-overwintered-flag-not-set''
      else if overwinterActive \<and> IsExpiredTx tx nHeight
        then DoS (if IsExpiredTx tx (nHeight - 1) then dosLevel else 0) ''tx-overwinter-expired''
      else if overwinterActive \<and> \<not> saplingActive \<and> tx_nVersion tx > OVERWINTER_MAX_TX_VERSION
        then DoS 100 ''bad-tx-overwinter-version-too-high''
      else if overwinterActive \<and> \<not> saplingActive \<and> nVersionGroupId tx \<noteq> OVERWINTER_VERSION_GROUP_ID
        then DoS (if ibd then 0 else dosLevel) ''bad-overwinter-tx-version-group-id''
      else if saplingActive then
        (if nVersionGroupId tx \<noteq> SAPLING_VERSION_GROUP_ID then DoS (if ibd then 0 else dosLevel) ''bad-sapling-tx-version-group-id''
         else if tx_nVersion tx < SAPLING_MIN_TX_VERSION then DoS 100 ''bad-tx-sapling-version-too-low''
         else if tx_nVersion tx > SAPLING_MAX_TX_VERSION then DoS 100 ''bad-tx-sapling-version-too-high''
         else Inr ())
      else sbind (lift_result (ser_tx tx)) (\<lambda>bs. if length bs > MAX_TX_SIZE_BEFORE_SAPLING then DoS 100 ''bad-txns-oversize'' else Inr ()))"

definition check_streams :: "CTransaction \<Rightarrow> int \<Rightarrow> bool \<Rightarrow> bool \<Rightarrow> (CScript \<times> CAmount) list \<Rightarrow> unit checked" where
  "check_streams tx dosLevel saplingActive canopyActive els =
     (let els = (if saplingActive \<and> IsCoinBase tx \<and> canopyActive then erase_paid (vout tx) els else els) in
      if saplingActive \<and> IsCoinBase tx \<and> length (vShieldedOutput tx) > 0 then DoS dosLevel ''bad-cb-has-output-description''
      else if canopyActive \<and> (\<exists>joinsplit \<in> set (vJoinSplit tx). vpub_old joinsplit > 0) then DoS dosLevel ''bad-txns-vpub_old-nonzero''
      else if canopyActive \<and> IsCoinBase tx \<and> erase_paid (vout tx) els \<noteq> [] then DoS dosLevel ''cb-funding-stream-missing''
      else Inr ())"

definition signed_data :: "blake2b \<Rightarrow> CTransaction \<Rightarrow> uint32_t \<Rightarrow> uint256 checked" where
  "signed_data B tx branchId =
     (if vJoinSplit tx = [] \<and> vShieldedSpend tx = [] \<and> vShieldedOutput tx = [] then Inr null256
      else sbind (lift_result (SignatureHash B [] tx NOT_AN_INPUT 1 0 branchId None)) (\<lambda>r.
        case r of
          Inl _ \<Rightarrow> DoS 100 ''error-computing-signature-hash''
        | Inr dataToBeSigned \<Rightarrow>
            sbind (lift_result (SignatureHash B [] tx NOT_AN_INPUT 1 0 (PrevEpochBranchId branchId) None)) (\<lambda>r.
              case r of Inl _ \<Rightarrow> DoS 100 ''error-computing-signature-hash'' | Inr _ \<Rightarrow> Inr dataToBeSigned)))"

definition ContextualCheckTransaction ::
  "'x shielded_ops \<Rightarrow> blake2b \<Rightarrow> Params \<Rightarrow> bool \<Rightarrow> CTransaction \<Rightarrow> int \<Rightarrow> int \<Rightarrow> unit checked" where
  "ContextualCheckTransaction X B params ibd tx nHeight dosLevel =
     sbind (lift_result (NetworkUpgradeActive params nHeight UPGRADE_OVERWINTER)) (\<lambda>overwinterActive.
     sbind (lift_result (NetworkUpgradeActive params nHeight UPGRADE_SAPLING)) (\<lambda>saplingActive.
     sbind (lift_result (NetworkUpgradeActive params nHeight UPGRADE_CANOPY)) (\<lambda>canopyActive.
     if saplingActive \<and> \<not> overwinterActive then Inl (Aborted (AssertFail ''!saplingActive || overwinterActive''))
     else if canopyActive \<and> \<not> saplingActive then Inl (Aborted (AssertFail ''!canopyActive || saplingActive''))
     else
     sbind (check_versions tx nHeight dosLevel ibd overwinterActive saplingActive) (\<lambda>_.
     sbind (lift_result (GetActiveFundingStreamElements nHeight (GetBlockSubsidy nHeight params) params)) (\<lambda>els.
     sbind (check_streams tx dosLevel saplingActive canopyActive els) (\<lambda>_.
     sbind (lift_result (CurrentEpochBranchId nHeight params)) (\<lambda>branchId.
     sbind (signed_data B tx branchId) (\<lambda>dataToBeSigned.
     if vJoinSplit tx \<noteq> [] \<and> \<not> ed25519_verify X (joinSplitSig tx) dataToBeSigned (joinSplitPubKey tx)
     then DoS (if ibd then 0 else 100) ''bad-txns-invalid-joinsplit-signature''
     else check_sapling X tx dataToBeSigned))))))))"


lemma erase_paid_set:
  "distinct els \<Longrightarrow> distinct (erase_paid outs els) \<and> set (erase_paid outs els) = set els - set (map (\<lambda>x. (scriptPubKey x, nValue x)) outs)"
proof (induction outs arbitrary: els)
  case (Cons x outs)
  let ?e = "(scriptPubKey x, nValue x)"
  have "erase_paid (x # outs) els = erase_paid outs (remove1 ?e els)" by (simp add: erase_paid_def)
  then show ?case using Cons.IH [of "remove1 ?e els"] Cons.prems by (auto simp: distinct_remove1)
qed (simp add: erase_paid_def)

lemma stream_elements_law:
  "stream_elements params h s idxs acc = Inr els \<Longrightarrow> distinct acc \<Longrightarrow> distinct els \<and> set acc \<subseteq> set els \<and>
   (\<forall>idx \<in> set idxs. stream_active (vFundingStreams params ! idx) h \<longrightarrow>
      (\<exists>addr. RecipientAddress (the (vFundingStreams params ! idx)) params h = Inr addr \<and> (addr, FSInfo_Value (FundingStreamInfo ! idx) s) \<in> set els))"
proof (induction idxs arbitrary: acc)
  case (Cons idx idxs)
  show ?case
  proof (cases "stream_active (vFundingStreams params ! idx) h")
    case True
    then obtain addr where a: "RecipientAddress (the (vFundingStreams params ! idx)) params h = Inr addr"
        "stream_elements params h s idxs (List.insert (addr, FSInfo_Value (FundingStreamInfo ! idx) s) acc) = Inr els"
      using Cons.prems(1) by (auto split: sum.splits)
    then show ?thesis using Cons.IH [OF a(2)] Cons.prems(2) True by auto
  qed (use Cons in auto)
qed simp

lemma check_streams_law:
  assumes "check_streams tx lvl True True els = Inr ()" "IsCoinBase tx" "distinct els"
  shows "set els \<subseteq> set (map (\<lambda>x. (scriptPubKey x, nValue x)) (vout tx))"
proof -
  have "erase_paid (vout tx) (erase_paid (vout tx) els) = []"
    using assms(1,2) by (auto simp: check_streams_def DoS_def Let_def split: if_splits)
  then show ?thesis using erase_paid_set [OF assms(3), of "vout tx"] erase_paid_set [of "erase_paid (vout tx) els" "vout tx"]
    by (metis Diff_cancel Diff_eq_empty_iff Diff_idemp empty_set)
qed

text \<open>
  C36. A coinbase transaction that passes the contextual checks at a height where Canopy is active pays every funding
  stream that is active there: it has an output to the recipient of the stream for that height, of exactly the
  share of the block subsidy that the stream is due.
\<close>

theorem coinbase_pays_funding_streams:
  assumes "ContextualCheckTransaction X B params ibd tx h lvl = Inr ()" "IsCoinBase tx" "NetworkUpgradeActive params h UPGRADE_CANOPY = Inr True"
    and "idx < MAX_FUNDING_STREAMS" "vFundingStreams params ! idx = Some fs" "fs_startHeight fs \<le> h" "h < fs_endHeight fs"
  shows "\<exists>addr. RecipientAddress fs params h = Inr addr \<and>
    \<lparr>nValue = FSInfo_Value (FundingStreamInfo ! idx) (GetBlockSubsidy h params), scriptPubKey = addr\<rparr> \<in> set (vout tx)"
proof -
  obtain els where e: "GetActiveFundingStreamElements h (GetBlockSubsidy h params) params = Inr els" "check_streams tx lvl True True els = Inr ()"
    using assms(1,3) by (auto simp: ContextualCheckTransaction_def sbind_Inr lift_result_Inr split: if_splits)
  have "stream_elements params h (GetBlockSubsidy h params) [0..<MAX_FUNDING_STREAMS] [] = Inr els"
    using e(1) assms(3) by (simp add: GetActiveFundingStreamElements_def)
  note s = stream_elements_law [OF this, simplified]
  have "stream_active (vFundingStreams params ! idx) h" using assms(5-7) by (simp add: stream_active_def)
  then obtain addr where "RecipientAddress fs params h = Inr addr" "(addr, FSInfo_Value (FundingStreamInfo ! idx) (GetBlockSubsidy h params)) \<in> set els"
    using bspec [OF conjunct2 [OF s], of idx] assms(4,5) by auto
  moreover have "set els \<subseteq> set (map (\<lambda>x. (scriptPubKey x, nValue x)) (vout tx))" using check_streams_law [OF e(2) assms(2)] s by simp
  ultimately obtain x where "x \<in> set (vout tx)" "scriptPubKey x = addr" "nValue x = FSInfo_Value (FundingStreamInfo ! idx) (GetBlockSubsidy h params)"
    by auto
  then show ?thesis using \<open>RecipientAddress fs params h = Inr addr\<close> by (metis CTxOut.surjective old.unit.exhaust)
qed


definition ex_stream_params :: Params where
  "ex_stream_params = CMainParams_base\<lparr>vFundingStreams := [Some \<lparr>fs_startHeight = 1735000, fs_endHeight = 3360000, fs_addresses = [[OP_1]]\<rparr>, None, None]\<rparr>"

definition ex_shielded_ops :: "unit shielded_ops" where
  "ex_shielded_ops = \<lparr>sapling_ctx_init = (), sapling_check_spend = \<lambda>_ _ _. (False, ()), sapling_check_output = \<lambda>_ _. (False, ()),
     sapling_final_check = \<lambda>_ _ _ _. False, ed25519_verify = \<lambda>_ _ _. False\<rparr>"

definition ex_coinbase :: CTransaction where
  "ex_coinbase = (CTransaction_members CMutableTransaction_default)\<lparr>fOverwintered := True, tx_nVersion := 4, nVersionGroupId := SAPLING_VERSION_GROUP_ID,
     vin := [\<lparr>prevout = COutPoint_null, scriptSig = [1, 2], nSequence = 0\<rparr>],
     vout := [\<lparr>nValue = 7, scriptPubKey = []\<rparr>, \<lparr>nValue = 21875000000, scriptPubKey = [OP_1]\<rparr>]\<rparr>"

lemma ex_coinbase_passes: "ContextualCheckTransaction ex_shielded_ops (\<lambda>_ _. []) ex_stream_params False ex_coinbase 1735000 100 = Inr ()"
  by code_simp

theorem coinbase_pays_funding_streams_witness:
  "\<lparr>nValue = FSInfo_Value (FundingStreamInfo ! 0) (GetBlockSubsidy 1735000 ex_stream_params), scriptPubKey = [OP_1]\<rparr> \<in> set (vout ex_coinbase)"
proof -
  have "IsCoinBase ex_coinbase" "NetworkUpgradeActive ex_stream_params 1735000 UPGRADE_CANOPY = Inr True"
    "RecipientAddress \<lparr>fs_startHeight = 1735000, fs_endHeight = 3360000, fs_addresses = [[OP_1]]\<rparr> ex_stream_params 1735000 = Inr [OP_1]"
    by code_simp+
  then show ?thesis
    using coinbase_pays_funding_streams [OF ex_coinbase_passes, of 0 "\<lparr>fs_startHeight = 1735000, fs_endHeight = 3360000, fs_addresses = [[OP_1]]\<rparr>"]
    by (simp add: ex_stream_params_def MAX_FUNDING_STREAMS_def)
qed

section \<open>Checks of the inputs\<close>

fun check_input_values ::
  "('s, 'st, 'sp) CCoinsView \<Rightarrow> bool \<Rightarrow> CTransaction \<Rightarrow> int \<Rightarrow> CTxIn list \<Rightarrow> CAmount \<Rightarrow> ('s, 'st, 'sp) CCoinsViewCache \<Rightarrow>
   (CAmount \<times> ('s, 'st, 'sp) CCoinsViewCache) checked" where
  "check_input_values V mustBeShielded tx nSpendHeight [] nValueIn inputs = Inr (nValueIn, inputs)"
| "check_input_values V mustBeShielded tx nSpendHeight (txin # ins) nValueIn inputs =
     (case AccessCoins V (op_hash (prevout txin)) inputs of
        (None, inputs) \<Rightarrow> Inl (Aborted (AssertFail ''coins''))
      | (Some coins, inputs) \<Rightarrow>
          if cc_fCoinBase coins \<and> nSpendHeight - cc_nHeight coins < COINBASE_MATURITY then
            Inl (Rejected 0 REJECT_INVALID ''bad-txns-premature-spend-of-coinbase'' False)
          else if cc_fCoinBase coins \<and> mustBeShielded \<and> vout tx \<noteq> [] then
            Inl (Rejected 0 REJECT_INVALID ''bad-txns-coinbase-spend-has-transparent-outputs'' False)
          else
            let v = nValue (cc_vout coins ! unat (op_n (prevout txin))); nValueIn = nValueIn + v in
            if \<not> MoneyRange v \<or> \<not> MoneyRange nValueIn then DoS 100 ''bad-txns-inputvalues-outofrange''
            else check_input_values V mustBeShielded tx nSpendHeight ins nValueIn inputs)"

text \<open>
  \<open>Consensus::CheckTxInputs\<close>. The flag stands for \<open>fCoinbaseEnforcedShieldingEnabled\<close> and the parameter
  \<open>fCoinbaseMustBeShielded\<close> together.
\<close>

definition CheckTxInputs ::
  "('s, 'st, 'sp) CCoinsView \<Rightarrow> 'st tree_ops \<Rightarrow> bool \<Rightarrow> CTransaction \<Rightarrow> int \<Rightarrow> ('s, 'st, 'sp) CCoinsViewCache \<Rightarrow>
   ('s, 'st, 'sp) CCoinsViewCache checked" where
  "CheckTxInputs V ST mustBeShielded tx nSpendHeight inputs =
     (case HaveInputs V tx inputs of (b, inputs) \<Rightarrow>
      if \<not> b then Inl (Rejected 0 0 [] False) else
      sbind (lift_result (HaveShieldedRequirements V ST tx inputs)) (\<lambda>(b, inputs).
      if \<not> b then Inl (Rejected 0 0 [] False) else
      sbind (check_input_values V mustBeShielded tx nSpendHeight (vin tx) 0 inputs) (\<lambda>(nValueIn, inputs).
      sbind (lift_result (GetShieldedValueIn tx)) (\<lambda>nShielded.
      let nValueIn = nValueIn + nShielded in
      if \<not> MoneyRange nValueIn then DoS 100 ''bad-txns-inputvalues-outofrange'' else
      sbind (lift_result (GetValueOut tx)) (\<lambda>nValueOut.
      if nValueIn < nValueOut then DoS 100 ''bad-txns-in-belowout''
      else let nTxFee = nValueIn - nValueOut in
        if nTxFee < 0 then DoS 100 ''bad-txns-fee-negative''
        else if \<not> MoneyRange nTxFee then DoS 100 ''bad-txns-fee-outofrange''
        else Inr inputs)))))"

text \<open>
  A script check holds what \<open>CScriptCheck\<close> copies from the coins. The caching signature checker answers what the one it
  is derived from does.
\<close>

record CScriptCheck =
  sc_scriptPubKey :: CScript
  sc_amount :: CAmount
  sc_ptxTo :: CTransaction
  sc_nIn :: uint32_t
  sc_nFlags :: uint32_t
  sc_consensusBranchId :: uint32_t
  sc_txdata :: PrecomputedTransactionData

definition CScriptCheck_run :: "blake2b \<Rightarrow> ('k, 's) secp256k1 \<Rightarrow> low_s \<Rightarrow> CScriptCheck \<Rightarrow> ScriptError result" where
  "CScriptCheck_run B ec checkLowS ck =
     VerifyScript checkLowS (scriptSig (vin (sc_ptxTo ck) ! unat (sc_nIn ck))) (sc_scriptPubKey ck) (sc_nFlags ck)
       (TransactionSignatureChecker B ec (sc_ptxTo ck) (sc_nIn ck) (sc_amount ck) (Some (sc_txdata ck))) (sc_consensusBranchId ck)"

fun ScriptErrorString :: "ScriptError \<Rightarrow> string" where
  "ScriptErrorString SCRIPT_ERR_OK = ''No error''"
| "ScriptErrorString SCRIPT_ERR_EVAL_FALSE = ''Script evaluated without error but finished with a false/empty top stack element''"
| "ScriptErrorString SCRIPT_ERR_VERIFY = ''Script failed an OP_VERIFY operation''"
| "ScriptErrorString SCRIPT_ERR_EQUALVERIFY = ''Script failed an OP_EQUALVERIFY operation''"
| "ScriptErrorString SCRIPT_ERR_CHECKMULTISIGVERIFY = ''Script failed an OP_CHECKMULTISIGVERIFY operation''"
| "ScriptErrorString SCRIPT_ERR_CHECKSIGVERIFY = ''Script failed an OP_CHECKSIGVERIFY operation''"
| "ScriptErrorString SCRIPT_ERR_NUMEQUALVERIFY = ''Script failed an OP_NUMEQUALVERIFY operation''"
| "ScriptErrorString SCRIPT_ERR_SCRIPT_SIZE = ''Script is too big''"
| "ScriptErrorString SCRIPT_ERR_PUSH_SIZE = ''Push value size limit exceeded''"
| "ScriptErrorString SCRIPT_ERR_OP_COUNT = ''Operation limit exceeded''"
| "ScriptErrorString SCRIPT_ERR_STACK_SIZE = ''Stack size limit exceeded''"
| "ScriptErrorString SCRIPT_ERR_SIG_COUNT = ''Signature count negative or greater than pubkey count''"
| "ScriptErrorString SCRIPT_ERR_PUBKEY_COUNT = ''Pubkey count negative or limit exceeded''"
| "ScriptErrorString SCRIPT_ERR_BAD_OPCODE = ''Opcode missing or not understood''"
| "ScriptErrorString SCRIPT_ERR_DISABLED_OPCODE = ''Attempted to use a disabled opcode''"
| "ScriptErrorString SCRIPT_ERR_INVALID_STACK_OPERATION = ''Operation not valid with the current stack size''"
| "ScriptErrorString SCRIPT_ERR_INVALID_ALTSTACK_OPERATION = ''Operation not valid with the current altstack size''"
| "ScriptErrorString SCRIPT_ERR_OP_RETURN = ''OP_RETURN was encountered''"
| "ScriptErrorString SCRIPT_ERR_UNBALANCED_CONDITIONAL = ''Invalid OP_IF construction''"
| "ScriptErrorString SCRIPT_ERR_NEGATIVE_LOCKTIME = ''Negative locktime''"
| "ScriptErrorString SCRIPT_ERR_UNSATISFIED_LOCKTIME = ''Locktime requirement not satisfied''"
| "ScriptErrorString SCRIPT_ERR_SIG_HASHTYPE = ''Signature hash type missing or not understood''"
| "ScriptErrorString SCRIPT_ERR_SIG_DER = ''Non-canonical DER signature''"
| "ScriptErrorString SCRIPT_ERR_MINIMALDATA = ''Data push larger than necessary''"
| "ScriptErrorString SCRIPT_ERR_SIG_PUSHONLY = ''Only non-push operators allowed in signatures''"
| "ScriptErrorString SCRIPT_ERR_SIG_HIGH_S = ''Non-canonical signature: S value is unnecessarily high''"
| "ScriptErrorString SCRIPT_ERR_SIG_NULLDUMMY = ''Dummy CHECKMULTISIG argument must be zero''"
| "ScriptErrorString SCRIPT_ERR_DISCOURAGE_UPGRADABLE_NOPS = ''NOPx reserved for soft-fork upgrades''"
| "ScriptErrorString SCRIPT_ERR_PUBKEYTYPE = ''Public key is neither compressed or uncompressed''"
| "ScriptErrorString _ = ''unknown error''"

definition STANDARD_NOT_MANDATORY_VERIFY_FLAGS :: uint32_t where
  "STANDARD_NOT_MANDATORY_VERIFY_FLAGS =
     (let MANDATORY_SCRIPT_VERIFY_FLAGS = SCRIPT_VERIFY_P2SH;
          STANDARD_SCRIPT_VERIFY_FLAGS =
            MANDATORY_SCRIPT_VERIFY_FLAGS OR SCRIPT_VERIFY_STRICTENC OR SCRIPT_VERIFY_MINIMALDATA OR SCRIPT_VERIFY_NULLDUMMY OR
            SCRIPT_VERIFY_DISCOURAGE_UPGRADABLE_NOPS OR SCRIPT_VERIFY_CLEANSTACK OR SCRIPT_VERIFY_CHECKLOCKTIMEVERIFY OR SCRIPT_VERIFY_LOW_S
      in STANDARD_SCRIPT_VERIFY_FLAGS AND NOT MANDATORY_SCRIPT_VERIFY_FLAGS)"

text \<open>
  The script checks of \<open>ContextualCheckInputs\<close>. With a vector for them, \<open>run\<close> is \<open>None\<close> and they are returned to be run
  later; without one, they are run at once by the given function.
\<close>

definition script_check_now :: "(CScriptCheck \<Rightarrow> ScriptError result) \<Rightarrow> CScriptCheck \<Rightarrow> unit checked" where
  "script_check_now run check =
     sbind (lift_result (run check)) (\<lambda>serror.
     if serror = SCRIPT_ERR_OK then Inr () else
     sbind (if sc_nFlags check AND STANDARD_NOT_MANDATORY_VERIFY_FLAGS \<noteq> 0
            then lift_result (run (check\<lparr>sc_nFlags := sc_nFlags check AND NOT STANDARD_NOT_MANDATORY_VERIFY_FLAGS\<rparr>))
            else Inr serror) (\<lambda>serror2.
     if sc_nFlags check AND STANDARD_NOT_MANDATORY_VERIFY_FLAGS \<noteq> 0 \<and> serror2 = SCRIPT_ERR_OK
     then Inl (Rejected 0 REJECT_NONSTANDARD (''non-mandatory-script-verify-flag ('' @ ScriptErrorString serror @ '')'') False)
     else DoS 100 (''mandatory-script-verify-flag-failed ('' @ ScriptErrorString serror @ '')'')))"

fun script_checks ::
  "('s, 'st, 'sp) CCoinsView \<Rightarrow> (CScriptCheck \<Rightarrow> ScriptError result) option \<Rightarrow> CTransaction \<Rightarrow> uint32_t \<Rightarrow> uint32_t \<Rightarrow>
   PrecomputedTransactionData \<Rightarrow> (nat \<times> CTxIn) list \<Rightarrow> ('s, 'st, 'sp) CCoinsViewCache \<Rightarrow>
   (CScriptCheck list \<times> ('s, 'st, 'sp) CCoinsViewCache) checked" where
  "script_checks V run tx flags consensusBranchId txdata [] inputs = Inr ([], inputs)"
| "script_checks V run tx flags consensusBranchId txdata ((i, txin) # ins) inputs =
     (case AccessCoins V (op_hash (prevout txin)) inputs of
        (None, inputs) \<Rightarrow> Inl (Aborted (AssertFail ''coins''))
      | (Some coins, inputs) \<Rightarrow>
          (let out = cc_vout coins ! unat (op_n (prevout txin));
               check = \<lparr>sc_scriptPubKey = scriptPubKey out, sc_amount = nValue out, sc_ptxTo = tx, sc_nIn = of_nat i, sc_nFlags = flags,
                        sc_consensusBranchId = consensusBranchId, sc_txdata = txdata\<rparr>
           in case run of
                None \<Rightarrow>
                  sbind (script_checks V run tx flags consensusBranchId txdata ins inputs) (\<lambda>(checks, inputs). Inr (check # checks, inputs))
              | Some run' \<Rightarrow>
                  sbind (script_check_now run' check) (\<lambda>_. script_checks V run tx flags consensusBranchId txdata ins inputs)))"

text \<open>The height is what \<open>GetSpendHeight\<close> returns.\<close>

definition ContextualCheckInputs ::
  "('s, 'st, 'sp) CCoinsView \<Rightarrow> 'st tree_ops \<Rightarrow> (CScriptCheck \<Rightarrow> ScriptError result) option \<Rightarrow> bool \<Rightarrow> CTransaction \<Rightarrow> int \<Rightarrow> bool \<Rightarrow> uint32_t \<Rightarrow>
   PrecomputedTransactionData \<Rightarrow> uint32_t \<Rightarrow> ('s, 'st, 'sp) CCoinsViewCache \<Rightarrow> (CScriptCheck list \<times> ('s, 'st, 'sp) CCoinsViewCache) checked" where
  "ContextualCheckInputs V ST run mustBeShielded tx nSpendHeight fScriptChecks flags txdata consensusBranchId inputs =
     (if \<not> IsCoinBase tx then
        sbind (CheckTxInputs V ST mustBeShielded tx nSpendHeight inputs) (\<lambda>inputs.
          if fScriptChecks then script_checks V run tx flags consensusBranchId txdata (enumerate 0 (vin tx)) inputs else Inr ([], inputs))
      else Inr ([], inputs))"

section \<open>What the checks ensure\<close>

lemma DoS_not_Inr [simp]: "DoS l r \<noteq> Inr x" "(DoS l r = Inr x) = False"
  by (simp_all add: DoS_def)

lemma check_outputs_Inr:
  "check_outputs outs n = Inr m \<Longrightarrow> MoneyRange n \<Longrightarrow>
   (\<forall>x \<in> set outs. MoneyRange (nValue x)) \<and> m = n + sum_list (map nValue outs) \<and> MoneyRange m"
  by (induction outs n rule: check_outputs.induct) (auto simp: Let_def MoneyRange_def split: if_splits)

lemma check_joinsplits_Inr:
  "check_joinsplits js n = Inr m \<Longrightarrow> MoneyRange n \<Longrightarrow>
   (\<forall>j \<in> set js. MoneyRange (vpub_old j) \<and> MoneyRange (vpub_new j)) \<and> m = n + sum_list (map vpub_old js) \<and> MoneyRange m"
  by (induction js n rule: check_joinsplits.induct) (auto simp: Let_def MoneyRange_def split: if_splits)

lemma check_joinsplits_in_Inr:
  "check_joinsplits_in js n = Inr m \<Longrightarrow> MoneyRange n \<Longrightarrow>
   (\<forall>j \<in> set js. MoneyRange (vpub_new j)) \<and> m = n + sum_list (map vpub_new js) \<and> MoneyRange m"
proof (induction js arbitrary: n)
  case (Cons j js)
  then have "MoneyRange (vpub_new j)" "MoneyRange (n + vpub_new j)" "check_joinsplits_in js (n + vpub_new j) = Inr m"
    by (simp_all add: Let_def split: if_splits)
  with Cons.IH [of "n + vpub_new j"] show ?case by (auto simp: add.assoc)
qed simp

lemma CheckTransactionD:
  assumes "CheckTransactionWithoutProofVerification tx = Inr ()"
  obtains n n' n'' m where "check_header tx = Inr ()" "check_outputs (vout tx) 0 = Inr n" "check_value_balance tx n = Inr n'"
    "check_joinsplits (vJoinSplit tx) n' = Inr n''" "check_joinsplits_in (vJoinSplit tx) 0 = Inr m"
    "valueBalance tx \<ge> 0 \<longrightarrow> MoneyRange (m + valueBalance tx)" "check_duplicates tx = Inr ()" "check_coinbase tx = Inr ()"
    "\<exists>bs. ser_tx tx = Inr bs \<and> length bs \<le> MAX_TX_SIZE_AFTER_SAPLING"
  using assms by (auto simp: CheckTransactionWithoutProofVerification_def sbind_Inr lift_result_Inr split: if_splits)

lemma check_value_balance_Inr:
  assumes "check_value_balance tx n = Inr m" "MoneyRange n"
  shows "m = n + (if valueBalance tx \<le> 0 then - valueBalance tx else 0) \<and> MoneyRange m \<and> \<bar>valueBalance tx\<bar> \<le> MAX_MONEY"
  using assms by (auto simp: check_value_balance_def Let_def split: if_splits)

text \<open>A checked transaction has values that the accessors return.\<close>

lemma checked_values:
  assumes "CheckTransactionWithoutProofVerification tx = Inr ()"
  shows "GetValueOut tx = Inr (sum_list (value_out_parts tx)) \<and> GetShieldedValueIn tx = Inr (sum_list (value_in_parts tx)) \<and>
    MoneyRange (sum_list (value_out_parts tx)) \<and> MoneyRange (sum_list (value_in_parts tx)) \<and> (\<forall>x \<in> set (vout tx). MoneyRange (nValue x))"
proof -
  obtain n n' n'' m where c: "check_outputs (vout tx) 0 = Inr n" "check_value_balance tx n = Inr n'"
    "check_joinsplits (vJoinSplit tx) n' = Inr n''" "check_joinsplits_in (vJoinSplit tx) 0 = Inr m"
    "valueBalance tx \<ge> 0 \<longrightarrow> MoneyRange (m + valueBalance tx)"
    using CheckTransactionD [OF assms] by metis
  note o1 = check_outputs_Inr [OF c(1), simplified]
  then have vb: "n' = n + (if valueBalance tx \<le> 0 then - valueBalance tx else 0) \<and> MoneyRange n' \<and> \<bar>valueBalance tx\<bar> \<le> MAX_MONEY"
    using check_value_balance_Inr [OF c(2)] by blast
  then have j: "(\<forall>j \<in> set (vJoinSplit tx). MoneyRange (vpub_old j) \<and> MoneyRange (vpub_new j)) \<and> n'' = n' + sum_list (map vpub_old (vJoinSplit tx)) \<and> MoneyRange n''"
    using check_joinsplits_Inr [OF c(3)] by blast
  note i = check_joinsplits_in_Inr [OF c(4), simplified]
  have "sum_list (value_out_parts tx) = n''" using o1 vb j by (simp add: value_out_parts_def)
  moreover have "\<forall>v \<in> set (value_out_parts tx). MoneyRange v" using o1 vb j by (auto simp: value_out_parts_def MoneyRange_def)
  moreover have "MoneyRange (sum_list (value_in_parts tx))" using i c(5) by (auto simp: value_in_parts_def add.commute)
  moreover have "\<forall>v \<in> set (value_in_parts tx). MoneyRange v" using i vb by (auto simp: value_in_parts_def MoneyRange_def)
  moreover have "MoneyRange n''" "\<forall>x \<in> set (vout tx). MoneyRange (nValue x)" using j o1 by blast+
  ultimately show ?thesis by (simp add: GetValueOut_parts GetShieldedValueIn_parts sum_checked_eq)
qed

text \<open>The coins an input refers to can be spent at a height.\<close>

definition mature :: "('st, 'sp) utxo \<Rightarrow> bool \<Rightarrow> CTransaction \<Rightarrow> int \<Rightarrow> CTxIn \<Rightarrow> bool" where
  "mature u mustBeShielded tx nSpendHeight txin \<longleftrightarrow>
     (\<forall>y. u_coins u (op_hash (prevout txin)) = Some y \<longrightarrow> cc_fCoinBase y \<longrightarrow>
        nSpendHeight - cc_nHeight y \<ge> COINBASE_MATURITY \<and> (mustBeShielded \<longrightarrow> vout tx = []))"

context coins_view
begin

lemma check_input_values_law:
  "cinv c \<Longrightarrow> \<forall>i \<in> set ins. unspent (cabs c) (prevout i) \<noteq> None \<Longrightarrow> MoneyRange n \<Longrightarrow>
   check_input_values V ms tx h ins n c = Inr (m, c') \<Longrightarrow>
   same c c' \<and> m = n + value_of_inputs (cabs c) ins \<and> MoneyRange m \<and> (\<forall>i \<in> set ins. mature (cabs c) ms tx h i)"
proof (induction ins arbitrary: c n)
  case (Cons txin ins)
  let ?k = "op_hash (prevout txin)"
  obtain r c1 where a: "AccessCoins V ?k c = (r, c1)" by fastforce
  note l = AccessCoins_law [OF Cons.prems(1) a]
  then obtain coins where r: "r = Some coins" "u_coins (cabs c) ?k = Some coins"
      "unspent (cabs c) (prevout txin) = Some (cc_vout coins ! unat (op_n (prevout txin)))"
    using Cons.prems(2) by (cases r) (auto simp: unspent_def split: option.splits if_splits)
  let ?v = "nValue (cc_vout coins ! unat (op_n (prevout txin)))"
  have s: "check_input_values V ms tx h ins (n + ?v) c1 = Inr (m, c')" "MoneyRange (n + ?v)"
    "cc_fCoinBase coins \<longrightarrow> h - cc_nHeight coins \<ge> COINBASE_MATURITY \<and> (ms \<longrightarrow> vout tx = [])"
    using Cons.prems(4) a r by (auto simp: Let_def split: if_splits)
  have "same c1 c' \<and> m = n + ?v + value_of_inputs (cabs c1) ins \<and> MoneyRange m \<and> (\<forall>i \<in> set ins. mature (cabs c1) ms tx h i)"
    using Cons.IH [OF _ _ s(2,1)] Cons.prems(2) l by auto
  moreover have "mature (cabs c) ms tx h txin" using r(2) s(3) by (simp add: mature_def)
  ultimately show ?case using l r(3) by auto
qed simp

lemma CheckTxInputs_law:
  assumes "cinv c" "CheckTxInputs V ST ms tx h c = Inr c'" "\<not> IsCoinBase tx"
  shows "same c c' \<and> (\<forall>i \<in> set (vin tx). unspent (cabs c) (prevout i) \<noteq> None \<and> mature (cabs c) ms tx h i) \<and>
    (\<forall>t. \<forall>nf \<in> tx_nullifiers tx t. \<not> u_nullifier (cabs c) t nf) \<and>
    (\<exists>s v. GetShieldedValueIn tx = Inr s \<and> GetValueOut tx = Inr v \<and> v \<le> value_of_inputs (cabs c) (vin tx) + s \<and>
       MoneyRange (value_of_inputs (cabs c) (vin tx) + s) \<and> MoneyRange (value_of_inputs (cabs c) (vin tx) + s - v))"
proof -
  obtain b1 c1 where h1: "HaveInputs V tx c = (b1, c1)" by fastforce
  obtain c2 m s v where h: "b1" "HaveShieldedRequirements V ST tx c1 = Inr (True, c2)"
      "check_input_values V ms tx h (vin tx) 0 c2 = Inr (m, c')" "GetShieldedValueIn tx = Inr s" "GetValueOut tx = Inr v"
      "MoneyRange (m + s)" "v \<le> m + s" "MoneyRange (m + s - v)"
    using assms(2) h1 by (auto simp: CheckTxInputs_def sbind_Inr lift_result_Inr Let_def split: if_splits)
  note l1 = HaveInputs_law [OF assms(1) h1]
  then have "cinv c1" by simp
  note l2 = HaveShieldedRequirements_law [OF this h(2)]
  then have "cinv c2" by simp
  moreover have u: "\<forall>i \<in> set (vin tx). unspent (cabs c2) (prevout i) \<noteq> None" using l1 l2 h(1) assms(3) by simp
  ultimately have "same c2 c' \<and> m = 0 + value_of_inputs (cabs c2) (vin tx) \<and> MoneyRange m \<and> (\<forall>i \<in> set (vin tx). mature (cabs c2) ms tx h i)"
    using check_input_values_law h(3) MoneyRange_0 by blast
  then show ?thesis using l1 l2 h u by simp
qed

lemma check_input_values_reject:
  "cinv c \<Longrightarrow> \<forall>i \<in> set ins. unspent (cabs c) (prevout i) \<noteq> None \<Longrightarrow> check_input_values V ms tx h ins n c \<noteq> Inl (Aborted e)"
proof (induction ins arbitrary: c n)
  case (Cons txin ins)
  obtain r c1 where a: "AccessCoins V (op_hash (prevout txin)) c = (r, c1)" by fastforce
  note l = AccessCoins_law [OF Cons.prems(1) a]
  then obtain coins where "r = Some coins"
    using Cons.prems(2) by (cases r) (auto simp: unspent_def split: option.splits if_splits)
  then show ?case using Cons a l by (simp add: Let_def DoS_def)
qed simp

lemma CheckTxInputs_no_throw:
  assumes "cinv c" "CheckTransactionWithoutProofVerification tx = Inr ()" "\<not> IsCoinBase tx" "CheckTxInputs V ST ms tx h c = Inl (Aborted e)"
  shows "\<exists>c1. same c c1 \<and> HaveShieldedRequirements V ST tx c1 = Inl e"
proof -
  obtain b1 c1 where h1: "HaveInputs V tx c = (b1, c1)" by fastforce
  note l1 = HaveInputs_law [OF assms(1) h1]
  note v = checked_values [OF assms(2)]
  have b1: "b1" using assms(4) h1 by (auto simp: CheckTxInputs_def split: if_splits)
  show ?thesis
  proof (cases "HaveShieldedRequirements V ST tx c1")
    case (Inl e')
    then show ?thesis using assms(4) h1 b1 l1 by (auto simp: CheckTxInputs_def)
  next
    case (Inr p)
    then obtain b2 c2 where h2: "HaveShieldedRequirements V ST tx c1 = Inr (b2, c2)" by (cases p) simp
    have "cinv c1" using l1 by simp
    note l2 = HaveShieldedRequirements_law [OF this h2]
    have "check_input_values V ms tx h (vin tx) 0 c2 \<noteq> Inl (Aborted e)"
      using check_input_values_reject l1 l2 b1 assms(3) by simp
    then have False using assms(4) h1 h2 b1 v by (cases "check_input_values V ms tx h (vin tx) 0 c2")
        (auto simp: CheckTxInputs_def DoS_def Let_def split: if_splits)
    then show ?thesis ..
  qed
qed

end


definition ex_spend_tx :: CTransaction where
  "ex_spend_tx = (CTransaction_members CMutableTransaction_default)\<lparr>
     vin := [\<lparr>prevout = \<lparr>op_hash = [3], op_n = 1\<rparr>, scriptSig = [], nSequence = 0\<rparr>],
     vout := [\<lparr>nValue = 1000, scriptPubKey = [OP_1]\<rparr>], tx_hash := [5]\<rparr>"

lemma ex_spend_tx_checked: "CheckTransactionWithoutProofVerification ex_spend_tx = Inr ()" "\<not> IsCoinBase ex_spend_tx"
proof -
  show "\<not> IsCoinBase ex_spend_tx" by (simp add: ex_spend_tx_def IsCoinBase_def COutPoint_IsNull_def)
  moreover have "ser_tx ex_spend_tx = Inr bs \<Longrightarrow> length bs \<le> MAX_TX_SIZE_AFTER_SAPLING" for bs
    by (auto simp: ex_spend_tx_def ser_tx_def CTransaction_members_def CMutableTransaction_default_def MAX_TX_SIZE_AFTER_SAPLING_def MAX_BLOCK_SIZE_def
      ser_vector_def ser_elems_def ser_CTxIn_def ser_CTxOut_def ser_COutPoint_def ser_writedata32_def ser_int64_def ser_bytes_def WriteCompactSize_def
      le_bytes_def ser_writedata8_def ser_writedata64_def SPROUT_MIN_CURRENT_VERSION_def)
  moreover have "\<exists>bs. ser_tx ex_spend_tx = Inr bs"
    by (simp add: ex_spend_tx_def ser_tx_def CTransaction_members_def CMutableTransaction_default_def SPROUT_MIN_CURRENT_VERSION_def)
  ultimately show "CheckTransactionWithoutProofVerification ex_spend_tx = Inr ()"
    by (auto simp: CheckTransactionWithoutProofVerification_def check_coinbase_def)
       (auto simp: check_header_def check_value_balance_def check_duplicates_def check_coinbase_def ex_spend_tx_def CTransaction_members_def
         CMutableTransaction_default_def SPROUT_MIN_CURRENT_VERSION_def SPROUT_MIN_TX_VERSION_def MoneyRange_def MAX_MONEY_def COIN_def COutPoint_IsNull_def)
qed


end
