(* ===== verification/Merkle.thy ===== *)
theory Merkle
  imports Hashing
begin

text \<open>
  The Merkle tree over the transactions of a block (consensus/merkle.cpp). \<open>MerkleComputation\<close> is the single pass over the
  leaves with one stored hash per level: \<open>merkle_leaves\<close> is the first loop, \<open>merkle_skip\<close> the search for the lowest level
  with a hash, \<open>merkle_sweep\<close> the final sweep over the rightmost branch; \<open>merkle_up\<close> and \<open>merkle_match\<close> are the inner loop
  and the branch step the first and the last share. The count is a 32-bit word and a shift by 32 places is an error. The
  reference is \<open>merkle_root\<close>, which builds the tree level by level: the invariant \<open>merkle_inner\<close> of the stored hashes and
  \<open>sweep_ok\<close> of the sweep relate the two, \<open>matched_at\<close>, \<open>up_match\<close> and \<open>sweep_match\<close> follow the branch.
\<close>

unbundle bit_operations_syntax

section \<open>The constant-space computation\<close>

definition merkle_match ::
  "bool \<Rightarrow> int \<Rightarrow> nat \<Rightarrow> uint256 \<Rightarrow> uint256 \<Rightarrow> bool \<Rightarrow> uint256 list \<Rightarrow> bool \<times> uint256 list" where
  "merkle_match pbranch matchlevel level left h matchh branch =
     (if pbranch then
        if matchh then (matchh, branch @ [left])
        else if matchlevel = int level then (True, branch @ [h])
        else (matchh, branch)
      else (matchh, branch))"

text \<open>
  The loop that combines \<open>h\<close> with the subtree hashes at the levels where the count has a zero bit. A shift by 32 or
  more places is an error.
\<close>

function merkle_up ::
  "bool \<Rightarrow> int \<Rightarrow> uint256 list \<Rightarrow> uint32_t \<Rightarrow> nat \<Rightarrow> uint256 \<Rightarrow> bool \<Rightarrow> bool \<Rightarrow> uint256 list \<Rightarrow>
   (nat \<times> uint256 \<times> bool \<times> bool \<times> uint256 list) result" where
  "merkle_up pbranch matchlevel inner count level h matchh mutated branch =
     (if level \<ge> 32 then Inl (Throw ''shift out of range'')
      else if count AND push_bit level 1 \<noteq> 0 then Inr (level, h, matchh, mutated, branch)
      else case merkle_match pbranch matchlevel level (inner ! level) h matchh branch of
        (matchh, branch) \<Rightarrow>
          merkle_up pbranch matchlevel inner count (Suc level) (Hash_concat2 (inner ! level) h) matchh (mutated \<or> inner ! level = h) branch)"
  by pat_completeness auto
termination by (relation "measure (\<lambda>(_, _, _, _, level, _). 32 - level)") auto

declare merkle_up.simps [simp del]

fun merkle_leaves ::
  "bool \<Rightarrow> uint32_t \<Rightarrow> uint256 list \<Rightarrow> uint32_t \<Rightarrow> uint256 list \<Rightarrow> int \<Rightarrow> bool \<Rightarrow> uint256 list \<Rightarrow>
   (uint32_t \<times> uint256 list \<times> int \<times> bool \<times> uint256 list) result" where
  "merkle_leaves pbranch branchpos [] count inner matchlevel mutated branch = Inr (count, inner, matchlevel, mutated, branch)"
| "merkle_leaves pbranch branchpos (h # leaves) count inner matchlevel mutated branch =
     (case merkle_up pbranch matchlevel inner (count + 1) 0 h (count = branchpos) mutated branch of
        Inl e \<Rightarrow> Inl e
      | Inr (level, h, matchh, mutated, branch) \<Rightarrow>
          merkle_leaves pbranch branchpos leaves (count + 1) (inner[level := h]) (if matchh then int level else matchlevel) mutated branch)"

function merkle_skip :: "uint32_t \<Rightarrow> nat \<Rightarrow> nat result" where
  "merkle_skip count level =
     (if level \<ge> 32 then Inl (Throw ''shift out of range'')
      else if count AND push_bit level 1 \<noteq> 0 then Inr level else merkle_skip count (Suc level))"
  by pat_completeness auto
termination by (relation "measure (\<lambda>(_, level). 32 - level)") auto

declare merkle_skip.simps [simp del]

lemma merkle_up_level: "merkle_up pb ml inner count level h mh mut br = Inr (level', r) \<Longrightarrow> level \<le> level' \<and> level' < 32"
proof (induction pb ml inner count level h mh mut br rule: merkle_up.induct)
  case (1 pb ml inner count level h mh mut br)
  show ?case
    using 1(2) 1(1) [of "fst (merkle_match pb ml level (inner ! level) h mh br)" "snd (merkle_match pb ml level (inner ! level) h mh br)"]
    by (subst (asm) merkle_up.simps) (fastforce split: if_splits prod.splits)
qed

function merkle_sweep ::
  "bool \<Rightarrow> int \<Rightarrow> uint256 list \<Rightarrow> uint32_t \<Rightarrow> nat \<Rightarrow> uint256 \<Rightarrow> bool \<Rightarrow> uint256 list \<Rightarrow> (uint256 \<times> uint256 list) result" where
  "merkle_sweep pbranch matchlevel inner count level h matchh branch =
     (if level \<ge> 32 then Inl (Throw ''shift out of range'')
      else if count = push_bit level 1 then Inr (h, branch)
      else
        let branch = (if pbranch \<and> matchh then branch @ [h] else branch);
            h = Hash_concat2 h h; count = count + push_bit level 1; level = Suc level
        in case merkle_up pbranch matchlevel inner count level h matchh False branch of
             Inl e \<Rightarrow> Inl e
           | Inr (level, h, matchh, _, branch) \<Rightarrow> merkle_sweep pbranch matchlevel inner count level h matchh branch)"
  by pat_completeness auto
termination
  by (relation "measure (\<lambda>(_, _, _, _, level, _). 32 - level)") (auto dest!: merkle_up_level)

declare merkle_sweep.simps [simp del]

definition MerkleComputation :: "uint256 list \<Rightarrow> uint32_t \<Rightarrow> bool \<Rightarrow> (uint256 \<times> bool \<times> uint256 list) result" where
  "MerkleComputation leaves branchpos pbranch =
     (if leaves = [] then Inr (replicate 32 0, False, [])
      else case merkle_leaves pbranch branchpos leaves 0 (replicate 32 (replicate 32 0)) (- 1) False [] of
        Inl e \<Rightarrow> Inl e
      | Inr (count, inner, matchlevel, mutated, branch) \<Rightarrow>
          (case merkle_skip count 0 of
             Inl e \<Rightarrow> Inl e
           | Inr level \<Rightarrow>
               (case merkle_sweep pbranch matchlevel inner count level (inner ! level) (matchlevel = int level) branch of
                  Inl e \<Rightarrow> Inl e
                | Inr (h, branch) \<Rightarrow> Inr (h, mutated, branch))))"

definition ComputeMerkleRoot :: "uint256 list \<Rightarrow> (uint256 \<times> bool) result" where
  "ComputeMerkleRoot leaves =
     (case MerkleComputation leaves (- 1) False of Inl e \<Rightarrow> Inl e | Inr (hash, mutated, _) \<Rightarrow> Inr (hash, mutated))"

definition ComputeMerkleBranch :: "uint256 list \<Rightarrow> uint32_t \<Rightarrow> uint256 list result" where
  "ComputeMerkleBranch leaves position =
     (case MerkleComputation leaves position True of Inl e \<Rightarrow> Inl e | Inr (_, _, branch) \<Rightarrow> Inr branch)"

fun ComputeMerkleRootFromBranch :: "uint256 \<Rightarrow> uint256 list \<Rightarrow> uint32_t \<Rightarrow> uint256" where
  "ComputeMerkleRootFromBranch hash [] nIndex = hash"
| "ComputeMerkleRootFromBranch hash (it # vMerkleBranch) nIndex =
     ComputeMerkleRootFromBranch (if nIndex AND 1 \<noteq> 0 then Hash_concat2 it hash else Hash_concat2 hash it) vMerkleBranch (drop_bit 1 nIndex)"

section \<open>The Merkle tree\<close>

text \<open>
  The tree of the protocol: each level pairs the hashes of the one below, the last one with itself where their
  number is odd.
\<close>

fun merkle_level :: "uint256 list \<Rightarrow> uint256 list" where
  "merkle_level [] = []"
| "merkle_level [x] = [Hash_concat2 x x]"
| "merkle_level (x # y # xs) = Hash_concat2 x y # merkle_level xs"

lemma length_merkle_level: "length (merkle_level xs) = (length xs + 1) div 2"
  by (induction xs rule: merkle_level.induct) auto

lemma nth_merkle_level:
  "i < (length xs + 1) div 2 \<Longrightarrow>
   merkle_level xs ! i = Hash_concat2 (xs ! (2 * i)) (if 2 * i + 1 < length xs then xs ! (2 * i + 1) else xs ! (2 * i))"
proof (induction xs arbitrary: i rule: merkle_level.induct)
  case (3 x y xs)
  then show ?case by (cases i) auto
qed auto

function merkle_root :: "uint256 list \<Rightarrow> uint256" where
  "merkle_root [] = replicate 32 0"
| "merkle_root [x] = x"
| "merkle_root (x # y # xs) = merkle_root (merkle_level (x # y # xs))"
  by pat_completeness auto
termination by (relation "measure length") (auto simp: length_merkle_level)

abbreviation merkle_levels :: "nat \<Rightarrow> uint256 list \<Rightarrow> uint256 list" where
  "merkle_levels l xs \<equiv> (merkle_level ^^ l) xs"

lemma merkle_root_levels:
  "length (merkle_levels l xs) = 1 \<Longrightarrow> (\<And>l'. l' < l \<Longrightarrow> 1 < length (merkle_levels l' xs)) \<Longrightarrow> merkle_root xs = merkle_levels l xs ! 0"
proof (induction l arbitrary: xs)
  case 0
  then show ?case by (cases xs) auto
next
  case (Suc l)
  have s: "merkle_levels (Suc k) xs = merkle_levels k (merkle_level xs)" for k by (simp add: funpow_Suc_right del: funpow.simps)
  have "merkle_root (merkle_level xs) = merkle_levels l (merkle_level xs) ! 0"
    using Suc.prems(1) Suc.prems(2) [of "Suc _"] by (intro Suc.IH) (simp_all only: s Suc_less_eq)
  moreover have "merkle_root xs = merkle_root (merkle_level xs)"
    using Suc.prems(2) [of 0] by (cases xs rule: merkle_level.cases) auto
  ultimately show ?case by (simp only: s)
qed

text \<open>The number of nodes at a level, and their values.\<close>

definition merkle_width :: "nat \<Rightarrow> nat \<Rightarrow> nat" where
  "merkle_width n l = (n + 2 ^ l - 1) div 2 ^ l"

lemma merkle_width_0 [simp]: "merkle_width n 0 = n"
  by (simp add: merkle_width_def)

lemma merkle_width_Suc: "merkle_width n (Suc l) = (merkle_width n l + 1) div 2"
proof -
  define a where "a = n + 2 ^ l - (1::nat)"
  have "n + 2 ^ Suc l - 1 = a + 2 ^ l" by (simp add: a_def)
  then have "merkle_width n (Suc l) = (a + 2 ^ l) div 2 ^ l div 2"
    unfolding merkle_width_def by (simp only: power_Suc2 div_mult2_eq)
  moreover have "(a + 2 ^ l) div 2 ^ l = a div 2 ^ l + 1" by (rule div_add_self2) simp
  moreover have "merkle_width n l = a div 2 ^ l" by (simp add: merkle_width_def a_def)
  ultimately show ?thesis by simp
qed

lemma length_merkle_levels: "length (merkle_levels l xs) = merkle_width (length xs) l"
  by (induction l) (simp_all add: length_merkle_level merkle_width_Suc)

lemma ceil_div:
  assumes "0 < (m::nat)"
  shows "(n + m - 1) div m = (if n mod m = 0 then n div m else n div m + 1)"
proof -
  define q r where "q = n div m" and "r = n mod m"
  have n: "n = m * q + r" and r: "r < m" using assms by (simp_all add: q_def r_def)
  have "(m * q + r + m - 1) div m = (if r = 0 then q else q + 1)"
  proof (cases "r = 0")
    case True
    then show ?thesis using assms by (auto intro!: div_nat_eqI simp: algebra_simps)
  next
    case False
    then show ?thesis using r by (auto intro!: div_nat_eqI simp: algebra_simps)
  qed
  then show ?thesis unfolding q_def [symmetric] r_def [symmetric] by (simp add: n [symmetric])
qed

lemma merkle_width_div: "merkle_width n l = (if n mod 2 ^ l = 0 then n div 2 ^ l else n div 2 ^ l + 1)"
  unfolding merkle_width_def by (rule ceil_div) simp

lemma nth_merkle_levels_Suc:
  assumes "i < merkle_width (length xs) (Suc l)"
  shows "merkle_levels (Suc l) xs ! i = Hash_concat2 (merkle_levels l xs ! (2 * i))
    (if 2 * i + 1 < merkle_width (length xs) l then merkle_levels l xs ! (2 * i + 1) else merkle_levels l xs ! (2 * i))"
  using assms nth_merkle_level [of i "merkle_levels l xs"] by (simp add: length_merkle_levels merkle_width_Suc)

section \<open>The computation gives the root of the tree\<close>

text \<open>After \<open>c\<close> leaves, the array holds at each level where \<open>c\<close> has a one bit the last complete node at that level.\<close>

definition merkle_inner :: "uint256 list \<Rightarrow> nat \<Rightarrow> uint256 list \<Rightarrow> bool" where
  "merkle_inner xs c inner \<longleftrightarrow> length inner = 32 \<and> (\<forall>l < 32. odd (c div 2 ^ l) \<longrightarrow> inner ! l = merkle_levels l xs ! (c div 2 ^ l - 1))"

lemma bit_test: "l < 32 \<Longrightarrow> c < 2 ^ 32 \<Longrightarrow> (of_nat c :: uint32_t) AND push_bit l 1 \<noteq> 0 \<longleftrightarrow> odd (c div 2 ^ l)"
proof -
  assume "l < 32" "c < 2 ^ 32"
  have "(of_nat c :: uint32_t) AND push_bit l 1 \<noteq> 0 \<longleftrightarrow> bit (of_nat c :: uint32_t) l"
    using \<open>l < 32\<close> by (simp add: and_exp_eq_0_iff_not_bit push_bit_eq_mult)
  also have "\<dots> \<longleftrightarrow> bit c l" using \<open>l < 32\<close> by (simp add: bit_of_nat_iff possible_bit_word)
  finally show ?thesis by (simp add: bit_iff_odd)
qed

lemma pred_div: "c + 1 = m * k \<Longrightarrow> 0 < m \<Longrightarrow> c div m = k - (1::nat)"
  by (cases k) (auto intro!: div_nat_eqI simp: algebra_simps)

lemma complete_node:
  assumes "(i + 1) * 2 ^ Suc l \<le> length xs"
  shows "merkle_levels (Suc l) xs ! i = Hash_concat2 (merkle_levels l xs ! (2 * i)) (merkle_levels l xs ! (2 * i + 1))"
proof -
  have "2 * i + 2 \<le> length xs div 2 ^ l" using assms by (simp add: less_eq_div_iff_mult_less_eq)
  then have "2 * i + 2 \<le> merkle_width (length xs) l" by (auto simp: merkle_width_div)
  then show ?thesis by (subst nth_merkle_levels_Suc) (simp_all add: merkle_width_Suc)
qed

text \<open>A branch of \<open>l\<close> hashes that leads from leaf \<open>p\<close> to the node above it at level \<open>l\<close>.\<close>

definition merkle_path :: "uint256 list \<Rightarrow> nat \<Rightarrow> nat \<Rightarrow> uint256 list \<Rightarrow> bool" where
  "merkle_path xs p l br \<longleftrightarrow> length br = l \<and> ComputeMerkleRootFromBranch (xs ! p) br (of_nat p) = merkle_levels l xs ! (p div 2 ^ l)"

lemma RootFromBranch_append:
  "ComputeMerkleRootFromBranch h (br @ [s]) i =
     (let r = ComputeMerkleRootFromBranch h br i in if bit i (length br) then Hash_concat2 s r else Hash_concat2 r s)"
proof (induction br arbitrary: h i)
  case Nil
  then show ?case by (simp add: bit_0 and_one_eq even_iff_mod_2_eq_zero)
next
  case (Cons b br)
  then show ?case by (simp add: bit_drop_bit_eq)
qed

lemma merkle_width_gt: "p < n \<Longrightarrow> p div 2 ^ l < merkle_width n l"
proof -
  assume "p < n"
  then have "(p + 2 ^ l) div 2 ^ l \<le> merkle_width n l" unfolding merkle_width_def by (intro div_le_mono) simp
  moreover have "(p + 2 ^ l) div 2 ^ l = p div 2 ^ l + 1" by (rule div_add_self2) simp
  ultimately show ?thesis by simp
qed

lemma merkle_path_Suc:
  assumes "merkle_path xs p l br" "l < 32" "p < length xs"
    and s: "s = merkle_levels l xs ! (if odd (p div 2 ^ l) then p div 2 ^ l - 1 else if p div 2 ^ l + 1 < merkle_width (length xs) l then p div 2 ^ l + 1 else p div 2 ^ l)"
  shows "merkle_path xs p (Suc l) (br @ [s])"
proof -
  let ?i = "p div 2 ^ l" and ?j = "p div 2 ^ Suc l"
  have j: "?j = ?i div 2" by (simp only: power_Suc2 div_mult2_eq)
  note w = merkle_width_gt [OF assms(3), of l]
  have "bit (of_nat p :: uint32_t) l \<longleftrightarrow> bit p l" using assms(2) by (simp add: bit_of_nat_iff possible_bit_word)
  then have b: "bit (of_nat p :: uint32_t) l \<longleftrightarrow> odd ?i" by (simp only: bit_iff_odd)
  note n = nth_merkle_levels_Suc [OF merkle_width_gt [OF assms(3), of "Suc l"]]
  show ?thesis
  proof (cases "odd ?i")
    case True
    then have "?i = 2 * ?j + 1" using j by simp
    then show ?thesis using n assms(1) b s w True by (simp add: merkle_path_def RootFromBranch_append Let_def)
  next
    case False
    then have "?i = 2 * ?j" using j by simp
    then show ?thesis using n assms(1) b s False by (simp add: merkle_path_def RootFromBranch_append Let_def)
  qed
qed

text \<open>
  The state of the match with leaf \<open>p\<close> while leaf \<open>c\<close> is worked in, up to a level: the node at hand is above \<open>p\<close>, or \<open>p\<close> is
  still to come, or the node at the match level is above it.
\<close>

definition matched_at :: "uint256 list \<Rightarrow> nat \<Rightarrow> nat \<Rightarrow> int \<Rightarrow> nat \<Rightarrow> uint256 list \<Rightarrow> bool" where
  "matched_at xs p c ml l br \<longleftrightarrow> (\<exists>k \<ge> l. k < 32 \<and> ml = int k \<and> odd (c div 2 ^ k) \<and> p div 2 ^ k = c div 2 ^ k - 1 \<and> merkle_path xs p k br)"

definition up_match :: "uint256 list \<Rightarrow> nat \<Rightarrow> nat \<Rightarrow> int \<Rightarrow> nat \<Rightarrow> bool \<Rightarrow> uint256 list \<Rightarrow> bool" where
  "up_match xs p c ml l mh br \<longleftrightarrow>
     (if mh then p div 2 ^ l = c div 2 ^ l \<and> merkle_path xs p l br else (c < p \<and> ml = - 1 \<and> br = []) \<or> matched_at xs p c ml l br)"

definition leaves_match :: "uint256 list \<Rightarrow> nat \<Rightarrow> nat \<Rightarrow> int \<Rightarrow> uint256 list \<Rightarrow> bool" where
  "leaves_match xs p c ml br \<longleftrightarrow> (c \<le> p \<and> ml = - 1 \<and> br = []) \<or> matched_at xs p c ml 0 br"

lemma matched_at_Suc: "matched_at xs p c ml l br \<Longrightarrow> ml \<noteq> int l \<Longrightarrow> matched_at xs p c ml (Suc l) br"
  unfolding matched_at_def by (metis Suc_leI le_neq_implies_less)

lemma up_match_step:
  assumes "up_match xs p c ml l mh br" "p < length xs" "l < 32" "c div 2 ^ l = 2 * a + 1" "2 * a + 1 < merkle_width (length xs) l"
    and "left = merkle_levels l xs ! (2 * a)" "h = merkle_levels l xs ! (2 * a + 1)"
    and m: "merkle_match True ml l left h mh br = (mh2, br2)"
  shows "up_match xs p c ml (Suc l) mh2 br2"
proof -
  have d: "x div 2 ^ Suc l = x div 2 ^ l div 2" for x :: nat by (simp only: power_Suc2 div_mult2_eq)
  show ?thesis
  proof (cases mh)
    case True
    then have p: "p div 2 ^ l = 2 * a + 1" "merkle_path xs p l br" using assms(1,4) by (simp_all add: up_match_def)
    have "mh2" "br2 = br @ [left]" using m True by (simp_all add: merkle_match_def)
    moreover have "merkle_path xs p (Suc l) (br @ [left])" using merkle_path_Suc [OF p(2) assms(3,2)] p(1) assms(6) by simp
    ultimately show ?thesis using p(1) assms(4) by (simp add: up_match_def d del: power_Suc)
  next
    case False
    show ?thesis
    proof (cases "ml = int l")
      case True
      then have p: "p div 2 ^ l = 2 * a" "merkle_path xs p l br" using assms(1,4) False by (auto simp: up_match_def matched_at_def)
      have "mh2" "br2 = br @ [h]" using m True False by (simp_all add: merkle_match_def)
      moreover have "merkle_path xs p (Suc l) (br @ [h])" using merkle_path_Suc [OF p(2) assms(3,2)] p(1) assms(5,7) by simp
      ultimately show ?thesis using p(1) assms(4) by (simp add: up_match_def d del: power_Suc)
    next
      case ne: False
      then have "mh2 = mh" "br2 = br" using m False by (simp_all add: merkle_match_def)
      then show ?thesis using assms(1) False ne matched_at_Suc by (auto simp: up_match_def)
    qed
  qed
qed

lemma leaves_match_up: "leaves_match xs p c ml br \<Longrightarrow> up_match xs p c ml 0 (c = p) br"
proof -
  assume l: "leaves_match xs p c ml br"
  show ?thesis
  proof (cases "c = p")
    case True
    have "\<not> matched_at xs p p ml 0 br"
    proof
      assume "matched_at xs p p ml 0 br"
      then obtain k where "odd (p div 2 ^ k)" "p div 2 ^ k = p div 2 ^ k - 1" by (auto simp: matched_at_def)
      then show False by (cases "p div 2 ^ k") simp_all
    qed
    then have "br = []" using l True by (simp add: leaves_match_def)
    then show ?thesis using True by (simp add: up_match_def merkle_path_def)
  qed (use l in \<open>auto simp: up_match_def leaves_match_def\<close>)
qed

lemma odd_pred_div: "odd k \<Longrightarrow> 0 < j \<Longrightarrow> k div 2 ^ j = (k - 1) div 2 ^ j" for k :: nat
proof -
  assume "odd k" "0 < j"
  then obtain a i where "k = 2 * a + 1" "j = Suc i" by (auto elim: oddE simp: gr0_conv_Suc)
  then show ?thesis by (simp add: div_mult2_eq)
qed

lemma succ_div:
  fixes c :: nat
  assumes "(c + 1) mod 2 ^ level = 0" "odd ((c + 1) div 2 ^ level)"
  shows "c div 2 ^ level = (c + 1) div 2 ^ level - 1" "level < l \<Longrightarrow> (c + 1) div 2 ^ l = c div 2 ^ l"
proof -
  obtain k where k: "c + 1 = 2 ^ level * k" using assms(1) by (auto elim: dvdE simp: mod_eq_0_iff_dvd)
  then have "odd k" using assms(2) by simp
  have c: "c div 2 ^ level = k - 1" using pred_div [OF k] by simp
  then show "c div 2 ^ level = (c + 1) div 2 ^ level - 1" using k by simp
  assume "level < l"
  then obtain j where j: "l = level + j" "0 < j" using less_imp_add_positive by blast
  have "(c + 1) div 2 ^ l = k div 2 ^ j" using k j by (simp add: power_add div_mult2_eq)
  moreover have "c div 2 ^ l = (k - 1) div 2 ^ j" using c j by (simp add: power_add div_mult2_eq)
  ultimately show "(c + 1) div 2 ^ l = c div 2 ^ l" using odd_pred_div \<open>odd k\<close> j(2) by simp
qed

lemma up_match_leaves:
  assumes "up_match xs p c ml level mh br" "(c + 1) mod 2 ^ level = 0" "odd ((c + 1) div 2 ^ level)" "level < 32"
  shows "leaves_match xs p (c + 1) (if mh then int level else ml) br"
proof (cases mh)
  case True
  then show ?thesis using assms succ_div(1) [OF assms(2,3)]
    by (auto simp: up_match_def leaves_match_def matched_at_def intro!: exI [of _ level])
next
  case False
  have "leaves_match xs p (c + 1) ml br" if m: "matched_at xs p c ml level br"
  proof -
    obtain k where k: "k \<ge> level" "k < 32" "ml = int k" "odd (c div 2 ^ k)" "p div 2 ^ k = c div 2 ^ k - 1" "merkle_path xs p k br"
      using m by (auto simp: matched_at_def)
    have "k \<noteq> level" using k(4) succ_div(1) [OF assms(2,3)] assms(3) by auto
    then have "(c + 1) div 2 ^ k = c div 2 ^ k" using succ_div(2) [OF assms(2,3)] k(1) by simp
    then show ?thesis using k unfolding leaves_match_def matched_at_def by auto
  qed
  then show ?thesis using assms(1) False by (auto simp: up_match_def leaves_match_def)
qed

lemma merkle_up_leaf:
  assumes "merkle_inner xs c inner" "c < length xs" "length xs < 2 ^ 32"
    and p: "p < length xs"
  shows "level \<le> 32 \<Longrightarrow> (c + 1) mod 2 ^ level = 0 \<Longrightarrow> h = merkle_levels level xs ! (c div 2 ^ level) \<Longrightarrow>
    (pb \<longrightarrow> up_match xs p c ml level mh br) \<Longrightarrow>
    \<exists>level' h' mh' mut' br'. merkle_up pb ml inner (of_nat (c + 1)) level h mh mut br = Inr (level', h', mh', mut', br') \<and>
      level' < 32 \<and> (c + 1) mod 2 ^ level' = 0 \<and> odd ((c + 1) div 2 ^ level') \<and> h' = merkle_levels level' xs ! (c div 2 ^ level') \<and>
      (pb \<longrightarrow> up_match xs p c ml level' mh' br')"
proof (induction "32 - level" arbitrary: level h mh mut br)
  case 0
  then have "level = 32" by simp
  then show ?case using 0 assms by simp
next
  case (Suc k)
  then have lt: "level < 32" by simp
  show ?case
  proof (cases "odd ((c + 1) div 2 ^ level)")
    case True
    then show ?thesis using Suc.prems lt assms bit_test [of level "c + 1"] by (subst merkle_up.simps) auto
  next
    case False
    obtain k where k: "c + 1 = 2 ^ level * k" using Suc.prems(2) by (auto elim: dvdE simp: mod_eq_0_iff_dvd)
    then have "even k" using False by simp
    then obtain q where q: "k = 2 * q" by (auto elim: dvdE)
    have d: "c div 2 ^ level = 2 * (q - 1) + 1" "c div 2 ^ Suc level = q - 1" "1 \<le> q"
      using pred_div [of c "2 ^ level" k] pred_div [of c "2 ^ Suc level" q] k q by (cases q; simp add: mult.assoc)+
    have n: "merkle_levels (Suc level) xs ! (q - 1) = Hash_concat2 (inner ! level) h"
      using complete_node [of "q - 1" level xs] assms d k q lt Suc.prems(3) by (simp add: merkle_inner_def mult.commute mult.left_commute)
    obtain mh2 br2 where m: "merkle_match pb ml level (inner ! level) h mh br = (mh2, br2)" by fastforce
    have um: "up_match xs p c ml (Suc level) mh2 br2" if pb
    proof (rule up_match_step [OF mp [OF Suc.prems(4) that] p lt d(1)])
      have "k \<le> length xs div 2 ^ level" using assms(2) k by (simp add: less_eq_div_iff_mult_less_eq mult.commute)
      moreover have "k = 2 * (q - 1) + 2" using q d(3) by simp
      ultimately show "2 * (q - 1) + 1 < merkle_width (length xs) level" by (auto simp: merkle_width_div)
      show "inner ! level = merkle_levels level xs ! (2 * (q - 1))" using assms(1) d(1) lt by (simp add: merkle_inner_def)
      show "h = merkle_levels level xs ! (2 * (q - 1) + 1)" using Suc.prems(3) d(1) by simp
      show "merkle_match True ml level (inner ! level) h mh br = (mh2, br2)" using m that by simp
    qed
    have z: "(c + 1) mod 2 ^ Suc level = 0" using k q by simp
    have e: "Hash_concat2 (inner ! level) h = merkle_levels (Suc level) xs ! (c div 2 ^ Suc level)" using n d(2) by (simp only:)
    have "\<exists>level' h' mh' mut' br'. merkle_up pb ml inner (of_nat (c + 1)) (Suc level) (Hash_concat2 (inner ! level) h) mh2 (mut \<or> inner ! level = h) br2 =
        Inr (level', h', mh', mut', br') \<and> level' < 32 \<and> (c + 1) mod 2 ^ level' = 0 \<and> odd ((c + 1) div 2 ^ level') \<and>
        h' = merkle_levels level' xs ! (c div 2 ^ level') \<and> (pb \<longrightarrow> up_match xs p c ml level' mh' br')"
      by (rule Suc.hyps(1) [OF _ _ z e impI [OF um]]) (use Suc.hyps(2) lt in simp_all)
    moreover have "merkle_up pb ml inner (of_nat (c + 1)) level h mh mut br =
        merkle_up pb ml inner (of_nat (c + 1)) (Suc level) (Hash_concat2 (inner ! level) h) mh2 (mut \<or> inner ! level = h) br2"
      using False lt m assms bit_test [of level "c + 1"] by (subst merkle_up.simps) simp
    ultimately show ?thesis by simp
  qed
qed


lemma of_nat32_eq: "a < 2 ^ 32 \<Longrightarrow> b < 2 ^ 32 \<Longrightarrow> (of_nat a :: uint32_t) = of_nat b \<longleftrightarrow> a = b"
  unfolding word_of_nat_eq_iff by (simp add: take_bit_nat_eq_self)

lemma merkle_inner_step:
  assumes "merkle_inner xs c inner" "level < 32" "(c + 1) mod 2 ^ level = 0" "odd ((c + 1) div 2 ^ level)"
    and h: "h = merkle_levels level xs ! (c div 2 ^ level)"
  shows "merkle_inner xs (c + 1) (inner[level := h])"
  unfolding merkle_inner_def
proof (intro conjI allI impI)
  obtain k where k: "c + 1 = 2 ^ level * k" using assms(3) by (auto elim: dvdE simp: mod_eq_0_iff_dvd)
  then have "odd k" using assms(4) by simp
  have c: "c div 2 ^ level = k - 1" using pred_div [OF k] by simp
  show "inner[level := h] ! l = merkle_levels l xs ! ((c + 1) div 2 ^ l - 1)" if "l < 32" "odd ((c + 1) div 2 ^ l)" for l
  proof (cases l level rule: linorder_cases)
    case less
    then obtain j where "level = l + Suc j" using less_iff_Suc_add by auto
    then have "(c + 1) div 2 ^ l = 2 * (2 ^ j * k)" using k by (simp add: power_add mult.assoc)
    then show ?thesis using that(2) by simp
  next
    case equal
    then show ?thesis using assms(1,2) h c k by (simp add: merkle_inner_def)
  next
    case greater
    then obtain j where j: "l = level + j" "0 < j" using less_imp_add_positive by blast
    have "(c + 1) div 2 ^ l = k div 2 ^ j" using k j by (simp add: power_add div_mult2_eq)
    moreover have "c div 2 ^ l = (k - 1) div 2 ^ j" using c j by (simp add: power_add div_mult2_eq)
    ultimately have "(c + 1) div 2 ^ l = c div 2 ^ l" using odd_pred_div \<open>odd k\<close> j(2) by simp
    then show ?thesis using assms(1) that greater by (simp add: merkle_inner_def)
  qed
qed (use assms(1) in \<open>simp add: merkle_inner_def\<close>)

lemma merkle_leaves_law:
  assumes "length xs < 2 ^ 32" "p < length xs" "pb \<longrightarrow> pos = of_nat p"
  shows "merkle_inner xs c inner \<Longrightarrow> c \<le> length xs \<Longrightarrow> (pb \<longrightarrow> leaves_match xs p c ml br) \<Longrightarrow>
    \<exists>inner' ml' mut' br'. merkle_leaves pb pos (drop c xs) (of_nat c) inner ml mut br = Inr (of_nat (length xs), inner', ml', mut', br') \<and>
      merkle_inner xs (length xs) inner' \<and> (pb \<longrightarrow> leaves_match xs p (length xs) ml' br')"
proof (induction "length xs - c" arbitrary: c inner ml mut br)
  case 0
  then show ?case by simp
next
  case (Suc k)
  then have c: "c < length xs" by simp
  have cp: "(of_nat c = (of_nat p :: uint32_t)) = (c = p)" using c assms(1,2) by (intro of_nat32_eq) simp_all
  have i: "(c + 1) mod 2 ^ 0 = 0" "xs ! c = merkle_levels 0 xs ! (c div 2 ^ 0)" by simp_all
  have um: "pb \<longrightarrow> up_match xs p c ml 0 (of_nat c = pos) br" using leaves_match_up Suc.prems(3) assms(3) cp by auto
  obtain level h mh mut' br' where u: "merkle_up pb ml inner (of_nat (c + 1)) 0 (xs ! c) (of_nat c = pos) mut br = Inr (level, h, mh, mut', br')"
    "level < 32" "(c + 1) mod 2 ^ level = 0" "odd ((c + 1) div 2 ^ level)" "h = merkle_levels level xs ! (c div 2 ^ level)"
    "pb \<longrightarrow> up_match xs p c ml level mh br'"
    using merkle_up_leaf [OF Suc.prems(1) c assms(1,2) le0 i um, of mut] by (elim exE conjE) (rule that)
  note s = merkle_inner_step [OF Suc.prems(1) u(2-5)]
  have "merkle_leaves pb pos (drop c xs) (of_nat c) inner ml mut br =
      merkle_leaves pb pos (drop (c + 1) xs) (of_nat (c + 1)) (inner[level := h]) (if mh then int level else ml) mut' br'"
    using c u(1) by (simp add: Cons_nth_drop_Suc [symmetric] add.commute)
  moreover have "pb \<longrightarrow> leaves_match xs p (c + 1) (if mh then int level else ml) br'"
    using up_match_leaves [OF _ u(3,4,2)] u(6) by simp
  ultimately show ?case using Suc.hyps(1) [of "c + 1", OF _ s] Suc.hyps(2) c by simp
qed

lemma merkle_skip_law:
  "0 < c \<Longrightarrow> c < 2 ^ 32 \<Longrightarrow> l \<le> 32 \<Longrightarrow> c mod 2 ^ l = 0 \<Longrightarrow>
   \<exists>l'. merkle_skip (of_nat c) l = Inr l' \<and> l' < 32 \<and> odd (c div 2 ^ l') \<and> c mod 2 ^ l' = 0"
proof (induction "32 - l" arbitrary: l)
  case 0
  then show ?case by simp
next
  case (Suc k)
  then have l: "l < 32" by simp
  show ?case
  proof (cases "odd (c div 2 ^ l)")
    case True
    then show ?thesis using Suc.prems l bit_test [of l c] by (subst merkle_skip.simps) simp
  next
    case False
    obtain q where "c = 2 ^ l * q" using Suc.prems(4) by (auto elim: dvdE simp: mod_eq_0_iff_dvd)
    then have "c mod 2 ^ Suc l = 0" using False by (auto elim: dvdE)
    then have "\<exists>l'. merkle_skip (of_nat c) (Suc l) = Inr l' \<and> l' < 32 \<and> odd (c div 2 ^ l') \<and> c mod 2 ^ l' = 0"
      by (intro Suc.hyps(1)) (use Suc.hyps(2) Suc.prems l in simp_all)
    then show ?thesis using False Suc.prems l bit_test [of l c] by (subst merkle_skip.simps) simp
  qed
qed

text \<open>The levels of the sweep.\<close>

definition sweep_ok :: "uint256 list \<Rightarrow> nat \<Rightarrow> uint256 \<Rightarrow> bool" where
  "sweep_ok xs l h \<longleftrightarrow> l < 32 \<and> h = merkle_levels l xs ! (merkle_width (length xs) l - 1) \<and> (\<forall>l' < l. 1 < merkle_width (length xs) l')"

lemma merkle_width_pos: "0 < n \<Longrightarrow> 0 < merkle_width n l"
  by (induction l) (simp_all add: merkle_width_Suc)

lemma merkle_width_bound:
  assumes "n \<le> 2 ^ k" "l \<le> k"
  shows "merkle_width n l * 2 ^ l \<le> 2 ^ k"
proof -
  obtain j where j: "k = l + j" using assms(2) le_iff_add by blast
  have "merkle_width n l \<le> (2 ^ k + 2 ^ l - 1) div 2 ^ l" using assms(1) unfolding merkle_width_def by (intro div_le_mono) simp
  also have "\<dots> = 2 ^ j" using ceil_div [of "2 ^ l" "2 ^ k"] by (simp add: j power_add)
  finally have "merkle_width n l * 2 ^ l \<le> 2 ^ j * 2 ^ l" by simp
  then show ?thesis by (simp add: j power_add mult.commute)
qed

lemma mod_power_Suc: "n mod 2 ^ l \<noteq> 0 \<Longrightarrow> n mod 2 ^ Suc l \<noteq> (0::nat)"
  by (metis dvd_trans mod_eq_0_iff_dvd le_imp_power_dvd le_SucI order_refl)

lemma last_node:
  assumes "0 < length xs" "odd (merkle_width (length xs) l)"
  shows "merkle_levels (Suc l) xs ! (merkle_width (length xs) (Suc l) - 1) =
    Hash_concat2 (merkle_levels l xs ! (merkle_width (length xs) l - 1)) (merkle_levels l xs ! (merkle_width (length xs) l - 1))"
proof -
  let ?w = "merkle_width (length xs) l"
  obtain a where a: "?w = 2 * a + 1" using assms(2) by (auto elim: oddE)
  then have "merkle_width (length xs) (Suc l) = a + 1" by (simp add: merkle_width_Suc)
  then show ?thesis using nth_merkle_levels_Suc [of a xs l] a by simp
qed

lemma even_node:
  assumes "0 < length xs" "even (merkle_width (length xs) l)"
  shows "merkle_levels (Suc l) xs ! (merkle_width (length xs) (Suc l) - 1) =
    Hash_concat2 (merkle_levels l xs ! (merkle_width (length xs) l - 2)) (merkle_levels l xs ! (merkle_width (length xs) l - 1))"
proof -
  let ?w = "merkle_width (length xs) l"
  obtain a where a: "?w = 2 * a" using assms(2) by (auto elim: evenE)
  then have p: "0 < a" using merkle_width_pos [OF assms(1), of l] by simp
  then have "merkle_width (length xs) (Suc l) = a" using a by (simp add: merkle_width_Suc)
  moreover have "2 * (a - 1) = ?w - 2" "Suc (2 * (a - 1)) = ?w - 1" using a p by simp_all
  ultimately show ?thesis using nth_merkle_levels_Suc [of "a - 1" xs l] a p by simp
qed

text \<open>The match in the sweep.\<close>

definition sweep_match :: "uint256 list \<Rightarrow> nat \<Rightarrow> int \<Rightarrow> nat \<Rightarrow> bool \<Rightarrow> uint256 list \<Rightarrow> bool" where
  "sweep_match xs p ml l mh br \<longleftrightarrow>
     (if mh then p div 2 ^ l = merkle_width (length xs) l - 1 \<and> merkle_path xs p l br else matched_at xs p (length xs) ml l br)"

lemma sweep_match_even:
  assumes "sweep_match xs p ml l mh br" "p < length xs" "l < 32" "length xs mod 2 ^ l \<noteq> 0" "even (merkle_width (length xs) l)"
    and "left = merkle_levels l xs ! (merkle_width (length xs) l - 2)" "h = merkle_levels l xs ! (merkle_width (length xs) l - 1)"
    and m: "merkle_match True ml l left h mh br = (mh2, br2)"
  shows "sweep_match xs p ml (Suc l) mh2 br2"
proof -
  let ?w = "merkle_width (length xs) l"
  have d: "x div 2 ^ Suc l = x div 2 ^ l div 2" for x :: nat by (simp only: power_Suc2 div_mult2_eq)
  obtain a where "?w = 2 * a" using assms(5) by (auto elim: evenE)
  moreover have "0 < ?w" using merkle_width_gt [OF assms(2), of l] by simp
  ultimately obtain b where w: "?w = 2 * b + 2" by (cases a) auto
  then have ws: "merkle_width (length xs) (Suc l) = b + 1" by (simp add: merkle_width_Suc)
  have nd: "length xs div 2 ^ l = 2 * b + 1" using assms(4) w by (simp add: merkle_width_div)
  show ?thesis
  proof (cases mh)
    case True
    then have p: "p div 2 ^ l = 2 * b + 1" "merkle_path xs p l br" using assms(1) w by (simp_all add: sweep_match_def)
    have "mh2" "br2 = br @ [left]" using m True by (simp_all add: merkle_match_def)
    moreover have "merkle_path xs p (Suc l) (br @ [left])" using merkle_path_Suc [OF p(2) assms(3,2)] p(1) assms(6) w by simp
    ultimately show ?thesis using p(1) ws by (simp add: sweep_match_def d del: power_Suc)
  next
    case False
    show ?thesis
    proof (cases "ml = int l")
      case True
      then have p: "p div 2 ^ l = 2 * b" "merkle_path xs p l br" using assms(1) nd False by (auto simp: sweep_match_def matched_at_def)
      have "mh2" "br2 = br @ [h]" using m True False by (simp_all add: merkle_match_def)
      moreover have "merkle_path xs p (Suc l) (br @ [h])" using merkle_path_Suc [OF p(2) assms(3,2)] p(1) assms(7) w by simp
      ultimately show ?thesis using p(1) ws by (simp add: sweep_match_def d del: power_Suc)
    next
      case ne: False
      then have "mh2 = mh" "br2 = br" using m False by (simp_all add: merkle_match_def)
      then show ?thesis using assms(1) False ne matched_at_Suc by (auto simp: sweep_match_def)
    qed
  qed
qed

lemma sweep_match_odd:
  assumes "sweep_match xs p ml l mh br" "p < length xs" "l < 32" "odd (merkle_width (length xs) l)" "\<not> mh \<Longrightarrow> ml \<noteq> int l"
    and "h = merkle_levels l xs ! (merkle_width (length xs) l - 1)"
  shows "sweep_match xs p ml (Suc l) mh (if mh then br @ [h] else br)"
proof (cases mh)
  case True
  have d: "x div 2 ^ Suc l = x div 2 ^ l div 2" for x :: nat by (simp only: power_Suc2 div_mult2_eq)
  obtain b where w: "merkle_width (length xs) l = 2 * b + 1" using assms(4) by (auto elim: oddE)
  then have ws: "merkle_width (length xs) (Suc l) = b + 1" by (simp add: merkle_width_Suc)
  have p: "p div 2 ^ l = 2 * b" "merkle_path xs p l br" using assms(1) True w by (simp_all add: sweep_match_def)
  have "merkle_path xs p (Suc l) (br @ [h])" using merkle_path_Suc [OF p(2) assms(3,2)] p(1) assms(6) w by simp
  then show ?thesis using True p(1) ws by (simp add: sweep_match_def d del: power_Suc)
next
  case False
  then show ?thesis using assms(1,5) matched_at_Suc by (simp add: sweep_match_def)
qed

lemma sweep_match_apart:
  assumes "sweep_match xs p ml l mh br" "length xs mod 2 ^ l \<noteq> 0" "odd (merkle_width (length xs) l)" "\<not> mh"
  shows "ml \<noteq> int l"
  using assms by (auto simp: sweep_match_def matched_at_def merkle_width_div)

lemma merkle_up_sweep:
  assumes "merkle_inner xs (length xs) inner" "0 < length xs" and p: "p < length xs"
  shows "l \<le> 32 \<Longrightarrow> length xs mod 2 ^ l \<noteq> 0 \<Longrightarrow> l = 32 \<or> sweep_ok xs l h \<Longrightarrow> m = merkle_width (length xs) l * 2 ^ l \<Longrightarrow> m \<le> 2 ^ 31 \<Longrightarrow>
    (pb \<longrightarrow> sweep_match xs p ml l mh br) \<Longrightarrow>
    \<exists>l' h' mh' mut' br'. merkle_up pb ml inner (of_nat m) l h mh mut br = Inr (l', h', mh', mut', br') \<and>
      sweep_ok xs l' h' \<and> odd (merkle_width (length xs) l') \<and> m = merkle_width (length xs) l' * 2 ^ l' \<and>
      length xs mod 2 ^ l' \<noteq> 0 \<and> (pb \<longrightarrow> sweep_match xs p ml l' mh' br')"
proof (induction "32 - l" arbitrary: l h mh mut br)
  case 0
  then have "l = 32" by simp
  then have "2 ^ 32 \<le> m" using 0 merkle_width_pos [OF assms(2), of 32] by simp
  then show ?case using 0 by simp
next
  case (Suc k)
  let ?w = "merkle_width (length xs) l"
  have l: "l < 32" and ok: "sweep_ok xs l h" using Suc.hyps(2) Suc.prems(3) by auto
  have b: "(of_nat m :: uint32_t) AND push_bit l 1 \<noteq> 0 \<longleftrightarrow> odd ?w" using bit_test [OF l, of m] Suc.prems(4,5) by simp
  show ?case
  proof (cases "odd ?w")
    case True
    then show ?thesis using l ok b Suc.prems by (subst merkle_up.simps) simp
  next
    case False
    have w: "?w = length xs div 2 ^ l + 1" using Suc.prems(2) by (simp add: merkle_width_div)
    then have left: "inner ! l = merkle_levels l xs ! (?w - 2)" using assms(1) False l by (simp add: merkle_inner_def)
    then have n: "Hash_concat2 (inner ! l) h = merkle_levels (Suc l) xs ! (merkle_width (length xs) (Suc l) - 1)"
      using even_node [OF assms(2)] False ok by (simp add: sweep_ok_def)
    have "1 < ?w" using merkle_width_pos [OF assms(2), of l] False by (cases "?w = 1") auto
    then have ok': "Suc l = 32 \<or> sweep_ok xs (Suc l) (Hash_concat2 (inner ! l) h)" using n ok l by (auto simp: sweep_ok_def less_Suc_eq)
    have m: "m = merkle_width (length xs) (Suc l) * 2 ^ Suc l" using Suc.prems(4) False by (auto simp: merkle_width_Suc elim!: evenE)
    obtain mh2 br2 where mm: "merkle_match pb ml l (inner ! l) h mh br = (mh2, br2)" by fastforce
    have "merkle_up pb ml inner (of_nat m) l h mh mut br =
        merkle_up pb ml inner (of_nat m) (Suc l) (Hash_concat2 (inner ! l) h) mh2 (mut \<or> inner ! l = h) br2"
      using False l b mm by (subst merkle_up.simps) simp
    moreover have "pb \<longrightarrow> sweep_match xs p ml (Suc l) mh2 br2"
      using sweep_match_even [OF _ p l Suc.prems(2) _ left, of ml mh br h mh2 br2] Suc.prems(6) False ok mm by (auto simp: sweep_ok_def)
    ultimately show ?thesis using Suc.hyps(1) [OF _ _ mod_power_Suc [OF Suc.prems(2)] ok' m Suc.prems(5)] Suc.hyps(2) l by simp
  qed
qed

lemma matched_wide:
  assumes "matched_at xs p (length xs) ml l br" "ml \<noteq> int l"
  shows "merkle_width (length xs) l \<noteq> 1"
proof -
  obtain k where k: "Suc l \<le> k" "odd (length xs div 2 ^ k)" using matched_at_Suc [OF assms] by (auto simp: matched_at_def)
  then have "2 ^ k \<le> length xs" by (metis div_less even_zero not_le)
  moreover have "(2 :: nat) * 2 ^ l \<le> 2 ^ k" using power_increasing [OF k(1), of "2 :: nat"] by simp
  ultimately have "2 \<le> length xs div 2 ^ l" by (simp add: less_eq_div_iff_mult_less_eq)
  then show ?thesis by (simp add: merkle_width_div)
qed

lemma merkle_sweep_law:
  assumes "merkle_inner xs (length xs) inner" "0 < length xs" "length xs \<le> 2 ^ 31" and p: "p < length xs"
  shows "sweep_ok xs l h \<Longrightarrow> odd (merkle_width (length xs) l) \<Longrightarrow> m = merkle_width (length xs) l * 2 ^ l \<Longrightarrow>
    (pb \<longrightarrow> sweep_match xs p ml l mh br \<and> (\<not> mh \<longrightarrow> ml \<noteq> int l)) \<Longrightarrow>
    \<exists>br'. merkle_sweep pb ml inner (of_nat m) l h mh br = Inr (merkle_root xs, br') \<and>
      (pb \<longrightarrow> ComputeMerkleRootFromBranch (xs ! p) br' (of_nat p) = merkle_root xs)"
proof (induction "32 - l" arbitrary: l h m mh br rule: less_induct)
  case less
  let ?w = "merkle_width (length xs) l"
  have l: "l < 32" using less.prems(1) by (simp add: sweep_ok_def)
  have mb: "m \<le> 2 ^ 31" using merkle_width_bound [OF assms(3), of l] l less.prems(3) by simp
  have e: "(of_nat m :: uint32_t) = push_bit l 1 \<longleftrightarrow> ?w = 1"
  proof -
    have "(2 :: nat) ^ l < 2 ^ 32" using l by (intro power_strict_increasing) simp_all
    moreover have "m < 2 ^ 32" using mb by simp
    ultimately have "(of_nat m :: uint32_t) = of_nat (2 ^ l) \<longleftrightarrow> m = 2 ^ l" by (rule of_nat32_eq [rotated])
    then have "(of_nat m :: uint32_t) = push_bit l 1 \<longleftrightarrow> m = 2 ^ l" by (simp add: push_bit_eq_mult)
    then show ?thesis using less.prems(3) by simp
  qed
  show ?case
  proof (cases "?w = 1")
    case True
    have "merkle_root xs = merkle_levels l xs ! 0"
      using True less.prems(1) by (intro merkle_root_levels) (simp_all add: length_merkle_levels sweep_ok_def)
    moreover have "ComputeMerkleRootFromBranch (xs ! p) br (of_nat p) = merkle_levels l xs ! 0" if pb
      using that less.prems(4) True p matched_wide [of xs p ml l br] by (cases mh) (auto simp: sweep_match_def merkle_path_def)
    ultimately show ?thesis using True less.prems(1) e l by (subst merkle_sweep.simps) (simp add: sweep_ok_def)
  next
    case False
    let ?h = "Hash_concat2 h h" and ?br = "if pb \<and> mh then br @ [h] else br" and ?m = "m + 2 ^ l"
    have l31: "l < 31"
      using False merkle_width_bound [OF assms(3), of 31] merkle_width_pos [OF assms(2), of 31] l by (cases "l = 31") simp_all
    have m: "?m = merkle_width (length xs) (Suc l) * 2 ^ Suc l" using less.prems(2,3) by (auto simp: merkle_width_Suc elim!: oddE)
    have nz: "length xs mod 2 ^ Suc l \<noteq> 0"
    proof (cases "length xs mod 2 ^ l = 0")
      case True
      then have "odd (length xs div 2 ^ l)" using less.prems(2) by (simp add: merkle_width_div)
      then show ?thesis by (auto simp: mod_eq_0_iff_dvd elim!: dvdE)
    qed (rule mod_power_Suc)
    have "1 < ?w" using merkle_width_pos [OF assms(2), of l] False by linarith
    then have ok: "sweep_ok xs (Suc l) ?h"
      using l31 less.prems(1) last_node [OF assms(2) less.prems(2)] by (auto simp: sweep_ok_def less_Suc_eq)
    have mb': "?m \<le> 2 ^ 31" using m merkle_width_bound [OF assms(3), of "Suc l"] l31 by simp
    have sm: "pb \<longrightarrow> sweep_match xs p ml (Suc l) mh ?br"
      using sweep_match_odd [OF _ p l less.prems(2), of ml mh br h] less.prems(1,4) by (auto simp: sweep_ok_def)
    have l32: "Suc l \<le> 32" using l by simp
    obtain l' h' mh' mut' br' where u: "merkle_up pb ml inner (of_nat ?m) (Suc l) ?h mh False ?br = Inr (l', h', mh', mut', br')"
      "sweep_ok xs l' h'" "odd (merkle_width (length xs) l')" "?m = merkle_width (length xs) l' * 2 ^ l'"
      "length xs mod 2 ^ l' \<noteq> 0" "pb \<longrightarrow> sweep_match xs p ml l' mh' br'"
      using merkle_up_sweep [OF assms(1,2) p l32 nz disjI2 [OF ok] m mb' sm, of False] by (elim exE conjE) (rule that)
    have "pb \<longrightarrow> sweep_match xs p ml l' mh' br' \<and> (\<not> mh' \<longrightarrow> ml \<noteq> int l')" using u(6) sweep_match_apart [OF _ u(5,3)] by blast
    note next_match = this
    have "32 - l' < 32 - l" using merkle_up_level [OF u(1)] l by linarith
    from less.hyps [OF this u(2,3,4) next_match] obtain br'' where
      "merkle_sweep pb ml inner (of_nat ?m) l' h' mh' br' = Inr (merkle_root xs, br'')"
      "pb \<longrightarrow> ComputeMerkleRootFromBranch (xs ! p) br'' (of_nat p) = merkle_root xs" by blast
    moreover have "(of_nat m :: uint32_t) + push_bit l 1 = of_nat ?m" by (simp add: push_bit_eq_mult)
    ultimately show ?thesis using e False l u(1) by (subst merkle_sweep.simps) (simp add: Let_def)
  qed
qed

lemma leaves_match_sweep:
  assumes "leaves_match xs p (length xs) ml br" "p < length xs" "length xs mod 2 ^ l = 0"
  shows "sweep_match xs p ml l (ml = int l) br"
proof -
  obtain k where k: "k < 32" "ml = int k" "odd (length xs div 2 ^ k)" "p div 2 ^ k = length xs div 2 ^ k - 1" "merkle_path xs p k br"
    using assms(1,2) by (auto simp: leaves_match_def matched_at_def)
  have "l \<le> k"
  proof (rule ccontr)
    assume "\<not> l \<le> k"
    then obtain j where "l = k + Suc j" using less_iff_Suc_add not_le by (metis add_Suc_right)
    moreover obtain q where "length xs = 2 ^ l * q" using assms(3) by (auto elim: dvdE simp: mod_eq_0_iff_dvd)
    ultimately have "length xs div 2 ^ k = 2 * (2 ^ j * q)" by (simp add: power_add mult.assoc)
    then show False using k(3) by simp
  qed
  then show ?thesis using k assms(3) by (auto simp: sweep_match_def matched_at_def merkle_width_div)
qed

lemma MerkleComputation_law:
  assumes "length leaves \<le> 2 ^ 31" "p < length leaves" "pb \<longrightarrow> pos = of_nat p"
  shows "\<exists>mutated br. MerkleComputation leaves pos pb = Inr (merkle_root leaves, mutated, br) \<and>
    (pb \<longrightarrow> ComputeMerkleRootFromBranch (leaves ! p) br (of_nat p) = merkle_root leaves)"
proof -
  let ?n = "length leaves"
  have n: "0 < ?n" "?n < 2 ^ 32" using assms(1,2) by (cases leaves; simp)+
  have i: "merkle_inner leaves 0 (replicate 32 (replicate 32 0))" by (simp add: merkle_inner_def)
  have "pb \<longrightarrow> leaves_match leaves p 0 (- 1) []" by (simp add: leaves_match_def)
  note start = merkle_leaves_law [OF n(2) assms(2,3) i le0 this, of False]
  obtain inner ml mut br where
    l: "merkle_leaves pb pos leaves 0 (replicate 32 (replicate 32 0)) (- 1) False [] = Inr (of_nat ?n, inner, ml, mut, br)"
    "merkle_inner leaves ?n inner" "pb \<longrightarrow> leaves_match leaves p ?n ml br"
    using start unfolding drop_0 semiring_1_class.of_nat_0 by (elim exE conjE) (rule that)
  obtain l0 where s: "merkle_skip (of_nat ?n) 0 = Inr l0" "l0 < 32" "odd (?n div 2 ^ l0)" "?n mod 2 ^ l0 = 0"
    using merkle_skip_law [OF n, of 0] by auto
  have w: "merkle_width ?n l0 = ?n div 2 ^ l0" using s(4) by (simp add: merkle_width_div)
  have "1 < merkle_width ?n l" if lt: "l < l0" for l
  proof -
    have "2 ^ l0 \<le> ?n" using s(3) by (metis div_less even_zero not_le)
    moreover have "(2 :: nat) * 2 ^ l \<le> 2 ^ l0" using power_increasing [of "Suc l" l0 "2 :: nat"] lt by simp
    ultimately have "2 \<le> ?n div 2 ^ l" by (simp add: less_eq_div_iff_mult_less_eq)
    then show ?thesis by (simp add: merkle_width_div)
  qed
  then have "sweep_ok leaves l0 (inner ! l0)" using l(2) s w by (simp add: sweep_ok_def merkle_inner_def)
  moreover have "?n = merkle_width ?n l0 * 2 ^ l0" "odd (merkle_width ?n l0)" using s w by (auto simp: mod_eq_0_iff_dvd)
  moreover have "pb \<longrightarrow> sweep_match leaves p ml l0 (ml = int l0) br \<and> (ml \<noteq> int l0 \<longrightarrow> ml \<noteq> int l0)"
    using leaves_match_sweep [OF _ assms(2) s(4)] l(3) by blast
  ultimately obtain br' where
    "merkle_sweep pb ml inner (of_nat ?n) l0 (inner ! l0) (ml = int l0) br = Inr (merkle_root leaves, br')"
    "pb \<longrightarrow> ComputeMerkleRootFromBranch (leaves ! p) br' (of_nat p) = merkle_root leaves"
    using merkle_sweep_law [OF l(2) n(1) assms(1,2)] by blast
  then show ?thesis using n(1) l(1) s(1) by (auto simp: MerkleComputation_def)
qed

text \<open>
  C37. The constant-space computation never shifts out of range for up to \<open>2 ^ 31\<close> leaves, and the root it returns is
  that of the Merkle tree built level by level.
\<close>

theorem merkle_root_computed:
  assumes "length leaves \<le> 2 ^ 31"
  shows "\<exists>mutated. ComputeMerkleRoot leaves = Inr (merkle_root leaves, mutated)"
proof (cases "leaves = []")
  case False
  then show ?thesis using MerkleComputation_law [OF assms, of 0 False "- 1"] by (auto simp: ComputeMerkleRoot_def)
qed (auto simp: ComputeMerkleRoot_def MerkleComputation_def)

theorem merkle_root_computed_witness:
  "\<exists>mutated. ComputeMerkleRoot [replicate 32 1, replicate 32 2, replicate 32 3] =
     Inr (Hash_concat2 (Hash_concat2 (replicate 32 1) (replicate 32 2)) (Hash_concat2 (replicate 32 3) (replicate 32 3)), mutated)"
  using merkle_root_computed [of "[replicate 32 1, replicate 32 2, replicate 32 3]"] by simp

text \<open>
  C38. The branch computed for a leaf's position, of up to \<open>2 ^ 31\<close> leaves, leads from that leaf to the root of the tree.
\<close>

theorem merkle_branch_verifies:
  assumes "length leaves \<le> 2 ^ 31" "p < length leaves"
  shows "\<exists>branch. ComputeMerkleBranch leaves (of_nat p) = Inr branch \<and>
    ComputeMerkleRootFromBranch (leaves ! p) branch (of_nat p) = merkle_root leaves"
  using MerkleComputation_law [OF assms, of True "of_nat p"] by (auto simp: ComputeMerkleBranch_def)

theorem merkle_branch_verifies_witness:
  "\<exists>branch. ComputeMerkleBranch [replicate 32 1, replicate 32 2, replicate 32 3] 2 = Inr branch \<and>
     ComputeMerkleRootFromBranch (replicate 32 3) branch 2 =
       Hash_concat2 (Hash_concat2 (replicate 32 1) (replicate 32 2)) (Hash_concat2 (replicate 32 3) (replicate 32 3))"
  using merkle_branch_verifies [of "[replicate 32 1, replicate 32 2, replicate 32 3]" 2] by simp

end
