(* ===== verification/Spec2Isabelle.thy ===== *)
theory Spec2Isabelle
  imports Pow TxCheck Merkle
begin

text \<open>
  A verification development of the BitcoinZ node.
\<close>

end
